(* ===== verification/Baml_Prelude.thy ===== *)
theory Baml_Prelude
  imports Main "HOL-Library.Word" "HOL-Library.Sublist"
begin

text \<open>
  Shared vocabulary of the development: Go strings as byte strings, Go maps as association
  lists, and the parts of the Go standard library that the modelled packages call
  (\<^verbatim>\<open>strings.TrimSpace\<close>, \<^verbatim>\<open>strings.TrimPrefix\<close>, \<^verbatim>\<open>strings.FieldsFunc\<close>,
  \<^verbatim>\<open>strings.IndexByte\<close>, \<^verbatim>\<open>bytes.TrimRight\<close>), with the lemmas the component theories share.

  \<^item> A Go \<^verbatim>\<open>string\<close> or \<^verbatim>\<open>[]byte\<close> is a \<^typ>\<open>string\<close>, one \<^typ>\<open>char\<close> per byte.
  \<^item> A Go map with string keys is an association list (\<open>gomap\<close>), so it is finite. A lookup of an
    absent key gives the zero value of the element type, as in Go.
  \<^item> A Go \<^verbatim>\<open>int\<close> is an \<^typ>\<open>int\<close>; \<^verbatim>\<open>uint64\<close> is \<^typ>\<open>64 word\<close>, and the conversions between them
    are \<open>uint64_of\<close> and \<open>int_of_uint64\<close>.
\<close>

section \<open>Collections of lemmas\<close>

named_theorems go_eval \<open>equations that evaluate the modelled library calls\<close>
named_theorems provider_simps \<open>facts on provider spellings\<close>

section \<open>Maps\<close>

type_synonym 'v gomap = "(string \<times> 'v) list"

abbreviation gomap_keys :: "'v gomap \<Rightarrow> string set" where
  "gomap_keys m \<equiv> fst ` set m"

definition gomap_str :: "string gomap \<Rightarrow> string \<Rightarrow> string" where
  "gomap_str m k = (case map_of m k of None \<Rightarrow> '''' | Some v \<Rightarrow> v)"

definition gomap_slice :: "'v list gomap \<Rightarrow> string \<Rightarrow> 'v list" where
  "gomap_slice m k = (case map_of m k of None \<Rightarrow> [] | Some v \<Rightarrow> v)"

definition gomap_flag :: "bool gomap \<Rightarrow> string \<Rightarrow> bool" where
  "gomap_flag m k = (case map_of m k of None \<Rightarrow> False | Some b \<Rightarrow> b)"

fun gomap_put :: "string \<Rightarrow> 'v \<Rightarrow> 'v gomap \<Rightarrow> 'v gomap" where
  "gomap_put k v [] = [(k, v)]"
| "gomap_put k v ((k', v') # m) = (if k = k' then (k, v) # m else (k', v') # gomap_put k v m)"

lemma map_of_gomap_put [simp]: "map_of (gomap_put k v m) = (map_of m)(k \<mapsto> v)"
  by (induction k v m rule: gomap_put.induct) auto

lemma gomap_put_neq_Nil [simp]: "gomap_put k v m \<noteq> []"
  by (induction k v m rule: gomap_put.induct) auto

lemma gomap_keys_put [simp]: "gomap_keys (gomap_put k v m) = insert k (gomap_keys m)"
  by (induction k v m rule: gomap_put.induct) auto

lemma gomap_str_put [simp]: "gomap_str (gomap_put k v m) x = (if x = k then v else gomap_str m x)"
  by (simp add: gomap_str_def)

lemma gomap_flag_put [simp]: "gomap_flag (gomap_put k b m) x = (if x = k then b else gomap_flag m x)"
  by (simp add: gomap_flag_def)

lemma gomap_put_put [simp]: "gomap_put k v (gomap_put k v' m) = gomap_put k v m"
  by (induction k v m rule: gomap_put.induct) auto

lemma gomap_flag_keys: "gomap_flag m k \<Longrightarrow> k \<in> gomap_keys m"
  by (auto simp: gomap_flag_def split: option.splits dest!: map_of_SomeD intro: rev_image_eqI)

lemma gomap_slice_Nil [simp]: "gomap_slice [] k = []"
  by (simp add: gomap_slice_def)

lemma gomap_flag_Nil [simp]: "gomap_flag [] k = False"
  by (simp add: gomap_flag_def)

lemma gomap_slice_subset: "set (gomap_slice m k) \<subseteq> \<Union> (set ` snd ` set m)"
proof (cases "map_of m k")
  case (Some v)
  then have "(k, v) \<in> set m" by (rule map_of_SomeD)
  then show ?thesis using Some by (force simp: gomap_slice_def)
qed (simp add: gomap_slice_def)

section \<open>Integers\<close>

definition uint64_of :: "int \<Rightarrow> 64 word" where
  "uint64_of i = word_of_int i"

definition int_of_uint64 :: "64 word \<Rightarrow> int" where
  "int_of_uint64 w = sint w"

definition min_int32 :: int where "min_int32 = - 2147483648"
definition max_int32 :: int where "max_int32 = 2147483647"
definition max_int64 :: int where "max_int64 = 9223372036854775807"

lemma uint_uint64_of: "0 \<le> n \<Longrightarrow> n \<le> max_int64 \<Longrightarrow> uint (uint64_of n) = n"
  by (simp add: uint64_of_def max_int64_def uint_word_of_int_eq take_bit_int_eq_self)

lemma int_of_uint64_small: "uint w < 2 ^ 63 \<Longrightarrow> int_of_uint64 w = uint w"
  by (simp add: int_of_uint64_def sint_uint signed_take_bit_int_eq_self order_trans[OF _ uint_ge_0])

text \<open>Reducing a counter modulo a child count stays inside the signed range.\<close>

lemma int_of_uint64_mod:
  assumes "0 < n" "n \<le> max_int64"
  shows "int_of_uint64 (w mod uint64_of n) = uint w mod n"
proof -
  have u: "uint (w mod uint64_of n) = uint w mod n"
    using assms by (simp add: uint_mod uint_uint64_of)
  have "uint w mod n < n" using assms by simp
  also have "n < 2 ^ 63" using assms by (simp add: max_int64_def)
  finally show ?thesis using u by (simp add: int_of_uint64_small)
qed

definition wrap_int64 :: "int \<Rightarrow> int" where
  "wrap_int64 i = sint (word_of_int i :: 64 word)"

lemma wrap_int64_id: "- max_int64 - 1 \<le> i \<Longrightarrow> i \<le> max_int64 \<Longrightarrow> wrap_int64 i = i"
  by (simp add: wrap_int64_def max_int64_def sint_uint uint_word_of_int_eq signed_take_bit_take_bit
      signed_take_bit_int_eq_self)

section \<open>Floating point\<close>

text \<open>A \<^verbatim>\<open>float64\<close>: not a number, an infinity (\<open>True\<close> is the negative one) or the finite value
  \<open>m * 2 ^ e\<close>.\<close>

datatype gofloat = FNaN | FInf bool | FFin int int

text \<open>Whether a finite value is whole (\<^verbatim>\<open>math.Trunc(v) == v\<close>), and its truncation.\<close>

definition float_whole :: "int \<Rightarrow> int \<Rightarrow> bool" where
  "float_whole m e \<longleftrightarrow> 0 \<le> e \<or> m mod 2 ^ nat (- e) = 0"

definition float_trunc :: "int \<Rightarrow> int \<Rightarrow> int" where
  "float_trunc m e = (if 0 \<le> e then m * 2 ^ nat e else sgn m * (\<bar>m\<bar> div 2 ^ nat (- e)))"

fun bit_count :: "nat \<Rightarrow> nat" where
  "bit_count n = (if n = 0 then 0 else Suc (bit_count (n div 2)))"

declare bit_count.simps [simp del]

text \<open>Conversion of an \<^verbatim>\<open>int\<close> to \<^verbatim>\<open>float64\<close>: 53 significant bits, ties to even.\<close>

definition float64_of_int :: "int \<Rightarrow> gofloat" where
  "float64_of_int n =
     (let k = bit_count (nat \<bar>n\<bar>) - 53
      in if k = 0 then FFin n 0
         else (let q = \<bar>n\<bar> div 2 ^ k; r = \<bar>n\<bar> mod 2 ^ k; h = 2 ^ (k - 1)
               in FFin (sgn n * (if r > h \<or> (r = h \<and> odd q) then q + 1 else q)) (int k)))"

definition float_less :: "gofloat \<Rightarrow> gofloat \<Rightarrow> bool" where
  "float_less a b = (case (a, b) of
      (FNaN, _) \<Rightarrow> False
    | (_, FNaN) \<Rightarrow> False
    | (FInf s, FInf t) \<Rightarrow> s \<and> \<not> t
    | (FInf s, FFin _ _) \<Rightarrow> s
    | (FFin _ _, FInf t) \<Rightarrow> \<not> t
    | (FFin m e, FFin n f) \<Rightarrow> m * 2 ^ nat (e - min e f) < n * 2 ^ nat (f - min e f))"

definition float_le_zero :: "gofloat \<Rightarrow> bool" where
  "float_le_zero a = (case a of FNaN \<Rightarrow> False | FInf s \<Rightarrow> s | FFin m _ \<Rightarrow> m \<le> 0)"

text \<open>Conversion to \<^verbatim>\<open>int64\<close>: truncation; a value out of range gives the indefinite integer of the
  amd64 conversion instruction.\<close>

definition int64_of_float :: "gofloat \<Rightarrow> int" where
  "int64_of_float a = (case a of
      FFin m e \<Rightarrow> if - max_int64 - 1 \<le> float_trunc m e \<and> float_trunc m e \<le> max_int64
                  then float_trunc m e else - max_int64 - 1
    | _ \<Rightarrow> - max_int64 - 1)"

lemma bit_count_bound: "n < 2 ^ k \<Longrightarrow> bit_count n \<le> k"
proof (induction k arbitrary: n)
  case 0
  then show ?case by (simp add: bit_count.simps)
next
  case (Suc k)
  then have "n div 2 < 2 ^ k" by auto
  then show ?case using Suc.IH by (subst bit_count.simps) simp
qed

lemma float64_of_int_exact: "\<bar>n\<bar> < 2 ^ 53 \<Longrightarrow> float64_of_int n = FFin n 0"
  using bit_count_bound[of "nat \<bar>n\<bar>" 53] by (simp add: float64_of_int_def nat_less_iff)

text \<open>A finite value that is not above an integer truncates to at most that integer.\<close>

lemma float_trunc_le:
  assumes "\<not> float_less (FFin n 0) (FFin m e)" "0 \<le> m"
  shows "0 \<le> float_trunc m e \<and> float_trunc m e \<le> n"
proof (cases "0 \<le> e")
  case True
  then show ?thesis using assms by (simp add: float_less_def float_trunc_def min_def)
next
  case False
  then have "m \<le> n * 2 ^ nat (- e)" using assms by (simp add: float_less_def min_def)
  then have "m div 2 ^ nat (- e) \<le> n" by (metis nonzero_mult_div_cancel_right order_refl zdiv_mono1 zero_less_numeral zero_less_power power_not_zero zero_neq_numeral)
  then show ?thesis using False assms(2)
    by (cases "m = 0") (simp_all add: float_trunc_def pos_imp_zdiv_nonneg_iff)
qed

section \<open>Strings\<close>

definition has_prefix :: "string \<Rightarrow> string \<Rightarrow> bool" where
  "has_prefix s p \<longleftrightarrow> take (length p) s = p"

definition trim_prefix :: "string \<Rightarrow> string \<Rightarrow> string" where
  "trim_prefix s p = (if has_prefix s p then drop (length p) s else s)"

lemma has_prefix_append [simp]: "has_prefix (p @ s) p"
  by (simp add: has_prefix_def)

lemma trim_prefix_append [simp]: "trim_prefix (p @ s) p = s"
  by (simp add: trim_prefix_def)

lemma has_prefixE:
  assumes "has_prefix s p"
  obtains r where "s = p @ r"
  using assms by (metis append_take_drop_id has_prefix_def)

lemma has_prefix_iff: "has_prefix s p \<longleftrightarrow> (\<exists>r. s = p @ r)"
  by (metis has_prefixE has_prefix_append)

text \<open>\<^verbatim>\<open>strings.IndexByte(s, c) >= 0\<close> is membership.\<close>

definition contains_byte :: "string \<Rightarrow> char \<Rightarrow> bool" where
  "contains_byte s c \<longleftrightarrow> c \<in> set s"

text \<open>The byte at an index that the caller has checked to be in range.\<close>

definition first_byte_is :: "string \<Rightarrow> char \<Rightarrow> bool" where
  "first_byte_is s c = (case s of [] \<Rightarrow> False | x # _ \<Rightarrow> x = c)"

definition last_byte_is :: "string \<Rightarrow> char \<Rightarrow> bool" where
  "last_byte_is s c = (case rev s of [] \<Rightarrow> False | x # _ \<Rightarrow> x = c)"

subsection \<open>Printing numbers\<close>

fun nat_str :: "nat \<Rightarrow> string" where
  "nat_str n = (if n < 10 then [char_of (48 + n)] else nat_str (n div 10) @ [char_of (48 + n mod 10)])"

declare nat_str.simps [simp del]

text \<open>The verb \<^verbatim>\<open>%d\<close>.\<close>

definition itoa :: "int \<Rightarrow> string" where
  "itoa i = (if i < 0 then CHR 0x2D # nat_str (nat (- i)) else nat_str (nat i))"

text \<open>The verb \<^verbatim>\<open>%.2f\<close>: the nearest hundredth, ties to even.\<close>

definition ftoa2 :: "gofloat \<Rightarrow> string" where
  "ftoa2 a = (case a of
      FNaN \<Rightarrow> ''NaN''
    | FInf s \<Rightarrow> if s then ''-Inf'' else ''+Inf''
    | FFin m e \<Rightarrow>
        (let num = nat \<bar>m\<bar> * 100 * 2 ^ nat e; den = 2 ^ nat (- e);
             q = num div den; r = num mod den;
             h = (if 2 * r > den \<or> (2 * r = den \<and> odd q) then q + 1 else q)
         in (if m < 0 then ''-'' else []) @ nat_str (h div 100) @ ''.'' @
            [char_of (48 + (h mod 100) div 10), char_of (48 + h mod 10)]))"

subsection \<open>White space\<close>

text \<open>
  The UTF-8 encodings of the code points of Go's \<^verbatim>\<open>unicode.IsSpace\<close>. Trimming decodes a rune at
  the end of the string; no encoding below is a proper prefix or suffix of another, so trimming a
  rune that is a space is removing one of these byte sequences.
\<close>

definition space_encodings :: "string list" where
  "space_encodings =
     [[CHR 0x20], [CHR 0x09], [CHR 0x0A], [CHR 0x0B], [CHR 0x0C], [CHR 0x0D],
      [CHR 0xC2, CHR 0x85], [CHR 0xC2, CHR 0xA0],
      [CHR 0xE1, CHR 0x9A, CHR 0x80],
      [CHR 0xE2, CHR 0x80, CHR 0x80], [CHR 0xE2, CHR 0x80, CHR 0x81],
      [CHR 0xE2, CHR 0x80, CHR 0x82], [CHR 0xE2, CHR 0x80, CHR 0x83],
      [CHR 0xE2, CHR 0x80, CHR 0x84], [CHR 0xE2, CHR 0x80, CHR 0x85],
      [CHR 0xE2, CHR 0x80, CHR 0x86], [CHR 0xE2, CHR 0x80, CHR 0x87],
      [CHR 0xE2, CHR 0x80, CHR 0x88], [CHR 0xE2, CHR 0x80, CHR 0x89],
      [CHR 0xE2, CHR 0x80, CHR 0x8A],
      [CHR 0xE2, CHR 0x80, CHR 0xA8], [CHR 0xE2, CHR 0x80, CHR 0xA9],
      [CHR 0xE2, CHR 0x80, CHR 0xAF], [CHR 0xE2, CHR 0x81, CHR 0x9F],
      [CHR 0xE3, CHR 0x80, CHR 0x80]]"

text \<open>
  \<open>strip_one encs s\<close> removes one sequence of \<open>encs\<close> from the front of \<open>s\<close>; \<open>strip_all\<close> repeats it,
  with the length of the string as a bound that is always enough (\<open>strip_all_unfold\<close>).
\<close>

definition strip_one :: "string list \<Rightarrow> string \<Rightarrow> string option" where
  "strip_one encs s = map_option (\<lambda>e. drop (length e) s) (find (has_prefix s) encs)"

fun strip_fuel :: "nat \<Rightarrow> string list \<Rightarrow> string \<Rightarrow> string" where
  "strip_fuel 0 encs s = s"
| "strip_fuel (Suc n) encs s =
     (case strip_one encs s of None \<Rightarrow> s | Some s' \<Rightarrow> strip_fuel n encs s')"

definition strip_all :: "string list \<Rightarrow> string \<Rightarrow> string" where
  "strip_all encs s = strip_fuel (length s) encs s"

definition trim_left_space :: "string \<Rightarrow> string" where
  "trim_left_space s = strip_all space_encodings s"

definition trim_right_space :: "string \<Rightarrow> string" where
  "trim_right_space s = rev (strip_all (map rev space_encodings) (rev s))"

definition trim_space :: "string \<Rightarrow> string" where
  "trim_space s = trim_right_space (trim_left_space s)"

lemma strip_one_shorter:
  assumes "[] \<notin> set encs" "strip_one encs s = Some s'"
  shows "length s' < length s"
proof -
  from assms(2) obtain e where e: "find (has_prefix s) encs = Some e" "s' = drop (length e) s"
    by (auto simp: strip_one_def)
  then have "has_prefix s e" "e \<in> set encs" by (auto simp: find_Some_iff)
  then show ?thesis using assms(1) e(2) by (auto elim!: has_prefixE)
qed

lemma strip_one_suffix: "strip_one encs s = Some s' \<Longrightarrow> \<exists>p. s = p @ s'"
  by (auto simp: strip_one_def) (metis append_take_drop_id)

lemma strip_fuel_stable:
  assumes "[] \<notin> set encs" "length s \<le> n" "length s \<le> m"
  shows "strip_fuel n encs s = strip_fuel m encs s"
  using assms
proof (induction n arbitrary: m s)
  case 0
  then have "strip_one encs s = None"
    using strip_one_shorter[of encs s] by (cases "strip_one encs s") auto
  then show ?case by (cases m) auto
next
  case (Suc n)
  show ?case
  proof (cases "strip_one encs s")
    case None
    then show ?thesis by (cases m) auto
  next
    case (Some s')
    then have l: "length s' < length s" using strip_one_shorter Suc.prems(1) by blast
    then obtain m' where m: "m = Suc m'" using Suc.prems by (cases m) auto
    have "strip_fuel n encs s' = strip_fuel m' encs s'"
      using Suc.prems l m by (intro Suc.IH) auto
    with Some m show ?thesis by simp
  qed
qed

lemma strip_all_unfold:
  assumes "[] \<notin> set encs"
  shows "strip_all encs s = (case strip_one encs s of None \<Rightarrow> s | Some s' \<Rightarrow> strip_all encs s')"
proof (cases "strip_one encs s")
  case None
  then show ?thesis by (cases "length s") (auto simp: strip_all_def)
next
  case (Some s')
  then have l: "length s' < length s" using assms strip_one_shorter by blast
  then obtain n where n: "length s = Suc n" by (cases "length s") auto
  have "strip_fuel n encs s' = strip_fuel (length s') encs s'"
    using assms l n by (intro strip_fuel_stable) auto
  then show ?thesis using Some n by (simp add: strip_all_def)
qed

lemma strip_all_induct [consumes 1, case_names stop strip]:
  assumes "[] \<notin> set encs"
    and stop: "\<And>s. strip_one encs s = None \<Longrightarrow> P s"
    and strip: "\<And>s s'. strip_one encs s = Some s' \<Longrightarrow> P s' \<Longrightarrow> P s"
  shows "P s"
proof (induction "length s" arbitrary: s rule: less_induct)
  case less
  then show ?case
    using assms strip_one_shorter by (cases "strip_one encs s") blast+
qed

lemma strip_all_stops:
  assumes "[] \<notin> set encs"
  shows "strip_one encs (strip_all encs s) = None"
  using assms
proof (induction s rule: strip_all_induct)
  case (stop s)
  then show ?case using strip_all_unfold[OF assms, of s] by simp
next
  case (strip s s')
  then show ?case using strip_all_unfold[OF assms, of s] by simp
qed

lemma strip_all_suffix:
  assumes "[] \<notin> set encs"
  shows "\<exists>p. s = p @ strip_all encs s"
  using assms
proof (induction s rule: strip_all_induct)
  case (stop s)
  then show ?case using strip_all_unfold[OF assms, of s] by simp
next
  case (strip s s')
  then obtain p q where "s = p @ s'" "s' = q @ strip_all encs s'"
    using strip_one_suffix by blast
  then show ?case using strip assms strip_all_unfold[of encs s] by (intro exI[of _ "p @ q"]) simp
qed

lemma strip_all_id: "[] \<notin> set encs \<Longrightarrow> strip_one encs s = None \<Longrightarrow> strip_all encs s = s"
  using strip_all_unfold[of encs s] by simp

lemma space_encodings_nonempty [simp]:
  "[] \<notin> set space_encodings" "[] \<notin> rev ` set space_encodings"
  by (auto simp: space_encodings_def)

text \<open>
  Bytes that are neither the first nor the last byte of an encoded space: every printable ASCII
  byte is one.
\<close>

definition solid_byte :: "char \<Rightarrow> bool" where
  "solid_byte c \<longleftrightarrow> (\<forall>e \<in> set space_encodings. hd e \<noteq> c \<and> last e \<noteq> c)"

lemma solid_no_strip:
  assumes "solid_byte c"
  shows "strip_one space_encodings (c # s) = None"
    "strip_one (map rev space_encodings) (c # s) = None"
proof -
  have "find (has_prefix (c # s)) space_encodings = None"
    using assms by (auto simp: find_None_iff has_prefix_iff solid_byte_def Cons_eq_append_conv
        simp del: space_encodings_nonempty) (use space_encodings_nonempty(1) in blast)
  then show "strip_one space_encodings (c # s) = None" by (simp add: strip_one_def)
  have "\<not> has_prefix (c # s) (rev e)" if e: "e \<in> set space_encodings" for e
  proof
    assume "has_prefix (c # s) (rev e)"
    then obtain r where r: "c # s = rev e @ r" by (auto simp: has_prefix_iff)
    have ne: "e \<noteq> []" using e space_encodings_nonempty(1) by blast
    then have "last e = c" using r by (cases e rule: rev_cases) auto
    then show False using assms e by (auto simp: solid_byte_def)
  qed
  then have "find (has_prefix (c # s)) (map rev space_encodings) = None"
    by (auto simp: find_None_iff)
  then show "strip_one (map rev space_encodings) (c # s) = None" by (simp add: strip_one_def)
qed

lemma trim_left_space_solid: "solid_byte c \<Longrightarrow> trim_left_space (c # s) = c # s"
  by (simp add: trim_left_space_def strip_all_id solid_no_strip)

lemma trim_right_space_solid: "solid_byte c \<Longrightarrow> trim_right_space (s @ [c]) = s @ [c]"
  by (simp add: trim_right_space_def strip_all_id solid_no_strip)

lemma trim_space_Nil [simp]: "trim_space [] = []"
  by (simp add: trim_space_def trim_left_space_def trim_right_space_def strip_all_def)

lemma trim_space_solid:
  assumes "s \<noteq> []" "solid_byte (hd s)" "solid_byte (last s)"
  shows "trim_space s = s"
proof -
  have "trim_left_space s = s"
    using assms by (cases s) (simp_all add: trim_left_space_solid)
  moreover have "trim_right_space s = s"
    using assms trim_right_space_solid[of "last s" "butlast s"] by simp
  ultimately show ?thesis by (simp add: trim_space_def)
qed

lemma trim_right_space_prefix: "\<exists>q. s = trim_right_space s @ q"
proof -
  obtain p where "rev s = p @ strip_all (map rev space_encodings) (rev s)"
    using strip_all_suffix[of "map rev space_encodings" "rev s"] by auto
  then have "s = trim_right_space s @ rev p"
    unfolding trim_right_space_def by (metis rev_append rev_rev_ident)
  then show ?thesis by blast
qed

lemma trim_left_space_suffix: "\<exists>p. s = p @ trim_left_space s"
  using strip_all_suffix[of space_encodings s] by (simp add: trim_left_space_def)

lemma trim_space_infix: "\<exists>p q. s = p @ trim_space s @ q"
  by (metis trim_left_space_suffix trim_right_space_prefix trim_space_def)

lemma set_trim_space: "set (trim_space s) \<subseteq> set s"
proof -
  obtain p q where "s = p @ trim_space s @ q" using trim_space_infix by blast
  then have "set s = set p \<union> set (trim_space s) \<union> set q" by (metis set_append sup_assoc)
  then show ?thesis by blast
qed

text \<open>Leading ASCII white space is dropped one byte at a time.\<close>

definition ascii_space :: "char \<Rightarrow> bool" where
  "ascii_space c \<longleftrightarrow> [c] \<in> set space_encodings"

lemma strip_one_ascii_space:
  assumes "ascii_space c"
  shows "strip_one space_encodings (c # s) = Some s"
proof -
  have "c \<in> {CHR 0x20, CHR 0x09, CHR 0x0A, CHR 0x0B, CHR 0x0C, CHR 0x0D}"
    using assms by (simp add: ascii_space_def space_encodings_def)
  then have "find (has_prefix (c # s)) space_encodings = Some [c]"
    by (elim insertE emptyE) (simp_all add: space_encodings_def has_prefix_def)
  then show ?thesis by (simp add: strip_one_def)
qed

lemma trim_left_space_ascii: "ascii_space c \<Longrightarrow> trim_left_space (c # s) = trim_left_space s"
  using strip_all_unfold[of space_encodings "c # s"]
  by (simp add: trim_left_space_def strip_one_ascii_space)

lemma trim_space_ascii_front: "ascii_space c \<Longrightarrow> trim_space (c # s) = trim_space s"
  by (simp add: trim_space_def trim_left_space_ascii)

subsection \<open>Splitting\<close>

text \<open>\<^verbatim>\<open>strings.FieldsFunc\<close> for a predicate on single bytes: the maximal runs of bytes that are not
  separators.\<close>

fun fields_acc :: "(char \<Rightarrow> bool) \<Rightarrow> string \<Rightarrow> string \<Rightarrow> string list" where
  "fields_acc sep acc [] = (if acc = [] then [] else [acc])"
| "fields_acc sep acc (c # s) =
     (if sep c then (if acc = [] then [] else [acc]) @ fields_acc sep [] s
      else fields_acc sep (acc @ [c]) s)"

definition fields_func :: "(char \<Rightarrow> bool) \<Rightarrow> string \<Rightarrow> string list" where
  "fields_func sep s = fields_acc sep [] s"

lemma fields_acc_word:
  assumes "\<forall>c \<in> set w. \<not> sep c"
  shows "fields_acc sep acc (w @ s) = fields_acc sep (acc @ w) s"
  using assms
proof (induction w arbitrary: acc)
  case (Cons c w)
  then show ?case using Cons.IH[of "acc @ [c]"] by simp
qed simp

lemma fields_acc_nonempty: "[] \<notin> set (fields_acc sep acc s)"
proof (induction s arbitrary: acc)
  case (Cons c s)
  show ?case using Cons.IH[of "[]"] Cons.IH[of "acc @ [c]"] by simp
qed simp

lemma fields_acc_no_sep:
  assumes "\<not> list_ex sep acc"
  shows "\<forall>x \<in> set (fields_acc sep acc s). \<not> list_ex sep x"
  using assms
proof (induction s arbitrary: acc)
  case (Cons c s)
  show ?case
  proof (cases "sep c")
    case True
    then show ?thesis using Cons.prems Cons.IH[of "[]"] by simp
  next
    case False
    then have "\<not> list_ex sep (acc @ [c])" using Cons.prems by simp
    from Cons.IH[OF this] False show ?thesis by simp
  qed
qed simp

lemma fields_func_Nil [simp]: "fields_func sep [] = []"
  by (simp add: fields_func_def)

lemma fields_func_sep [simp]: "sep c \<Longrightarrow> fields_func sep (c # s) = fields_func sep s"
  by (simp add: fields_func_def)

lemma fields_func_word_end:
  "w \<noteq> [] \<Longrightarrow> \<forall>c \<in> set w. \<not> sep c \<Longrightarrow> fields_func sep w = [w]"
  using fields_acc_word[of w sep "[]" "[]"] by (simp add: fields_func_def)

lemma fields_func_word_sep:
  "w \<noteq> [] \<Longrightarrow> \<forall>c \<in> set w. \<not> sep c \<Longrightarrow> sep c \<Longrightarrow>
     fields_func sep (w @ c # s) = w # fields_func sep s"
  using fields_acc_word[of w sep "[]" "c # s"] by (simp add: fields_func_def)

end
