(* ===== verification/Client_Registry.thy ===== *)
theory Client_Registry
  imports Baml_Prelude
begin

text \<open>
  The runtime client registry of \<^verbatim>\<open>bamlutils/interfaces.go\<close>: its data types, \<open>Validate\<close>, and the
  classification of strategy parents for the registries that are forwarded to the BAML runtime.

  A nil pointer is \<^const>\<open>None\<close>. The values of \<^verbatim>\<open>Options\<close> have the Go type \<^verbatim>\<open>any\<close>; \<open>goval\<close> has one
  constructor per dynamic type that the modelled code distinguishes.\<close>

section \<open>Values and registry entries\<close>

datatype int_kind = KInt | KInt8 | KInt16 | KInt32 | KInt64

datatype goval =
    VNil
  | VBool bool
  | VStr string
  | VStrs "string list"
  | VAnys "goval list"
  | VMap "(string \<times> goval) list"
  | VInt int_kind int
  | VUint nat
  | VFloat32 gofloat
  | VFloat gofloat
  | VNumber string

record client_property =
  cp_Name :: string
  cp_Provider :: string
  cp_RetryPolicy :: "string option"
  cp_Options :: "goval gomap option"
  cp_ProviderSet :: bool

record client_registry =
  cr_Primary :: "string option"
  cr_Clients :: "client_property option list"

text \<open>Reading a key of an options map that may be nil.\<close>

definition option_value :: "client_property \<Rightarrow> string \<Rightarrow> goval option" where
  "option_value c k = (case cp_Options c of None \<Rightarrow> None | Some m \<Rightarrow> map_of m k)"

text \<open>The forward scan of \<^verbatim>\<open>Clients\<close> that every lookup performs: the first entry that is not nil and
  satisfies the condition.\<close>

fun first_client ::
    "(client_property \<Rightarrow> bool) \<Rightarrow> client_property option list \<Rightarrow> client_property option" where
  "first_client P [] = None"
| "first_client P (None # cs) = first_client P cs"
| "first_client P (Some c # cs) = (if P c then Some c else first_client P cs)"

section \<open>Validation\<close>

datatype registry_error = ErrEmptyClientName nat | ErrDuplicateClientName string

fun Validate_loop :: "nat \<Rightarrow> string list \<Rightarrow> client_property option list \<Rightarrow> registry_error option" where
  "Validate_loop i seen [] = None"
| "Validate_loop i seen (None # cs) = Validate_loop (Suc i) seen cs"
| "Validate_loop i seen (Some c # cs) =
     (if cp_Name c = '''' then Some (ErrEmptyClientName i)
      else if cp_Name c \<in> set seen then Some (ErrDuplicateClientName (cp_Name c))
      else Validate_loop (Suc i) (cp_Name c # seen) cs)"

definition Validate :: "client_registry option \<Rightarrow> registry_error option" where
  "Validate r = (case r of None \<Rightarrow> None | Some reg \<Rightarrow> Validate_loop 0 [] (cr_Clients reg))"

section \<open>Provider presence and spelling\<close>

definition IsProviderPresent :: "client_property option \<Rightarrow> bool" where
  "IsProviderPresent c = (case c of None \<Rightarrow> False
     | Some c \<Rightarrow> cp_Provider c \<noteq> '''' \<or> cp_ProviderSet c)"

definition TranslateUpstreamProvider :: "string \<Rightarrow> string" where
  "TranslateUpstreamProvider provider =
     (if provider = ''baml-roundrobin'' then ''baml-round-robin'' else provider)"

definition isStrategyProviderName :: "string \<Rightarrow> bool" where
  "isStrategyProviderName p \<longleftrightarrow>
     p = ''round-robin'' \<or> p = ''baml-round-robin'' \<or> p = ''baml-roundrobin'' \<or>
     p = ''fallback'' \<or> p = ''baml-fallback''"

definition IsResolvedStrategyParent :: "client_property option \<Rightarrow> string gomap \<Rightarrow> bool" where
  "IsResolvedStrategyParent client introspectedProviders =
     (case client of None \<Rightarrow> False
      | Some c \<Rightarrow>
          isStrategyProviderName
            (if IsProviderPresent (Some c) then cp_Provider c
             else gomap_str introspectedProviders (cp_Name c)))"

definition ShouldDropStrategyParentForTopLevelLegacy ::
    "client_property option \<Rightarrow> string gomap \<Rightarrow> bool" where
  "ShouldDropStrategyParentForTopLevelLegacy client introspectedProviders =
     (if \<not> IsResolvedStrategyParent client introspectedProviders then False
      else if IsProviderPresent client then False
      else (case client of None \<Rightarrow> False
            | Some c \<Rightarrow>
                if option_value c ''strategy'' \<noteq> None then False
                else if option_value c ''start'' \<noteq> None then False
                else True))"

definition UpstreamClientRegistryProvider :: "client_property option \<Rightarrow> string gomap \<Rightarrow> string" where
  "UpstreamClientRegistryProvider client introspectedProviders =
     (case client of None \<Rightarrow> ''''
      | Some c \<Rightarrow>
          if IsProviderPresent client then TranslateUpstreamProvider (cp_Provider c)
          else (let p = gomap_str introspectedProviders (cp_Name c)
                in if p \<noteq> '''' then TranslateUpstreamProvider p else ''''))"

section \<open>Lemmas\<close>

text \<open>The names of the entries that are not nil, in order.\<close>

definition client_names :: "client_property option list \<Rightarrow> string list" where
  "client_names cs = map cp_Name (List.map_filter id cs)"

lemma client_names_simps [simp]:
  "client_names [] = []"
  "client_names (None # cs) = client_names cs"
  "client_names (Some c # cs) = cp_Name c # client_names cs"
  by (simp_all add: client_names_def List.map_filter_def)

lemma in_client_names: "n \<in> set (client_names cs) \<longleftrightarrow> (\<exists>c. Some c \<in> set cs \<and> cp_Name c = n)"
proof (induction cs)
  case (Cons a cs)
  then show ?case by (cases a) auto
qed simp

lemma Validate_loop_None:
  "Validate_loop i seen cs = None \<longleftrightarrow>
     '''' \<notin> set (client_names cs) \<and> distinct (client_names cs) \<and>
     set seen \<inter> set (client_names cs) = {}"
  by (induction i seen cs rule: Validate_loop.induct) auto

lemma first_client_SomeD: "first_client P cs = Some c \<Longrightarrow> Some c \<in> set cs \<and> P c"
  by (induction P cs rule: first_client.induct) (auto split: if_splits)

lemma first_client_None: "first_client P cs = None \<longleftrightarrow> (\<forall>c. Some c \<in> set cs \<longrightarrow> \<not> P c)"
  by (induction P cs rule: first_client.induct) auto

text \<open>When the names are distinct, a scan for a name with a further condition finds the entry that
  the plain scan for the name finds, if it satisfies the condition.\<close>

lemma first_client_guard:
  assumes "distinct (client_names cs)"
  shows "first_client (\<lambda>c. cp_Name c = n \<and> P c) cs =
    (case first_client (\<lambda>c. cp_Name c = n) cs of None \<Rightarrow> None | Some c \<Rightarrow> if P c then Some c else None)"
  using assms
proof (induction cs)
  case (Cons a cs)
  show ?case
  proof (cases a)
    case None
    then show ?thesis using Cons by simp
  next
    case (Some c)
    have rest: "first_client (\<lambda>d. cp_Name d = n \<and> P d) cs = None" if "cp_Name c = n"
      using that Cons.prems Some by (auto simp: first_client_None in_client_names)
    show ?thesis using Cons Some rest by (cases "cp_Name c = n") simp_all
  qed
qed simp

lemma distinct_names_unique:
  assumes "distinct (client_names cs)" "Some c \<in> set cs" "Some d \<in> set cs" "cp_Name c = cp_Name d"
  shows "c = d"
  using assms
proof (induction cs)
  case (Cons a cs)
  then show ?case by (cases a) (auto simp: in_client_names)
qed simp

lemma TranslateUpstreamProvider_neq: "TranslateUpstreamProvider p \<noteq> ''baml-roundrobin''"
  by (simp add: TranslateUpstreamProvider_def)

lemma UpstreamClientRegistryProvider_neq:
  "UpstreamClientRegistryProvider c ip \<noteq> ''baml-roundrobin''"
  by (simp add: UpstreamClientRegistryProvider_def TranslateUpstreamProvider_neq Let_def
      split: option.split)

end
