(* ===== verification/Strategy_Parse.thy ===== *)
theory Strategy_Parse
  imports Client_Registry
begin

text \<open>
  The strategy-override parser of \<^verbatim>\<open>bamlutils/strategyparse/parser.go\<close>. A nil slice is \<^const>\<open>None\<close>,
  so \<open>nilIfEmpty\<close> is visible. The lemmas show that a parsed chain is never empty and has no empty
  name, that the three legal shapes of an override agree, and that a printed list of plain names is
  parsed back.
\<close>

section \<open>The parser\<close>

definition normalizeToken :: "string \<Rightarrow> string" where
  "normalizeToken token =
     (let token = trim_space token;
          token = (if 2 \<le> length token \<and>
                      (first_byte_is token (CHR 0x22) \<and> last_byte_is token (CHR 0x22) \<or>
                       first_byte_is token (CHR 0x27) \<and> last_byte_is token (CHR 0x27))
                   then butlast (tl token) else token)
      in trim_space token)"

definition nilIfEmpty :: "string list option \<Rightarrow> string list option" where
  "nilIfEmpty out = (case out of None \<Rightarrow> None | Some xs \<Rightarrow> if xs = [] then None else Some xs)"

text \<open>The loop that appends the tokens that are not blank.\<close>

fun normalize_all :: "string list \<Rightarrow> string list" where
  "normalize_all [] = []"
| "normalize_all (part # parts) =
     (let t = normalizeToken part
      in if t \<noteq> '''' then t # normalize_all parts else normalize_all parts)"

definition strategy_sep :: "char \<Rightarrow> bool" where
  "strategy_sep c \<longleftrightarrow> c = CHR 0x2C \<or> c = CHR 0x20 \<or> c = CHR 0x09 \<or> c = CHR 0x0A"

definition parseBracketedString :: "string \<Rightarrow> string list option" where
  "parseBracketedString s0 =
     (let s = trim_space (trim_prefix (trim_space s0) ''strategy '')
      in if length s < 2 \<or> \<not> first_byte_is s (CHR 0x5B) \<or> \<not> last_byte_is s (CHR 0x5D) then None
         else if contains_byte (butlast (tl s)) (CHR 0x5D) then None
         else if contains_byte (tl s) (CHR 0x5B) then None
         else Some (normalize_all (fields_func strategy_sep (butlast (tl s)))))"

text \<open>The loop over a \<^verbatim>\<open>[]any\<close>: a non-string element aborts with nil.\<close>

fun normalize_anys :: "goval list \<Rightarrow> string list option" where
  "normalize_anys [] = Some []"
| "normalize_anys (VStr str # items) =
     (case normalize_anys items of None \<Rightarrow> None
      | Some out \<Rightarrow> (let s = normalizeToken str in Some (if s \<noteq> '''' then s # out else out)))"
| "normalize_anys (_ # items) = None"

definition ParseStrategyOption :: "goval \<Rightarrow> string list option" where
  "ParseStrategyOption v =
     (case v of
        VStr s \<Rightarrow> nilIfEmpty (parseBracketedString s)
      | VStrs vv \<Rightarrow> nilIfEmpty (Some (normalize_all vv))
      | VAnys vv \<Rightarrow> nilIfEmpty (normalize_anys vv)
      | _ \<Rightarrow> None)"

section \<open>Shape of a parsed chain\<close>

lemma nilIfEmpty_Some: "nilIfEmpty out = Some xs \<longleftrightarrow> out = Some xs \<and> xs \<noteq> []"
  by (auto simp: nilIfEmpty_def split: option.split)

lemma normalize_all_nonempty: "'''' \<notin> set (normalize_all xs)"
  by (induction xs) (simp_all add: Let_def)

lemma normalize_anys_VStr: "normalize_anys (map VStr xs) = Some (normalize_all xs)"
  by (induction xs) (simp_all add: Let_def)

lemma normalize_anys_SomeD:
  "normalize_anys vs = Some out \<Longrightarrow> \<exists>xs. vs = map VStr xs \<and> out = normalize_all xs"
proof (induction vs arbitrary: out rule: normalize_anys.induct)
  case (2 str items)
  then obtain out' where o: "normalize_anys items = Some out'" by (cases "normalize_anys items") auto
  then obtain xs where "items = map VStr xs" "out' = normalize_all xs" using 2 by blast
  then show ?case using 2(2) o by (intro exI[of _ "str # xs"]) (auto simp: Let_def)
qed simp_all

lemma ParseStrategyOption_normalized:
  assumes "ParseStrategyOption v = Some chain"
  shows "\<exists>xs. chain = normalize_all xs"
  using assms
  by (auto simp: ParseStrategyOption_def nilIfEmpty_Some parseBracketedString_def Let_def
      split: goval.splits if_splits dest: normalize_anys_SomeD)

lemma ParseStrategyOption_nonempty: "ParseStrategyOption v \<noteq> Some []"
  by (auto simp: ParseStrategyOption_def nilIfEmpty_Some split: goval.splits)

lemma ParseStrategyOption_names:
  "ParseStrategyOption v = Some chain \<Longrightarrow> chain \<noteq> [] \<and> '''' \<notin> set chain"
  using ParseStrategyOption_normalized ParseStrategyOption_nonempty normalize_all_nonempty by metis

section \<open>Printing and parsing back\<close>

text \<open>
  The two documented spellings of a string override, \<^verbatim>\<open>strategy [A, B]\<close> and \<^verbatim>\<open>["A", "B"]\<close>, for names
  made of bytes that are neither separators, brackets, quotes nor parts of an encoded space.
\<close>

definition plain_byte :: "char \<Rightarrow> bool" where
  "plain_byte c \<longleftrightarrow> solid_byte c \<and> \<not> strategy_sep c \<and>
     c \<notin> {CHR 0x5B, CHR 0x5D, CHR 0x22, CHR 0x27}"

definition plain_name :: "string \<Rightarrow> bool" where
  "plain_name n \<longleftrightarrow> n \<noteq> '''' \<and> list_all plain_byte n"

fun join_names :: "string list \<Rightarrow> string" where
  "join_names [] = []"
| "join_names [n] = n"
| "join_names (n # ns) = n @ [CHR 0x2C, CHR 0x20] @ join_names ns"

definition quote_name :: "string \<Rightarrow> string" where
  "quote_name n = CHR 0x22 # n @ [CHR 0x22]"

definition print_strategy :: "bool \<Rightarrow> bool \<Rightarrow> string list \<Rightarrow> string" where
  "print_strategy prefixed quoted ns =
     (if prefixed then ''strategy '' else []) @ [CHR 0x5B] @
     join_names (if quoted then map quote_name ns else ns) @ [CHR 0x5D]"

lemma solid_special [simp]:
  "solid_byte (CHR 0x22)" "solid_byte (CHR 0x5B)" "solid_byte (CHR 0x5D)" "solid_byte (CHR ''s'')"
  by (simp_all add: solid_byte_def space_encodings_def)

lemma plain_name_ends:
  assumes "plain_name n"
  shows "solid_byte (hd n)" "solid_byte (last n)" "n \<noteq> []"
    "hd n \<notin> {CHR 0x5B, CHR 0x5D, CHR 0x22, CHR 0x27}"
  using assms by (auto simp: plain_name_def plain_byte_def list_all_iff)

lemma plain_trim: "plain_name n \<Longrightarrow> trim_space n = n"
  by (simp add: plain_name_ends trim_space_solid)

lemma normalizeToken_plain:
  assumes "plain_name n"
  shows "normalizeToken n = n"
proof -
  have "\<not> first_byte_is n (CHR 0x22)" "\<not> first_byte_is n (CHR 0x27)"
    using plain_name_ends[OF assms] by (cases n; simp add: first_byte_is_def)+
  then show ?thesis using assms by (simp add: normalizeToken_def plain_trim)
qed

lemma normalizeToken_quoted:
  assumes "plain_name n"
  shows "normalizeToken (quote_name n) = n"
proof -
  have "trim_space (quote_name n) = quote_name n"
    by (rule trim_space_solid) (simp_all add: quote_name_def)
  then show ?thesis using assms
    by (simp add: normalizeToken_def plain_trim)
       (simp add: quote_name_def first_byte_is_def last_byte_is_def plain_trim)
qed

definition word_ok :: "string \<Rightarrow> bool" where
  "word_ok w \<longleftrightarrow> w \<noteq> [] \<and> (\<forall>c \<in> set w. \<not> strategy_sep c) \<and> CHR 0x5B \<notin> set w \<and> CHR 0x5D \<notin> set w"

lemma word_ok_plain: "plain_name n \<Longrightarrow> word_ok n" "plain_name n \<Longrightarrow> word_ok (quote_name n)"
  by (auto simp: word_ok_def plain_name_def plain_byte_def list_all_iff quote_name_def strategy_sep_def)

lemma fields_join:
  assumes "list_all word_ok ws"
  shows "fields_func strategy_sep (join_names ws) = ws"
  using assms
proof (induction ws rule: join_names.induct)
  case (2 n)
  then show ?case by (simp add: fields_func_word_end word_ok_def)
next
  case (3 n v va)
  have sep: "strategy_sep (CHR 0x2C)" "strategy_sep (CHR 0x20)" by (simp_all add: strategy_sep_def)
  have "fields_func strategy_sep (n @ CHR 0x2C # CHR 0x20 # join_names (v # va)) =
      n # fields_func strategy_sep (CHR 0x20 # join_names (v # va))"
    using 3 sep by (intro fields_func_word_sep) (simp_all add: word_ok_def)
  also have "\<dots> = n # (v # va)" using 3 sep by (simp del: join_names.simps)
  finally show ?case by simp
qed simp

lemma join_no_bracket:
  "list_all word_ok ws \<Longrightarrow> CHR 0x5B \<notin> set (join_names ws) \<and> CHR 0x5D \<notin> set (join_names ws)"
  by (induction ws rule: join_names.induct) (auto simp: word_ok_def)

lemma parse_bracketed_words:
  assumes "list_all word_ok ws"
  shows "parseBracketedString ((if prefixed then ''strategy '' else []) @ CHR 0x5B # join_names ws @ [CHR 0x5D])
    = Some (normalize_all ws)"
proof -
  let ?b = "CHR 0x5B # join_names ws @ [CHR 0x5D]"
  have b: "trim_space ?b = ?b" by (rule trim_space_solid) simp_all
  have p: "trim_space (''strategy '' @ ?b) = ''strategy '' @ ?b" by (rule trim_space_solid) simp_all
  have np: "\<not> has_prefix ?b ''strategy ''" by (simp add: has_prefix_def)
  have "trim_space (trim_prefix (trim_space ((if prefixed then ''strategy '' else []) @ ?b)) ''strategy '') = ?b"
  proof (cases prefixed)
    case True
    then show ?thesis using p b trim_prefix_append[of "''strategy ''" ?b] by simp
  next
    case False
    then show ?thesis using b np by (simp add: trim_prefix_def)
  qed
  then show ?thesis
    using assms by (simp add: parseBracketedString_def first_byte_is_def last_byte_is_def
        contains_byte_def join_no_bracket fields_join)
qed

lemma normalize_all_plain: "list_all plain_name ns \<Longrightarrow> normalize_all ns = ns"
  "list_all plain_name ns \<Longrightarrow> normalize_all (map quote_name ns) = ns"
  by (induction ns)
    (auto simp: normalizeToken_plain normalizeToken_quoted plain_name_ends Let_def plain_name_def)

lemma parse_print_strategy:
  assumes "list_all plain_name ns"
  shows "parseBracketedString (print_strategy prefixed quoted ns) = Some ns"
proof -
  have "list_all word_ok (if quoted then map quote_name ns else ns)"
    using assms by (auto simp: list_all_iff word_ok_plain)
  then show ?thesis
    using parse_bracketed_words[of "if quoted then map quote_name ns else ns" prefixed] assms
    by (cases quoted) (simp_all add: print_strategy_def normalize_all_plain)
qed

end
