(* ===== verification/Round_Robin.thy ===== *)
theory Round_Robin
  imports Strategy_Parse
begin

text \<open>
  The round-robin package \<^verbatim>\<open>bamlutils/buildrequest/roundrobin\<close>: the process-local \<^verbatim>\<open>Coordinator\<close>
  (\<^verbatim>\<open>coordinator.go\<close>), the advancer interface (\<^verbatim>\<open>advancer.go\<close>) and the resolver that walks
  round-robin clients down to a leaf (\<^verbatim>\<open>resolver.go\<close>).

  An advancer is a state-passing function; \<open>'st\<close> is the state it works on. Drawing a random child
  (\<^verbatim>\<open>rand.IntN\<close>) is the parameter \<open>intn\<close> on the same state. The locale \<open>rr_advancer\<close> is the contract
  a resolver relies on, \<open>total_advancer\<close> adds that no call fails; \<^verbatim>\<open>Coordinator\<close> provides the second.
\<close>

section \<open>Providers\<close>

definition CanonicalProvider :: string where
  "CanonicalProvider = ''baml-roundrobin''"

definition IsRoundRobinProvider :: "string \<Rightarrow> bool" where
  "IsRoundRobinProvider provider \<longleftrightarrow>
     provider = ''baml-roundrobin'' \<or> provider = ''baml-round-robin'' \<or> provider = ''round-robin''"

definition NormalizeProvider :: "string \<Rightarrow> string" where
  "NormalizeProvider provider =
     (if IsRoundRobinProvider provider then CanonicalProvider else provider)"

section \<open>The coordinator\<close>

text \<open>\<open>co_randSeed\<close> is the sequence of values that the seed function returns, \<open>co_draws\<close> how many of
  them have been used.\<close>

record coordinator =
  co_counters :: "64 word gomap"
  co_starts :: "64 word gomap"
  co_randSeed :: "nat \<Rightarrow> 32 word"
  co_draws :: nat

definition NewCoordinatorWithStarts :: "(nat \<Rightarrow> 32 word) \<Rightarrow> int gomap \<Rightarrow> coordinator" where
  "NewCoordinatorWithStarts rnd starts =
     \<lparr>co_counters = [], co_starts = map (\<lambda>(name, v). (name, uint64_of v)) starts,
      co_randSeed = rnd, co_draws = 0\<rparr>"

definition NewCoordinator :: "(nat \<Rightarrow> 32 word) \<Rightarrow> coordinator" where
  "NewCoordinator rnd = NewCoordinatorWithStarts rnd []"

text \<open>The counter of a client is identified by its name; \<open>counterFor\<close> returns its value and the
  coordinator in which it exists.\<close>

definition counterFor :: "coordinator \<Rightarrow> string \<Rightarrow> 64 word \<times> coordinator" where
  "counterFor c clientName =
     (case map_of (co_counters c) clientName of
        Some v \<Rightarrow> (v, c)
      | None \<Rightarrow>
          (case map_of (co_starts c) clientName of
             Some seed \<Rightarrow>
               (seed, c\<lparr>co_counters := gomap_put clientName seed (co_counters c)\<rparr>)
           | None \<Rightarrow>
               (let seed = ucast (co_randSeed c (co_draws c))
                in (seed, c\<lparr>co_counters := gomap_put clientName seed (co_counters c),
                            co_draws := Suc (co_draws c)\<rparr>))))"

section \<open>Errors and the advancer interface\<close>

datatype advance_error = AdvNoClient | AdvNoStore | AdvFetchAdd string string

datatype rr_error =
    ErrInvalidStrategyOverride
  | ErrInvalidStartOverride
  | RRCycle string
  | RRNoChildren string
  | RRSelect string rr_error
  | RROutOfRange int int string
  | RRAdvance advance_error

text \<open>\<^verbatim>\<open>errors.Is\<close>: the error itself or an error it wraps.\<close>

fun errors_Is :: "rr_error \<Rightarrow> rr_error \<Rightarrow> bool" where
  "errors_Is (RRSelect c e) t \<longleftrightarrow> RRSelect c e = t \<or> errors_Is e t"
| "errors_Is e t \<longleftrightarrow> e = t"

type_synonym 'st advancer = "'st \<Rightarrow> string \<Rightarrow> int \<Rightarrow> (rr_error + int) \<times> 'st"

type_synonym 'st int_source = "'st \<Rightarrow> int \<Rightarrow> int \<times> 'st"

definition Coordinator_Advance :: "coordinator advancer" where
  "Coordinator_Advance c clientName childCount =
     (if childCount \<le> 0 then (Inr 0, c)
      else (let (v, c') = counterFor c clientName;
                v' = v + 1;
                c'' = c'\<lparr>co_counters := gomap_put clientName v' (co_counters c')\<rparr>;
                nxt = v' - 1
            in (Inr (int_of_uint64 (nxt mod uint64_of childCount)), c'')))"

definition AdvanceDynamic :: "'st int_source \<Rightarrow> 'st \<Rightarrow> int \<Rightarrow> int \<times> 'st" where
  "AdvanceDynamic intn st childCount = (if childCount \<le> 0 then (0, st) else intn st childCount)"

section \<open>The resolver\<close>

definition findRuntimeClient :: "client_registry option \<Rightarrow> string \<Rightarrow> client_property option" where
  "findRuntimeClient reg clientName = (case reg of None \<Rightarrow> None
     | Some r \<Rightarrow> first_client (\<lambda>c. cp_Name c = clientName) (cr_Clients r))"

definition resolveClientProvider ::
    "client_registry option \<Rightarrow> string \<Rightarrow> string gomap \<Rightarrow> string" where
  "resolveClientProvider reg clientName introspected =
     (case (case reg of None \<Rightarrow> None
            | Some r \<Rightarrow> first_client (\<lambda>c. cp_Name c = clientName \<and> IsProviderPresent (Some c))
                          (cr_Clients r)) of
        Some c \<Rightarrow> cp_Provider c
      | None \<Rightarrow> gomap_str introspected clientName)"

definition InspectStrategyOverride ::
    "client_registry option \<Rightarrow> string \<Rightarrow> string list option \<times> bool \<times> bool" where
  "InspectStrategyOverride reg clientName =
     (case findRuntimeClient reg clientName of
        None \<Rightarrow> (None, False, True)
      | Some rc \<Rightarrow>
          (case option_value rc ''strategy'' of
             None \<Rightarrow> (None, False, True)
           | Some raw \<Rightarrow>
               (case ParseStrategyOption raw of
                  None \<Rightarrow> (None, True, False)
                | Some parsed \<Rightarrow>
                    if length parsed = 0 then (None, True, False) else (Some parsed, True, True))))"

definition inspectStartOverride :: "goval gomap option \<Rightarrow> int \<times> bool \<times> bool" where
  "inspectStartOverride opts =
     (case opts of None \<Rightarrow> (0, False, True)
      | Some m \<Rightarrow>
          (case map_of m ''start'' of
             None \<Rightarrow> (0, False, True)
           | Some raw \<Rightarrow>
               (case raw of
                  VInt _ v \<Rightarrow>
                    if v < min_int32 \<or> v > max_int32 then (0, True, False) else (v, True, True)
                | VFloat f \<Rightarrow>
                    (case f of
                       FNaN \<Rightarrow> (0, True, False)
                     | FInf _ \<Rightarrow> (0, True, False)
                     | FFin m e \<Rightarrow>
                         if \<not> float_whole m e then (0, True, False)
                         else if float_trunc m e < min_int32 \<or> float_trunc m e > max_int32
                         then (0, True, False)
                         else (float_trunc m e, True, True))
                | _ \<Rightarrow> (0, True, False))))"

definition InspectStartOverride :: "goval gomap option \<Rightarrow> int \<times> bool \<times> bool" where
  "InspectStartOverride opts = inspectStartOverride opts"

definition normalizeStartIndex :: "int \<Rightarrow> int \<Rightarrow> int" where
  "normalizeStartIndex start childCount =
     int_of_uint64 (uint64_of start mod uint64_of childCount)"

definition isDynamicRRClient :: "client_registry option \<Rightarrow> string \<Rightarrow> bool" where
  "isDynamicRRClient reg clientName \<longleftrightarrow> findRuntimeClient reg clientName \<noteq> None"

definition selectIndex ::
    "'st int_source \<Rightarrow> 'st advancer option \<Rightarrow> client_registry option \<Rightarrow> string \<Rightarrow> int \<Rightarrow> 'st \<Rightarrow>
     (rr_error + int) \<times> 'st" where
  "selectIndex intn a reg clientName childCount st =
     (if isDynamicRRClient reg clientName then
        (case findRuntimeClient reg clientName of
           None \<Rightarrow> (Inr 0, st)
         | Some rc \<Rightarrow>
             (let (start, present, valid) = inspectStartOverride (cp_Options rc)
              in if present \<and> \<not> valid then (Inl ErrInvalidStartOverride, st)
                 else if present then (Inr (normalizeStartIndex start childCount), st)
                 else (let (i, st') = AdvanceDynamic intn st childCount in (Inr i, st'))))
      else (case a of
              None \<Rightarrow> (let (i, st') = AdvanceDynamic intn st childCount in (Inr i, st'))
            | Some adv \<Rightarrow> adv st clientName childCount))"

record round_robin_info =
  ri_Name :: string
  ri_Children :: "string list"
  ri_Index :: int
  ri_Selected :: string

record rr_result =
  rs_Selected :: string
  rs_Info :: "round_robin_info option"

record 'st resolve_input =
  in_ClientName :: string
  in_Registry :: "client_registry option"
  in_FallbackChains :: "string list gomap"
  in_ClientProviders :: "string gomap"
  in_Advancer :: "'st advancer option"

text \<open>
  One turn of the loop of \<^verbatim>\<open>Resolve\<close> after the cycle check: either the value returned or the next
  client with the info recorded so far.
\<close>

definition Resolve_body ::
    "'st int_source \<Rightarrow> 'st resolve_input \<Rightarrow> string \<Rightarrow> round_robin_info option \<Rightarrow> 'st \<Rightarrow>
     ((rr_error + rr_result) + (string \<times> round_robin_info option)) \<times> 'st" where
  "Resolve_body intn inp current outerInfo st =
     (let provider = resolveClientProvider (in_Registry inp) current (in_ClientProviders inp)
      in if \<not> IsRoundRobinProvider provider
         then (Inl (Inr \<lparr>rs_Selected = current, rs_Info = outerInfo\<rparr>), st)
         else (let (strategyOverride, strategyPresent, strategyValid) =
                     InspectStrategyOverride (in_Registry inp) current
         in if strategyPresent \<and> \<not> strategyValid then (Inl (Inl ErrInvalidStrategyOverride), st)
         else if (case findRuntimeClient (in_Registry inp) current of
                    None \<Rightarrow> False
                  | Some rc \<Rightarrow> IsProviderPresent (Some rc) \<and> IsRoundRobinProvider (cp_Provider rc) \<and>
                      \<not> strategyPresent)
         then (Inl (Inl ErrInvalidStrategyOverride), st)
         else (let chain = (if strategyPresent \<and> strategyValid
                            then (case strategyOverride of None \<Rightarrow> [] | Some ch \<Rightarrow> ch)
                            else gomap_slice (in_FallbackChains inp) current)
         in if length chain = 0 then (Inl (Inl (RRNoChildren current)), st)
         else (case selectIndex intn (in_Advancer inp) (in_Registry inp) current
                      (int (length chain)) st of
                 (Inl err, st') \<Rightarrow> (Inl (Inl (RRSelect current err)), st')
               | (Inr idx, st') \<Rightarrow>
                   if idx < 0 \<or> idx \<ge> int (length chain)
                   then (Inl (Inl (RROutOfRange idx (int (length chain)) current)), st')
                   else (let selected = chain ! nat idx;
                             outerInfo' = (case outerInfo of
                                 None \<Rightarrow> Some \<lparr>ri_Name = current, ri_Children = chain,
                                             ri_Index = idx, ri_Selected = selected\<rparr>
                               | Some i \<Rightarrow> Some i)
                         in (Inr (selected, outerInfo'), st'))))))"

subsection \<open>Termination of the loop\<close>

text \<open>The children that any override of the registry or any introspected chain can name.\<close>

definition override_children :: "client_registry option \<Rightarrow> string set" where
  "override_children reg = (case reg of None \<Rightarrow> {}
     | Some r \<Rightarrow> (\<Union>c \<in> {c. Some c \<in> set (cr_Clients r)}.
         case option_value c ''strategy'' of None \<Rightarrow> {}
         | Some raw \<Rightarrow> (case ParseStrategyOption raw of None \<Rightarrow> {} | Some ch \<Rightarrow> set ch)))"

definition strategy_children :: "client_registry option \<Rightarrow> string list gomap \<Rightarrow> string set" where
  "strategy_children reg fcs = override_children reg \<union> \<Union> (set ` snd ` set fcs)"

lemma finite_strategy_children [simp]: "finite (strategy_children reg fcs)"
proof -
  have "finite {c. Some c \<in> set cs}" for cs :: "client_property option list"
  proof -
    have "{c. Some c \<in> set cs} = the ` {x \<in> set cs. x \<noteq> None}" by force
    then show ?thesis by simp
  qed
  then show ?thesis
    by (auto simp: strategy_children_def override_children_def split: option.splits)
qed

lemma findRuntimeClient_SomeD:
  "findRuntimeClient reg n = Some c \<Longrightarrow>
     cp_Name c = n \<and> (\<exists>r. reg = Some r \<and> Some c \<in> set (cr_Clients r))"
  by (auto simp: findRuntimeClient_def split: option.splits dest: first_client_SomeD)

lemma InspectStrategyOverride_cases:
  obtains (absent) "InspectStrategyOverride reg n = (None, False, True)"
  | (invalid) "InspectStrategyOverride reg n = (None, True, False)"
  | (valid) chain where "InspectStrategyOverride reg n = (Some chain, True, True)" "chain \<noteq> []"
      "set chain \<subseteq> override_children reg"
proof (cases "findRuntimeClient reg n")
  case None
  then show ?thesis using absent by (simp add: InspectStrategyOverride_def)
next
  case (Some rc)
  then obtain r where r: "reg = Some r" "Some rc \<in> set (cr_Clients r)"
    using findRuntimeClient_SomeD by blast
  show ?thesis
  proof (cases "option_value rc ''strategy''")
    case None
    then show ?thesis using Some absent by (simp add: InspectStrategyOverride_def)
  next
    case v: (Some raw)
    show ?thesis
    proof (cases "ParseStrategyOption raw")
      case None
      then show ?thesis using Some v invalid by (simp add: InspectStrategyOverride_def)
    next
      case p: (Some chain)
      have "set chain \<subseteq> override_children reg" using r v p by (force simp: override_children_def)
      moreover have "chain \<noteq> []" using p ParseStrategyOption_nonempty by blast
      ultimately show ?thesis using Some v p valid by (simp add: InspectStrategyOverride_def)
    qed
  qed
qed

text \<open>The chain that the loop uses for a client.\<close>

definition rr_chain :: "client_registry option \<Rightarrow> string list gomap \<Rightarrow> string \<Rightarrow> string list" where
  "rr_chain reg fcs n = (case InspectStrategyOverride reg n of
      (Some ch, True, True) \<Rightarrow> ch | _ \<Rightarrow> gomap_slice fcs n)"

lemma rr_chain_children: "set (rr_chain reg fcs n) \<subseteq> strategy_children reg fcs"
  using gomap_slice_subset[of fcs n]
  by (cases reg n rule: InspectStrategyOverride_cases)
    (auto simp: rr_chain_def strategy_children_def)

text \<open>The body, with the choice of the chain summarised by \<open>rr_chain\<close>.\<close>

lemma Resolve_body_next:
  assumes "Resolve_body intn inp current info st = (Inr (selected, info'), st')"
  obtains idx where
    "IsRoundRobinProvider (resolveClientProvider (in_Registry inp) current (in_ClientProviders inp))"
    "selectIndex intn (in_Advancer inp) (in_Registry inp) current
       (int (length (rr_chain (in_Registry inp) (in_FallbackChains inp) current))) st = (Inr idx, st')"
    "0 \<le> idx" "idx < int (length (rr_chain (in_Registry inp) (in_FallbackChains inp) current))"
    "selected = rr_chain (in_Registry inp) (in_FallbackChains inp) current ! nat idx"
    "info' = (case info of Some i \<Rightarrow> Some i
       | None \<Rightarrow> Some \<lparr>ri_Name = current,
           ri_Children = rr_chain (in_Registry inp) (in_FallbackChains inp) current,
           ri_Index = idx, ri_Selected = selected\<rparr>)"
  using assms
  by (cases "in_Registry inp" current rule: InspectStrategyOverride_cases)
    (auto simp: Resolve_body_def rr_chain_def Let_def split: if_splits sum.splits prod.splits option.splits)

lemma Resolve_body_progress:
  assumes "Resolve_body intn inp current info st = (Inr (selected, info'), st')"
    and "current \<notin> set seen"
  shows "card (insert selected (strategy_children (in_Registry inp) (in_FallbackChains inp))
      - insert current (set seen))
    < card (insert current (strategy_children (in_Registry inp) (in_FallbackChains inp)) - set seen)"
proof -
  let ?U = "strategy_children (in_Registry inp) (in_FallbackChains inp)"
  have "selected \<in> ?U"
    using assms(1) rr_chain_children by (elim Resolve_body_next) (metis nat_less_iff nth_mem subsetD)
  then have "insert selected ?U - insert current (set seen) \<subset> insert current ?U - set seen"
    using assms(2) by auto
  then show ?thesis by (intro psubset_card_mono) simp_all
qed

function Resolve_loop ::
    "'st int_source \<Rightarrow> 'st resolve_input \<Rightarrow> string list \<Rightarrow> string \<Rightarrow> round_robin_info option \<Rightarrow> 'st \<Rightarrow>
     (rr_error + rr_result) \<times> 'st" where
  "Resolve_loop intn inp seen current outerInfo st =
     (if current \<in> set seen then (Inl (RRCycle current), st)
      else (case Resolve_body intn inp current outerInfo st of
              (Inl res, st') \<Rightarrow> (res, st')
            | (Inr (selected, outerInfo'), st') \<Rightarrow>
                Resolve_loop intn inp (current # seen) selected outerInfo' st'))"
  by pat_completeness auto

termination
  by (relation "measure (\<lambda>(intn, inp, seen, current, info, st).
    card (insert current (strategy_children (in_Registry inp) (in_FallbackChains inp)) - set seen))")
    (auto dest: Resolve_body_progress[OF sym])

declare Resolve_loop.simps [simp del]

definition Resolve :: "'st int_source \<Rightarrow> 'st resolve_input \<Rightarrow> 'st \<Rightarrow> (rr_error + rr_result) \<times> 'st" where
  "Resolve intn inp st =
     (if in_ClientName inp = '''' then (Inr \<lparr>rs_Selected = '''', rs_Info = None\<rparr>, st)
      else Resolve_loop intn inp [] (in_ClientName inp) None st)"

section \<open>What a resolution returns\<close>

abbreviation rr_provider :: "'st resolve_input \<Rightarrow> string \<Rightarrow> string" where
  "rr_provider inp n \<equiv> resolveClientProvider (in_Registry inp) n (in_ClientProviders inp)"

abbreviation chain_of :: "'st resolve_input \<Rightarrow> string \<Rightarrow> string list" where
  "chain_of inp n \<equiv> rr_chain (in_Registry inp) (in_FallbackChains inp) n"

text \<open>A round-robin client has an edge to each of its children.\<close>

definition rr_edges :: "'st resolve_input \<Rightarrow> (string \<times> string) set" where
  "rr_edges inp = {(a, b). IsRoundRobinProvider (rr_provider inp a) \<and> b \<in> set (chain_of inp a)}"

text \<open>The information recorded for a client is that of a choice among its children.\<close>

definition rr_info_for :: "'st resolve_input \<Rightarrow> string \<Rightarrow> round_robin_info \<Rightarrow> bool" where
  "rr_info_for inp n i \<longleftrightarrow> ri_Name i = n \<and> ri_Children i = chain_of inp n \<and>
     0 \<le> ri_Index i \<and> ri_Index i < int (length (ri_Children i)) \<and>
     ri_Selected i = ri_Children i ! nat (ri_Index i)"

lemma Resolve_body_edge:
  assumes "Resolve_body intn inp current info st = (Inr (selected, info'), st')"
  shows "(current, selected) \<in> rr_edges inp"
  using assms by (elim Resolve_body_next) (auto simp: rr_edges_def nat_less_iff)

lemma Resolve_body_info:
  assumes "Resolve_body intn inp current info st = (Inr (selected, info'), st')"
  shows "\<exists>i. info' = Some i \<and> (info = Some i \<or> info = None \<and> rr_info_for inp current i \<and> ri_Selected i = selected)"
  using assms by (elim Resolve_body_next) (auto simp: rr_info_for_def split: option.splits)

lemma Resolve_body_done:
  assumes "Resolve_body intn inp current info st = (Inl (Inr res), st')"
  shows "\<not> IsRoundRobinProvider (rr_provider inp current) \<and>
    res = \<lparr>rs_Selected = current, rs_Info = info\<rparr> \<and> st' = st"
  using assms
  by (auto simp: Resolve_body_def Let_def split: if_splits sum.splits prod.splits)

lemma Resolve_body_error:
  assumes "Resolve_body intn inp current info st = (Inl (Inl e), st')"
  shows "(e = ErrInvalidStrategyOverride \<or> e = RRNoChildren current) \<or>
    (0 < int (length (chain_of inp current)) \<and>
     (\<exists>r. selectIndex intn (in_Advancer inp) (in_Registry inp) current
            (int (length (chain_of inp current))) st = (r, st') \<and>
          (case r of Inl err \<Rightarrow> e = RRSelect current err
           | Inr idx \<Rightarrow> e = RROutOfRange idx (int (length (chain_of inp current))) current \<and>
               \<not> (0 \<le> idx \<and> idx < int (length (chain_of inp current))))))"
  using assms
  by (cases "in_Registry inp" current rule: InspectStrategyOverride_cases)
    (auto simp: Resolve_body_def rr_chain_def Let_def split: if_splits sum.splits prod.splits option.splits)

lemma Resolve_body_not_cycle: "Resolve_body intn inp current info st \<noteq> (Inl (Inl (RRCycle c)), st')"
  by (auto simp: Resolve_body_def Let_def split: if_splits sum.splits prod.splits)

lemma Resolve_loop_Inr:
  assumes "Resolve_loop intn inp seen current info st = (Inr res, st')"
  shows "\<not> IsRoundRobinProvider (rr_provider inp (rs_Selected res)) \<and>
    (current, rs_Selected res) \<in> (rr_edges inp)\<^sup>* \<and>
    (case info of
       Some i \<Rightarrow> rs_Info res = Some i
     | None \<Rightarrow>
         (if IsRoundRobinProvider (rr_provider inp current)
          then (\<exists>i. rs_Info res = Some i \<and> rr_info_for inp current i)
          else res = \<lparr>rs_Selected = current, rs_Info = None\<rparr> \<and> st' = st))"
  using assms
proof (induction intn inp seen current info st rule: Resolve_loop.induct)
  case (1 intn inp seen current info st)
  have ns: "current \<notin> set seen" using "1.prems" by (auto simp: Resolve_loop.simps)
  obtain y st1 where b: "Resolve_body intn inp current info st = (y, st1)" by force
  show ?case
  proof (cases y)
    case (Inl r)
    then have "r = Inr res" "st1 = st'" using "1.prems" ns b by (auto simp: Resolve_loop.simps)
    then show ?thesis using b Inl Resolve_body_done by (fastforce split: option.split)
  next
    case (Inr p)
    obtain selected info' where p: "p = (selected, info')" by force
    have l: "Resolve_loop intn inp (current # seen) selected info' st1 = (Inr res, st')"
      using "1.prems" ns b Inr p by (simp add: Resolve_loop.simps[of _ _ seen])
    have b': "Resolve_body intn inp current info st = (Inr (selected, info'), st1)" using b Inr p by simp
    note IH = "1.IH"[OF ns b[symmetric] Inr p[symmetric] l]
    have e: "(current, selected) \<in> rr_edges inp" by (rule Resolve_body_edge[OF b'])
    then have rr: "IsRoundRobinProvider (rr_provider inp current)" by (simp add: rr_edges_def)
    show ?thesis using IH e rr Resolve_body_info[OF b']
      by (auto split: option.splits intro: converse_rtrancl_into_rtrancl)
  qed
qed

lemma Resolve_loop_cycle:
  assumes "Resolve_loop intn inp seen current info st = (Inl (RRCycle c), st')"
    and "\<forall>s \<in> set seen. (s, current) \<in> (rr_edges inp)\<^sup>+"
  shows "(c, c) \<in> (rr_edges inp)\<^sup>+ \<and> (current, c) \<in> (rr_edges inp)\<^sup>*"
  using assms
proof (induction intn inp seen current info st rule: Resolve_loop.induct)
  case (1 intn inp seen current info st)
  obtain y st1 where b: "Resolve_body intn inp current info st = (y, st1)" by force
  show ?case
  proof (cases "current \<in> set seen")
    case True
    then show ?thesis using "1.prems" by (auto simp: Resolve_loop.simps)
  next
    case ns: False
    show ?thesis
    proof (cases y)
      case (Inl r)
      then have "Resolve_body intn inp current info st = (Inl (Inl (RRCycle c)), st')"
        using "1.prems" ns b by (simp add: Resolve_loop.simps)
      then show ?thesis using Resolve_body_not_cycle by metis
    next
      case (Inr p)
      obtain selected info' where p: "p = (selected, info')" by force
      have l: "Resolve_loop intn inp (current # seen) selected info' st1 = (Inl (RRCycle c), st')"
        using "1.prems" ns b Inr p by (simp add: Resolve_loop.simps[of _ _ seen])
      have e: "(current, selected) \<in> rr_edges inp" using Resolve_body_edge b[unfolded Inr p] .
      then have "\<forall>s \<in> set (current # seen). (s, selected) \<in> (rr_edges inp)\<^sup>+"
        using "1.prems"(2) by (auto intro: trancl_into_trancl)
      from "1.IH"[OF ns b[symmetric] Inr p[symmetric] l this] e show ?thesis
        by (auto intro: converse_rtrancl_into_rtrancl)
    qed
  qed
qed

section \<open>The contract of an advancer\<close>

definition chains_fit :: "'st resolve_input \<Rightarrow> bool" where
  "chains_fit inp \<longleftrightarrow> (\<forall>n. int (length (chain_of inp n)) \<le> max_int64)"

text \<open>A check of the finitely many chains that suffices.\<close>

definition override_fits :: "client_property option \<Rightarrow> bool" where
  "override_fits x = (case x of None \<Rightarrow> True
     | Some c \<Rightarrow> (case option_value c ''strategy'' of None \<Rightarrow> True
         | Some raw \<Rightarrow> (case ParseStrategyOption raw of None \<Rightarrow> True
             | Some ch \<Rightarrow> int (length ch) \<le> max_int64)))"

definition chains_fit_check :: "'st resolve_input \<Rightarrow> bool" where
  "chains_fit_check inp \<longleftrightarrow>
     list_all (\<lambda>(k, ch). int (length ch) \<le> max_int64) (in_FallbackChains inp) \<and>
     (case in_Registry inp of None \<Rightarrow> True | Some r \<Rightarrow> list_all override_fits (cr_Clients r))"

lemma chains_fit_check:
  assumes "chains_fit_check inp"
  shows "chains_fit inp"
  unfolding chains_fit_def
proof
  fix n
  have slice: "int (length (gomap_slice (in_FallbackChains inp) n)) \<le> max_int64"
    using assms by (auto simp: chains_fit_check_def list_all_iff gomap_slice_def max_int64_def
        split: option.split dest!: map_of_SomeD)
  show "int (length (chain_of inp n)) \<le> max_int64"
  proof (cases "in_Registry inp" n rule: InspectStrategyOverride_cases)
    case (valid chain)
    then obtain rc raw where f: "findRuntimeClient (in_Registry inp) n = Some rc"
        "option_value rc ''strategy'' = Some raw" "ParseStrategyOption raw = Some chain"
      by (auto simp: InspectStrategyOverride_def split: option.splits if_splits)
    then obtain r where "in_Registry inp = Some r" "Some rc \<in> set (cr_Clients r)"
      using findRuntimeClient_SomeD by blast
    then have "override_fits (Some rc)" using assms by (auto simp: chains_fit_check_def list_all_iff)
    then show ?thesis using f valid by (simp add: override_fits_def rr_chain_def)
  qed (use slice in \<open>simp_all add: rr_chain_def\<close>)
qed

lemma normalizeStartIndex_eq:
  assumes "0 < n" "n \<le> max_int64"
  shows "normalizeStartIndex start n = uint (uint64_of start) mod n"
  using assms by (simp add: normalizeStartIndex_def int_of_uint64_mod)

locale rr_advancer =
  fixes adv :: "'st advancer"
    and intn :: "'st int_source"
    and inv :: "'st \<Rightarrow> bool"
  assumes adv_inv: "inv st \<Longrightarrow> inv (snd (adv st name n))"
    and intn_inv: "inv st \<Longrightarrow> 0 < n \<Longrightarrow> inv (snd (intn st n))"
    and adv_range: "inv st \<Longrightarrow> 0 < n \<Longrightarrow> n \<le> max_int64 \<Longrightarrow> adv st name n = (Inr i, st') \<Longrightarrow> 0 \<le> i \<and> i < n"
    and intn_range: "inv st \<Longrightarrow> 0 < n \<Longrightarrow> 0 \<le> fst (intn st n) \<and> fst (intn st n) < n"
    and adv_error: "inv st \<Longrightarrow> adv st name n = (Inl e, st') \<Longrightarrow> \<exists>a. e = RRAdvance a"
begin

definition uses_adv :: "'st resolve_input \<Rightarrow> bool" where
  "uses_adv inp \<longleftrightarrow> in_Advancer inp = None \<or> in_Advancer inp = Some adv"

lemma AdvanceDynamic_range:
  assumes "inv st" "0 < n" "AdvanceDynamic intn st n = (i, st')"
  shows "0 \<le> i \<and> i < n \<and> inv st'"
  using assms intn_range[of st n] intn_inv[of st n] by (simp add: AdvanceDynamic_def)

lemma selectIndex_range:
  assumes "inv st" "a = None \<or> a = Some adv" "0 < n" "n \<le> max_int64"
    and "selectIndex intn a reg name n st = (Inr i, st')"
  shows "0 \<le> i \<and> i < n \<and> inv st'"
proof -
  consider (static) adv' where "a = Some adv'" "adv st name n = (Inr i, st')"
    | (dynamic) "AdvanceDynamic intn st n = (i, st')"
    | (start) start where "i = normalizeStartIndex start n" "st' = st"
    using assms(2,5)
    by (auto simp: selectIndex_def isDynamicRRClient_def split: if_splits option.splits prod.splits)
  then show ?thesis
  proof cases
    case static
    then show ?thesis using assms adv_range[of st n name i st'] adv_inv[of st name n] by simp
  next
    case dynamic
    then show ?thesis using assms AdvanceDynamic_range by blast
  next
    case start
    then show ?thesis using assms by (simp add: normalizeStartIndex_eq)
  qed
qed

definition adv_can_fail :: "advance_error \<Rightarrow> bool" where
  "adv_can_fail x \<longleftrightarrow> (\<exists>st name n st'. inv st \<and> adv st name n = (Inl (RRAdvance x), st'))"

lemma selectIndex_error:
  assumes "inv st" "a = None \<or> a = Some adv"
    and "selectIndex intn a reg name n st = (Inl e, st')"
  shows "e = ErrInvalidStartOverride \<or> (\<exists>x. e = RRAdvance x \<and> adv_can_fail x)"
proof -
  consider "adv st name n = (Inl e, st')" | "e = ErrInvalidStartOverride"
    using assms(2,3)
    by (auto simp: selectIndex_def split: if_splits option.splits prod.splits)
  then show ?thesis using assms(1) adv_error unfolding adv_can_fail_def by cases blast+
qed

lemma Resolve_body_errors:
  assumes "inv st" "uses_adv inp" "chains_fit inp"
    and "Resolve_body intn inp current info st = (Inl (Inl e), st')"
  shows "e = ErrInvalidStrategyOverride \<or> e = RRNoChildren current \<or>
    e = RRSelect current ErrInvalidStartOverride \<or> (\<exists>x. e = RRSelect current (RRAdvance x) \<and> adv_can_fail x)"
proof -
  have fit: "int (length (chain_of inp current)) \<le> max_int64"
    using assms(3) by (simp add: chains_fit_def)
  have a: "in_Advancer inp = None \<or> in_Advancer inp = Some adv"
    using assms(2) by (simp add: uses_adv_def)
  from Resolve_body_error[OF assms(4)] show ?thesis
  proof (elim disjE conjE exE)
    fix r
    assume len: "0 < int (length (chain_of inp current))"
      and r: "selectIndex intn (in_Advancer inp) (in_Registry inp) current
            (int (length (chain_of inp current))) st = (r, st')"
      and e: "case r of Inl err \<Rightarrow> e = RRSelect current err
           | Inr idx \<Rightarrow> e = RROutOfRange idx (int (length (chain_of inp current))) current \<and>
               \<not> (0 \<le> idx \<and> idx < int (length (chain_of inp current)))"
    show ?thesis
    proof (cases r)
      case (Inl err)
      then show ?thesis using selectIndex_error[OF assms(1) a r[unfolded Inl]] e by auto
    next
      case (Inr idx)
      then show ?thesis using selectIndex_range[OF assms(1) a len fit r[unfolded Inr]] e by auto
    qed
  qed auto
qed

lemma Resolve_body_inv:
  assumes "inv st" "uses_adv inp" "chains_fit inp"
    and "Resolve_body intn inp current info st = (Inr (selected, info'), st')"
  shows "inv st'"
  using assms(4)
proof (rule Resolve_body_next)
  fix idx
  assume "selectIndex intn (in_Advancer inp) (in_Registry inp) current (int (length (chain_of inp current))) st = (Inr idx, st')"
    "0 \<le> idx" "idx < int (length (chain_of inp current))"
  moreover from this have "0 < int (length (chain_of inp current))" by linarith
  ultimately show "inv st'"
    using selectIndex_range[OF assms(1), of "in_Advancer inp" "int (length (chain_of inp current))"
        "in_Registry inp" current idx st'] assms(2,3)
    by (simp add: uses_adv_def chains_fit_def)
qed

text \<open>Under a lawful advancer the range check of the resolver never fires.\<close>

lemma Resolve_loop_errors:
  assumes "Resolve_loop intn0 inp seen current info st = (Inl e, st')"
    and "intn0 = intn" "inv st" "uses_adv inp" "chains_fit inp"
  shows "e = ErrInvalidStrategyOverride \<or> (\<exists>c. e = RRNoChildren c) \<or> (\<exists>c. e = RRCycle c) \<or>
    (\<exists>c. e = RRSelect c ErrInvalidStartOverride) \<or> (\<exists>c x. e = RRSelect c (RRAdvance x) \<and> adv_can_fail x)"
  using assms
proof (induction intn0 inp seen current info st rule: Resolve_loop.induct)
  case (1 intn0 inp seen current info st)
  obtain y st1 where b: "Resolve_body intn0 inp current info st = (y, st1)" by force
  show ?case
  proof (cases "current \<in> set seen")
    case True
    then show ?thesis using "1.prems" by (auto simp: Resolve_loop.simps)
  next
    case ns: False
    show ?thesis
    proof (cases y)
      case (Inl r)
      then have "Resolve_body intn inp current info st = (Inl (Inl e), st')"
        using "1.prems" ns b by (auto simp: Resolve_loop.simps)
      then show ?thesis using Resolve_body_errors "1.prems" by blast
    next
      case (Inr p)
      obtain selected info' where p: "p = (selected, info')" by force
      have "Resolve_loop intn0 inp (current # seen) selected info' st1 = (Inl e, st')"
        using "1.prems" ns b Inr p by (simp add: Resolve_loop.simps[of _ _ seen])
      moreover have "inv st1" using b Inr p Resolve_body_inv "1.prems" by blast
      ultimately show ?thesis
        using "1.IH"[OF ns b[symmetric] Inr p[symmetric]] "1.prems" by blast
    qed
  qed
qed

lemma Resolve_errors:
  assumes "Resolve intn inp st = (Inl e, st')" "inv st" "uses_adv inp" "chains_fit inp"
  shows "e = ErrInvalidStrategyOverride \<or> (\<exists>c. e = RRNoChildren c) \<or> (\<exists>c. e = RRCycle c) \<or>
    (\<exists>c. e = RRSelect c ErrInvalidStartOverride) \<or> (\<exists>c x. e = RRSelect c (RRAdvance x) \<and> adv_can_fail x)"
  using assms Resolve_loop_errors[of intn inp "[]" _ None st e st']
  by (auto simp: Resolve_def split: if_splits)

end

text \<open>An advancer that never fails.\<close>

locale total_advancer = rr_advancer +
  assumes adv_total: "inv st \<Longrightarrow> \<exists>i st'. adv st name n = (Inr i, st')"
begin

lemma Resolve_total_errors:
  assumes "Resolve intn inp st = (Inl e, st')" "inv st" "uses_adv inp" "chains_fit inp"
  shows "e = ErrInvalidStrategyOverride \<or> (\<exists>c. e = RRNoChildren c) \<or> (\<exists>c. e = RRCycle c) \<or>
    (\<exists>c. e = RRSelect c ErrInvalidStartOverride)"
proof -
  have "\<not> adv_can_fail x" for x
    unfolding adv_can_fail_def by (metis Inl_Inr_False adv_total prod.inject)
  then show ?thesis using Resolve_errors[OF assms] by blast
qed

end

section \<open>The coordinator as an advancer\<close>

text \<open>
  Abstractly a coordinator is one ticket counter per client: \<open>co_next\<close> is the ticket that the next
  call for a client takes. It is fixed once the client has a counter or a configured start.
\<close>

definition co_next :: "coordinator \<Rightarrow> string \<Rightarrow> 64 word" where
  "co_next c name = fst (counterFor c name)"

definition co_seeded :: "coordinator \<Rightarrow> string \<Rightarrow> bool" where
  "co_seeded c name \<longleftrightarrow> name \<in> gomap_keys (co_counters c) \<or> name \<in> gomap_keys (co_starts c)"

lemma map_of_None_keys: "map_of m k = None \<longleftrightarrow> k \<notin> gomap_keys m"
  by (rule map_of_eq_None_iff)

lemma counterFor_counters:
  "map_of (co_counters (snd (counterFor c name))) = (map_of (co_counters c))(name \<mapsto> co_next c name)"
  "co_starts (snd (counterFor c name)) = co_starts c"
  by (auto simp: co_next_def counterFor_def Let_def split: option.splits)

lemma Coordinator_Advance_result:
  assumes "0 < n"
  shows "fst (Coordinator_Advance c name n) = Inr (int_of_uint64 (co_next c name mod uint64_of n))"
    "map_of (co_counters (snd (Coordinator_Advance c name n))) =
       (map_of (co_counters c))(name \<mapsto> co_next c name + 1)"
    "co_starts (snd (Coordinator_Advance c name n)) = co_starts c"
  using assms counterFor_counters[of c name]
  by (auto simp: Coordinator_Advance_def co_next_def Let_def split: prod.splits)

lemma Coordinator_Advance_nonpos: "n \<le> 0 \<Longrightarrow> Coordinator_Advance c name n = (Inr 0, c)"
  by (simp add: Coordinator_Advance_def)

lemma co_next_counter: "map_of (co_counters c) name = Some v \<Longrightarrow> co_next c name = v"
  by (simp add: co_next_def counterFor_def)

lemma co_next_start:
  "map_of (co_counters c) name = None \<Longrightarrow> map_of (co_starts c) name = Some v \<Longrightarrow> co_next c name = v"
  by (simp add: co_next_def counterFor_def)

lemma co_next_Advance:
  assumes "0 < n"
  shows "co_next (snd (Coordinator_Advance c name n)) name = co_next c name + 1"
    "co_seeded (snd (Coordinator_Advance c name n)) name"
  using Coordinator_Advance_result(2)[OF assms, of c name]
  by (simp_all add: co_next_counter co_seeded_def) (metis fun_upd_same map_of_None_keys option.distinct(1))

lemma co_next_other:
  assumes "co_seeded c m" "m \<noteq> name"
  shows "co_next (snd (Coordinator_Advance c name n)) m = co_next c m"
    "co_seeded (snd (Coordinator_Advance c name n)) m"
proof -
  let ?c = "snd (Coordinator_Advance c name n)"
  have k: "map_of (co_counters ?c) m = map_of (co_counters c) m" "co_starts ?c = co_starts c"
    using assms(2) Coordinator_Advance_result(2,3)[of n c name]
    by (cases "n \<le> 0"; simp add: Coordinator_Advance_nonpos)+
  show "co_next ?c m = co_next c m"
  proof (cases "map_of (co_counters c) m")
    case None
    then obtain v where "map_of (co_starts c) m = Some v"
      using assms(1) by (metis co_seeded_def map_of_None_keys not_Some_eq)
    then show ?thesis using None k by (simp add: co_next_start)
  next
    case (Some v)
    then show ?thesis using k by (simp add: co_next_counter)
  qed
  show "co_seeded ?c m" using assms(1) k by (metis co_seeded_def map_of_None_keys)
qed

lemma Coordinator_Advance_range:
  assumes "0 < n" "n \<le> max_int64"
  shows "fst (Coordinator_Advance c name n) = Inr (uint (co_next c name) mod n)"
  using assms by (simp add: Coordinator_Advance_result int_of_uint64_mod)

text \<open>The random source in these interpretations ignores the coordinator and its seeds: it is any
  function whose values are in range, here over a state that carries it.\<close>

record world =
  w_coord :: coordinator
  w_intn :: "nat \<Rightarrow> int \<Rightarrow> int"
  w_draws :: nat

definition world_advance :: "world advancer" where
  "world_advance w name n =
     (let (r, c) = Coordinator_Advance (w_coord w) name n in (r, w\<lparr>w_coord := c\<rparr>))"

definition world_intn :: "world int_source" where
  "world_intn w n = (w_intn w (w_draws w) n, w\<lparr>w_draws := Suc (w_draws w)\<rparr>)"

text \<open>\<^verbatim>\<open>rand.IntN(n)\<close> returns a value of the interval from 0 to \<open>n - 1\<close>.\<close>

definition intn_lawful :: "world \<Rightarrow> bool" where
  "intn_lawful w \<longleftrightarrow> (\<forall>k n. 0 < n \<longrightarrow> 0 \<le> w_intn w k n \<and> w_intn w k n < n)"

interpretation coord: total_advancer world_advance world_intn intn_lawful
proof
  fix w :: world and name n
  assume w: "intn_lawful w"
  show "intn_lawful (snd (world_advance w name n))"
    using w by (simp add: world_advance_def intn_lawful_def Let_def split: prod.split)
  show "\<exists>i st'. world_advance w name n = (Inr i, st')"
    using Coordinator_Advance_result(1)[of n "w_coord w" name] Coordinator_Advance_nonpos[of n "w_coord w" name]
    by (cases "0 < n") (auto simp: world_advance_def Let_def split: prod.splits)
next
  fix w :: world and n :: int
  assume w: "intn_lawful w" "0 < n"
  show "intn_lawful (snd (world_intn w n))"
    using w by (simp add: world_intn_def intn_lawful_def)
  show "0 \<le> fst (world_intn w n) \<and> fst (world_intn w n) < n"
    using w by (simp add: world_intn_def intn_lawful_def)
next
  fix w w' :: world and name n i
  assume "0 < n" "n \<le> max_int64" "world_advance w name n = (Inr i, w')"
  then show "0 \<le> i \<and> i < n"
    using Coordinator_Advance_range[of n "w_coord w" name]
    by (auto simp: world_advance_def Let_def split: prod.splits)
next
  fix w w' :: world and name n e
  assume "world_advance w name n = (Inl e, w')"
  then show "\<exists>a. e = RRAdvance a"
    using Coordinator_Advance_result(1)[of n "w_coord w" name] Coordinator_Advance_nonpos[of n "w_coord w" name]
    by (cases "0 < n") (auto simp: world_advance_def Let_def split: prod.splits)
qed

subsection \<open>Sequences of calls\<close>

fun run_advances :: "coordinator \<Rightarrow> (string \<times> int) list \<Rightarrow> (rr_error + int) list \<times> coordinator" where
  "run_advances c [] = ([], c)"
| "run_advances c ((name, n) # ops) =
     (let (r, c') = Coordinator_Advance c name n;
          (rs, c'') = run_advances c' ops
      in (r # rs, c''))"

definition tickets_taken :: "string \<Rightarrow> (string \<times> int) list \<Rightarrow> nat" where
  "tickets_taken name ops = length (filter (\<lambda>(m, n). m = name \<and> 0 < n) ops)"

lemma run_advances_nth:
  assumes "co_seeded c name" "i < length ops" "ops ! i = (name, n)" "0 < n" "n \<le> max_int64"
  shows "fst (run_advances c ops) ! i =
    Inr (uint (co_next c name + of_nat (tickets_taken name (take i ops))) mod n)"
  using assms
proof (induction ops arbitrary: c i)
  case (Cons op ops)
  obtain m k where op: "op = (m, k)" by force
  let ?c = "snd (Coordinator_Advance c m k)"
  have run: "fst (run_advances c (op # ops)) = fst (Coordinator_Advance c m k) # fst (run_advances ?c ops)"
    by (simp add: op Let_def split: prod.split)
  show ?case
  proof (cases i)
    case 0
    then show ?thesis using Cons.prems op run by (simp add: Coordinator_Advance_range tickets_taken_def)
  next
    case (Suc j)
    have sd: "co_seeded ?c name"
      and nx: "co_next ?c name = co_next c name + (if m = name \<and> 0 < k then 1 else 0)"
      using co_next_Advance[of k c name] co_next_other[OF Cons.prems(1), of m k] Cons.prems(1)
      by (cases "m = name"; cases "0 < k"; simp add: Coordinator_Advance_nonpos)+
    have "fst (run_advances ?c ops) ! j =
        Inr (uint (co_next ?c name + of_nat (tickets_taken name (take j ops))) mod n)"
      using Cons.prems Suc sd by (intro Cons.IH) simp_all
    then show ?thesis using run Suc nx op by (simp add: tickets_taken_def algebra_simps)
  qed
qed simp

lemma length_run_advances [simp]: "length (fst (run_advances c ops)) = length ops"
  by (induction c ops rule: run_advances.induct) (auto simp: Let_def split: prod.splits)

text \<open>In a window of consecutive integers whose length is a multiple of the modulus, every residue
  occurs equally often.\<close>

lemma residue_window:
  fixes a n i :: nat
  assumes "i < n"
  shows "length (filter (\<lambda>j. (a + j) mod n = i) [0..<n]) = 1"
proof -
  let ?f = "\<lambda>j. (a + j) mod n"
  have le: "x = y" if "x \<le> y" "y < n" "?f x = ?f y" for x y
  proof -
    have "n dvd (a + y) - (a + x)" using that by (metis add_le_cancel_left mod_eq_dvd_iff_nat)
    then show ?thesis using that by (auto dest: dvd_imp_le)
  qed
  have inj: "inj_on ?f {..<n}"
    by (rule inj_onI) (metis le lessThan_iff nat_le_linear)
  have "?f ` {..<n} = {..<n}"
    by (rule endo_inj_surj[OF _ _ inj]) (use assms in auto)
  then have "i \<in> ?f ` {..<n}" using assms by simp
  then obtain j where j: "j < n" "?f j = i" by auto
  have "x = j" if "x < n" "?f x = i" for x
    using inj_onD[OF inj, of x j] that j by simp
  then have "{x. x < n \<and> ?f x = i} = {j}" using j by blast
  then show ?thesis by (simp add: length_filter_conv_card cong: conj_cong)
qed

lemma residue_windows:
  fixes a n i k :: nat
  assumes "i < n"
  shows "length (filter (\<lambda>j. (a + j) mod n = i) [0..<k * n]) = k"
proof (induction k)
  case (Suc k)
  have "[0..<Suc k * n] = [0..<n] @ map (\<lambda>j. j + n) [0..<k * n]"
    by (simp add: map_add_upt) (metis add.commute upt_add_eq_append zero_le)
  moreover have "(a + (j + n)) mod n = (a + j) mod n" for j
    by (metis add.assoc mod_add_self2)
  ultimately show ?case using Suc residue_window[OF assms, of a] by (simp add: filter_map o_def)
qed simp

lemma unat_add_small:
  fixes w :: "64 word"
  assumes "uint w + int j < 2 ^ 64"
  shows "uint (w + of_nat j) = uint w + int j"
proof -
  have "w + of_nat j = word_of_int (uint w + int j)" by simp
  then have "uint (w + of_nat j) = take_bit 64 (uint w + int j)"
    by (simp only: uint_word_of_int_eq len_num1 len_bit0 len_num0) simp
  also have "\<dots> = uint w + int j" using assms by (intro take_bit_int_eq_self) simp_all
  finally show ?thesis .
qed

text \<open>Away from the wrap-around of the counter, consecutive calls with one child count visit the
  children in turn.\<close>

lemma run_advances_same:
  assumes "co_seeded c name" "0 < n" "int n \<le> max_int64" "uint (co_next c name) + int m \<le> 2 ^ 64"
  shows "fst (run_advances c (replicate m (name, int n))) =
    map (\<lambda>j. Inr (int ((unat (co_next c name) + j) mod n))) [0..<m]"
proof (rule nth_equalityI)
  fix j assume "j < length (fst (run_advances c (replicate m (name, int n))))"
  then have j: "j < m" by simp
  have "tickets_taken name (take j (replicate m (name, int n))) = j"
    using assms(2) j by (simp add: tickets_taken_def)
  then have "fst (run_advances c (replicate m (name, int n))) ! j =
      Inr (uint (co_next c name + of_nat j) mod int n)"
    using run_advances_nth[OF assms(1), of j "replicate m (name, int n)" "int n"] j assms(2,3) by simp
  also have "uint (co_next c name + of_nat j) = int (unat (co_next c name) + j)"
    using unat_add_small[of "co_next c name" j] assms(4) j by simp
  finally show "fst (run_advances c (replicate m (name, int n))) ! j =
      map (\<lambda>j. Inr (int ((unat (co_next c name) + j) mod n))) [0..<m] ! j"
    using j by (simp add: zmod_int)
qed simp

section \<open>Properties\<close>

definition demo_input :: "coordinator resolve_input" where
  "demo_input = \<lparr>in_ClientName = ''Outer'', in_Registry = None,
     in_FallbackChains = [(''Outer'', [''A'', ''Inner'']), (''Inner'', [''B'', ''C''])],
     in_ClientProviders = [(''Outer'', ''round-robin''), (''Inner'', ''baml-round-robin''),
       (''A'', ''openai''), (''B'', ''openai''), (''C'', ''anthropic'')],
     in_Advancer = Some Coordinator_Advance\<rparr>"

definition demo_coordinator :: coordinator where
  "demo_coordinator = NewCoordinatorWithStarts (\<lambda>_. 0) [(''Outer'', 1), (''Inner'', -1)]"

definition demo_cyclic :: "coordinator resolve_input" where
  "demo_cyclic = demo_input\<lparr>in_FallbackChains := [(''Outer'', [''Inner'']), (''Inner'', [''Outer''])]\<rparr>"

definition demo_world :: world where
  "demo_world = \<lparr>w_coord = demo_coordinator, w_intn = \<lambda>_ _. 0, w_draws = 0\<rparr>"

definition demo_empty :: "world resolve_input" where
  "demo_empty = \<lparr>in_ClientName = ''R'', in_Registry = None, in_FallbackChains = [],
     in_ClientProviders = [(''R'', ''round-robin'')], in_Advancer = Some world_advance\<rparr>"

text \<open>C25: (functional) When \<^verbatim>\<open>Resolve\<close> returns a client for a non-empty name, that client is not a
  round-robin client, it is reached from the requested client along edges from round-robin clients
  to their children, and the reported info is that of the requested client's own choice: its
  children are the effective chain, the index is in range and the reported child is the child at
  that index. A client that is not round-robin is returned as it is, without info and without
  advancing any counter.\<close>

theorem Resolve_selects_leaf:
  assumes "Resolve intn inp st = (Inr res, st')" "in_ClientName inp \<noteq> ''''"
  shows "\<not> IsRoundRobinProvider (rr_provider inp (rs_Selected res)) \<and>
    (in_ClientName inp, rs_Selected res) \<in> (rr_edges inp)\<^sup>* \<and>
    (if IsRoundRobinProvider (rr_provider inp (in_ClientName inp))
     then (\<exists>i. rs_Info res = Some i \<and> rr_info_for inp (in_ClientName inp) i)
     else res = \<lparr>rs_Selected = in_ClientName inp, rs_Info = None\<rparr> \<and> st' = st)"
  using assms Resolve_loop_Inr[of intn inp "[]" "in_ClientName inp" None st res st']
  by (simp add: Resolve_def)

theorem Resolve_selects_leaf_witness:
  "\<not> IsRoundRobinProvider (rr_provider demo_input ''C'') \<and>
   (''Outer'', ''C'') \<in> (rr_edges demo_input)\<^sup>*"
proof -
  have "fst (Resolve (\<lambda>st n. (0, st)) demo_input demo_coordinator) =
     Inr \<lparr>rs_Selected = ''C'', rs_Info = Some \<lparr>ri_Name = ''Outer'',
       ri_Children = [''A'', ''Inner''], ri_Index = 1, ri_Selected = ''Inner''\<rparr>\<rparr>"
    by code_simp
  then obtain st' where "Resolve (\<lambda>st n. (0, st)) demo_input demo_coordinator =
     (Inr \<lparr>rs_Selected = ''C'', rs_Info = Some \<lparr>ri_Name = ''Outer'',
       ri_Children = [''A'', ''Inner''], ri_Index = 1, ri_Selected = ''Inner''\<rparr>\<rparr>, st')"
    by (metis prod.collapse)
  from Resolve_selects_leaf[OF this] show ?thesis by (simp add: demo_input_def)
qed

text \<open>C39: (safety) A cycle error names a client that really lies on a cycle of round-robin edges
  reachable from the requested client, so an acyclic configuration is never rejected as cyclic.\<close>

theorem Resolve_cycle_real:
  assumes "Resolve intn inp st = (Inl (RRCycle c), st')"
  shows "(in_ClientName inp, c) \<in> (rr_edges inp)\<^sup>* \<and> (c, c) \<in> (rr_edges inp)\<^sup>+"
  using assms Resolve_loop_cycle[of intn inp "[]" "in_ClientName inp" None st c st']
  by (auto simp: Resolve_def split: if_splits)

theorem Resolve_cycle_real_witness:
  "(''Outer'', ''Outer'') \<in> (rr_edges demo_cyclic)\<^sup>+"
proof -
  have "fst (Resolve (\<lambda>st n. (0, st)) demo_cyclic demo_coordinator) = Inl (RRCycle ''Outer'')"
    by code_simp
  then obtain st' where "Resolve (\<lambda>st n. (0, st)) demo_cyclic demo_coordinator = (Inl (RRCycle ''Outer''), st')"
    by (metis prod.collapse)
  from Resolve_cycle_real[OF this] show ?thesis by (rule conjunct2)
qed

text \<open>With the in-process coordinator as its advancer, and random draws in range, the
  only errors of \<^verbatim>\<open>Resolve\<close> are an invalid strategy or start override, a client without children
  and a cycle: the selection never fails otherwise and the out-of-range guard never fires.\<close>

theorem Resolve_coordinator_errors:
  assumes "Resolve world_intn inp w = (Inl e, w')" "intn_lawful w" "chains_fit inp"
    and "in_Advancer inp = Some world_advance \<or> in_Advancer inp = None"
  shows "e = ErrInvalidStrategyOverride \<or> (\<exists>c. e = RRSelect c ErrInvalidStartOverride) \<or>
    (\<exists>c. e = RRNoChildren c) \<or> (\<exists>c. e = RRCycle c)"
  using coord.Resolve_total_errors[OF assms(1,2) _ assms(3)] assms(4)
  by (auto simp: coord.uses_adv_def)

theorem Resolve_coordinator_errors_witness:
  "fst (Resolve world_intn demo_empty demo_world) = Inl (RRNoChildren ''R'') \<and>
   (\<exists>c. RRNoChildren ''R'' = RRNoChildren c)"
proof -
  have r: "fst (Resolve world_intn demo_empty demo_world) = Inl (RRNoChildren ''R'')" by code_simp
  then obtain w' where w: "Resolve world_intn demo_empty demo_world = (Inl (RRNoChildren ''R''), w')"
    by (metis prod.collapse)
  have "chains_fit demo_empty"
    by (simp add: chains_fit_def rr_chain_def demo_empty_def InspectStrategyOverride_def
        findRuntimeClient_def max_int64_def)
  then show ?thesis
    using r Resolve_coordinator_errors[OF w] by (simp add: demo_empty_def intn_lawful_def demo_world_def)
qed

text \<open>C30: (functional) The \<open>i\<close>-th call of a run of \<^verbatim>\<open>Coordinator.Advance\<close> calls, interleaved with calls
  for other clients, returns the client's start value plus the number of its earlier effective
  calls, as a 64-bit unsigned sum that wraps, modulo the child count of this call. A configured
  start, negative ones included, is the first ticket.\<close>

theorem Coordinator_tickets:
  assumes "map_of starts name = Some start" "i < length ops" "ops ! i = (name, n)"
    "0 < n" "n \<le> max_int64"
  shows "fst (run_advances (NewCoordinatorWithStarts rnd starts) ops) ! i =
    Inr (uint (uint64_of start + of_nat (tickets_taken name (take i ops))) mod n)"
proof -
  let ?c = "NewCoordinatorWithStarts rnd starts"
  have m: "map_of (co_starts ?c) name = Some (uint64_of start)"
    using assms(1) by (simp add: NewCoordinatorWithStarts_def map_of_map[unfolded comp_def])
  then have "co_seeded ?c name" by (metis co_seeded_def map_of_None_keys option.distinct(1))
  moreover have "co_next ?c name = uint64_of start"
    by (rule co_next_start[OF _ m]) (simp add: NewCoordinatorWithStarts_def)
  ultimately show ?thesis using run_advances_nth[of ?c name i ops n] assms by simp
qed

theorem Coordinator_tickets_witness:
  "fst (run_advances (NewCoordinatorWithStarts (\<lambda>_. 0) [(''R'', -1)])
     [(''R'', 3), (''S'', 2), (''R'', 3)]) ! 2 = Inr 0"
  using Coordinator_tickets[of "[(''R'', -1)]" "''R''" "-1" 2 "[(''R'', 3), (''S'', 2), (''R'', 3)]" 3 "\<lambda>_. 0"]
  by (simp add: max_int64_def tickets_taken_def uint64_of_def)

text \<open>The rotation is fair: while the counter does not wrap, any run of \<open>k\<close> times
  the child count consecutive calls selects every child exactly \<open>k\<close> times.\<close>

theorem Coordinator_fair:
  assumes "co_seeded c name" "int n \<le> max_int64" "uint (co_next c name) + int (k * n) \<le> 2 ^ 64" "i < n"
  shows "length (filter (\<lambda>r. r = Inr (int i))
    (fst (run_advances c (replicate (k * n) (name, int n))))) = k"
proof -
  have "0 < n" using assms(4) by simp
  from run_advances_same[OF assms(1) this assms(2,3)] residue_windows[OF assms(4), of "unat (co_next c name)" k]
  show ?thesis by (simp add: filter_map o_def)
qed

theorem Coordinator_fair_witness:
  "length (filter (\<lambda>r. r = Inr (int 2))
    (fst (run_advances (NewCoordinatorWithStarts (\<lambda>_. 0) [(''R'', 4)]) (replicate (2 * 3) (''R'', int 3))))) = 2"
  by (rule Coordinator_fair)
    (simp_all add: co_seeded_def co_next_def counterFor_def NewCoordinatorWithStarts_def
      max_int64_def uint64_of_def)

text \<open>The child that a runtime \<^verbatim>\<open>start\<close> override selects is the child that a fresh
  coordinator configured with the same start selects first, negative starts included.\<close>

theorem start_override_aligned:
  assumes "0 < n" "map_of starts name = Some start"
  shows "fst (Coordinator_Advance (NewCoordinatorWithStarts rnd starts) name n) =
    Inr (normalizeStartIndex start n)"
proof -
  let ?c = "NewCoordinatorWithStarts rnd starts"
  have "co_next ?c name = uint64_of start"
    using assms(2)
    by (intro co_next_start) (simp_all add: NewCoordinatorWithStarts_def map_of_map[unfolded comp_def])
  then show ?thesis using assms(1) by (simp add: Coordinator_Advance_result normalizeStartIndex_def)
qed

theorem start_override_aligned_witness:
  "fst (Coordinator_Advance (NewCoordinatorWithStarts (\<lambda>_. 0) [(''R'', -1)]) ''R'' 4) =
    Inr (normalizeStartIndex (-1) 4)"
  using start_override_aligned[of 4 "[(''R'', -1)]" "''R''" "-1" "\<lambda>_. 0"] by simp

end
