(* ===== verification/Shared_State.thy ===== *)
theory Shared_State
  imports Round_Robin "HOL-Library.AList"
begin

text \<open>
  \<^verbatim>\<open>workerplugin/sharedstate.go\<close>, \<^verbatim>\<open>workerplugin/remote_advancer.go\<close>, \<^verbatim>\<open>worker/sharedstate.go\<close> and the
  seeds of \<^verbatim>\<open>pool/pool.go\<close>, one operation at a time: the store of counters with its idempotency cache,
  and the two advancers that rotate a round-robin client over it. The interleaving of the steps of
  concurrent operations is in the theory \<open>Shared_State_Concurrent\<close>.
\<close>

section \<open>The store\<close>

text \<open>\<open>ss_initialValue n key\<close> is the answer of the \<open>n\<close>-th call of the callback, \<open>ss_calls\<close> the number of
  calls so far. Times are nanoseconds since the epoch, kept as unbounded integers: the \<^verbatim>\<open>int64\<close> of the code holds
  them until the year 2262. Between operations every idempotency entry holds its value, so the cache maps a pair
  of key and operation id to the previous value.\<close>

record scope =
  sc_keys :: "string list"
  sc_lastAccessedNano :: int

record store =
  ss_initialValue :: "nat \<Rightarrow> string \<Rightarrow> 64 word"
  ss_calls :: nat
  ss_counters :: "(string \<times> 64 word) list"
  ss_idem :: "((string \<times> string) \<times> 64 word) list"
  ss_scopes :: "(string \<times> scope) list"
  ss_ttl :: int

definition defaultIdemTTL :: int where
  "defaultIdemTTL = 15 * 60 * 1000000000"

definition newSharedStateStoreWithTTL :: "(nat \<Rightarrow> string \<Rightarrow> 64 word) option \<Rightarrow> int \<Rightarrow> store" where
  "newSharedStateStoreWithTTL initialValue ttl =
     \<lparr>ss_initialValue = (case initialValue of None \<Rightarrow> (\<lambda>_ _. 0) | Some f \<Rightarrow> f), ss_calls = 0,
      ss_counters = [], ss_idem = [], ss_scopes = [], ss_ttl = ttl\<rparr>"

definition NewSharedStateStore :: "(nat \<Rightarrow> string \<Rightarrow> 64 word) option \<Rightarrow> store" where
  "NewSharedStateStore initialValue = newSharedStateStoreWithTTL initialValue defaultIdemTTL"

definition ss_counterFor :: "store \<Rightarrow> string \<Rightarrow> 64 word \<times> store" where
  "ss_counterFor s key =
     (case map_of (ss_counters s) key of
        Some v \<Rightarrow> (v, s)
      | None \<Rightarrow>
          (let fresh = ss_initialValue s (ss_calls s) key
           in (fresh, s\<lparr>ss_calls := Suc (ss_calls s), ss_counters := AList.update key fresh (ss_counters s)\<rparr>)))"

definition counter_Add :: "store \<Rightarrow> string \<Rightarrow> 64 word \<Rightarrow> 64 word \<times> store" where
  "counter_Add s key delta =
     (let (v, s) = ss_counterFor s key;
          v' = v + delta
      in (v' - delta, s\<lparr>ss_counters := AList.update key v' (ss_counters s)\<rparr>))"

text \<open>The scope of the operation is created or found, touched, and told the key.\<close>

definition registerAndLoadIdem :: "store \<Rightarrow> string \<Rightarrow> string \<Rightarrow> int \<Rightarrow> 64 word option \<times> store" where
  "registerAndLoadIdem s key opID now =
     (let sc = (case map_of (ss_scopes s) opID of
                  Some sc \<Rightarrow> sc
                | None \<Rightarrow> \<lparr>sc_keys = [], sc_lastAccessedNano = 0\<rparr>);
          sc = sc\<lparr>sc_lastAccessedNano := now, sc_keys := List.insert key (sc_keys sc)\<rparr>
      in (map_of (ss_idem s) (key, opID), s\<lparr>ss_scopes := AList.update opID sc (ss_scopes s)\<rparr>))"

definition FetchAdd :: "store \<Rightarrow> string \<Rightarrow> 64 word \<Rightarrow> string \<Rightarrow> int \<Rightarrow> 64 word \<times> store" where
  "FetchAdd s key delta opID now =
     (if opID = [] then counter_Add s key delta
      else (let (entry, s) = registerAndLoadIdem s key opID now
            in case entry of
                 Some previous \<Rightarrow> (previous, s)
               | None \<Rightarrow>
                   (let (previous, s) = counter_Add s key delta
                    in (previous, s\<lparr>ss_idem := AList.update (key, opID) previous (ss_idem s)\<rparr>))))"

fun delete_idem :: "string \<Rightarrow> string list \<Rightarrow> store \<Rightarrow> store" where
  "delete_idem opID [] s = s"
| "delete_idem opID (k # ks) s = delete_idem opID ks (s\<lparr>ss_idem := AList.delete (k, opID) (ss_idem s)\<rparr>)"

definition DropScope :: "store \<Rightarrow> string \<Rightarrow> nat \<times> store" where
  "DropScope s opID =
     (if opID = [] then (0, s)
      else (case map_of (ss_scopes s) opID of
              None \<Rightarrow> (0, s)
            | Some sc \<Rightarrow>
                (let s = s\<lparr>ss_scopes := AList.delete opID (ss_scopes s)\<rparr>
                 in (length (sc_keys sc), delete_idem opID (sc_keys sc) s))))"

fun sweep_range :: "int \<Rightarrow> string list \<Rightarrow> store \<Rightarrow> store" where
  "sweep_range cutoffNano [] s = s"
| "sweep_range cutoffNano (opID # ops) s =
     sweep_range cutoffNano ops
       (case map_of (ss_scopes s) opID of
          None \<Rightarrow> s
        | Some sc \<Rightarrow>
            if sc_lastAccessedNano sc \<ge> cutoffNano then s
            else delete_idem opID (sc_keys sc) (s\<lparr>ss_scopes := AList.delete opID (ss_scopes s)\<rparr>))"

definition sweepOnce :: "store \<Rightarrow> int \<Rightarrow> store" where
  "sweepOnce s now = sweep_range (now - ss_ttl s) (map fst (ss_scopes s)) s"

section \<open>The advancers\<close>

text \<open>The state in which a worker resolves a request: the host's store, the clock, the random source,
  and the fate of each call over the broker: the error it reports, if any, and whether the host
  executed it.\<close>

record rworld =
  rw_store :: store
  rw_clock :: "nat \<Rightarrow> int"
  rw_intn :: "nat \<Rightarrow> int \<Rightarrow> int"
  rw_rpc :: "nat \<Rightarrow> string option \<times> bool"
  rw_calls :: nat

record remote_advancer =
  ra_client :: bool
  ra_operationID :: string

definition NewRemoteAdvancer :: "bool \<Rightarrow> string \<Rightarrow> remote_advancer" where
  "NewRemoteAdvancer client operationID = \<lparr>ra_client = client, ra_operationID = operationID\<rparr>"

definition RemoteAdvancer_Advance :: "remote_advancer \<Rightarrow> rworld advancer" where
  "RemoteAdvancer_Advance r w clientName childCount =
     (if childCount \<le> 0 then (Inr 0, w)
      else if \<not> ra_client r then (Inl (RRAdvance AdvNoClient), w)
      else (let (err, executed) = rw_rpc w (rw_calls w);
                (previous, s) = FetchAdd (rw_store w) clientName 1 (ra_operationID r) (rw_clock w (rw_calls w));
                w = w\<lparr>rw_calls := Suc (rw_calls w), rw_store := (if executed then s else rw_store w)\<rparr>
            in case err of
                 Some e \<Rightarrow> (Inl (RRAdvance (AdvFetchAdd clientName e)), w)
               | None \<Rightarrow> (Inr (int_of_uint64 (previous mod uint64_of childCount)), w)))"

record store_advancer =
  sa_store :: bool
  sa_operationID :: string

definition storeRoundRobinAdvancer_Advance :: "store_advancer \<Rightarrow> rworld advancer" where
  "storeRoundRobinAdvancer_Advance a w clientName childCount =
     (if childCount \<le> 0 then (Inr 0, w)
      else if \<not> sa_store a then (Inl (RRAdvance AdvNoStore), w)
      else (let (prev, s) = FetchAdd (rw_store w) clientName 1 (sa_operationID a) (rw_clock w (rw_calls w))
            in (Inr (int_of_uint64 (prev mod uint64_of childCount)),
                w\<lparr>rw_calls := Suc (rw_calls w), rw_store := s\<rparr>)))"

text \<open>The advancer of a request: nil without a hook, nil without a request id.\<close>

definition roundRobinAdvancerFor :: "(string \<Rightarrow> rworld advancer) option \<Rightarrow> string \<Rightarrow> rworld advancer option" where
  "roundRobinAdvancerFor hook requestID =
     (case hook of None \<Rightarrow> None | Some h \<Rightarrow> if requestID = [] then None else Some (h requestID))"

definition NewStoreSharedStateHook :: "bool \<Rightarrow> string \<Rightarrow> rworld advancer" where
  "NewStoreSharedStateHook store requestID =
     storeRoundRobinAdvancer_Advance \<lparr>sa_store = store, sa_operationID = requestID\<rparr>"

definition rworld_intn :: "rworld int_source" where
  "rworld_intn w n = (rw_intn w (rw_calls w) n, w\<lparr>rw_calls := Suc (rw_calls w)\<rparr>)"

text \<open>The initial values that the pool configures.\<close>

definition convertSharedStateSeeds :: "int gomap \<Rightarrow> 64 word gomap" where
  "convertSharedStateSeeds starts = map (\<lambda>(k, v). (k, uint64_of v)) starts"

definition pool_initialValue :: "(nat \<Rightarrow> 32 word) \<Rightarrow> 64 word gomap \<Rightarrow> nat \<Rightarrow> string \<Rightarrow> 64 word" where
  "pool_initialValue rnd seeds n key =
     (case map_of seeds key of Some seed \<Rightarrow> seed | None \<Rightarrow> ucast (rnd n))"

section \<open>Effects of the operations\<close>

text \<open>The value that the next addition to a key returns.\<close>

definition ss_next :: "store \<Rightarrow> string \<Rightarrow> 64 word" where
  "ss_next s key = fst (ss_counterFor s key)"

lemma ss_next_counter: "map_of (ss_counters s) key = Some v \<Longrightarrow> ss_next s key = v"
  by (simp add: ss_next_def ss_counterFor_def)

lemma counter_Add_effect [simp]:
  "fst (counter_Add s key d) = ss_next s key"
  "map_of (ss_counters (snd (counter_Add s key d))) = (map_of (ss_counters s))(key \<mapsto> ss_next s key + d)"
  "ss_idem (snd (counter_Add s key d)) = ss_idem s"
  "ss_scopes (snd (counter_Add s key d)) = ss_scopes s"
  "ss_ttl (snd (counter_Add s key d)) = ss_ttl s"
  "ss_initialValue (snd (counter_Add s key d)) = ss_initialValue s"
  by (simp_all add: counter_Add_def ss_counterFor_def ss_next_def Let_def AList.update_conv' split: option.split)

text \<open>Under an operation id, an addition is looked up before it is made.\<close>

definition scope_keys :: "store \<Rightarrow> string \<Rightarrow> string list" where
  "scope_keys s opID = (case map_of (ss_scopes s) opID of Some sc \<Rightarrow> sc_keys sc | None \<Rightarrow> [])"

definition touched_scope :: "store \<Rightarrow> string \<Rightarrow> string \<Rightarrow> int \<Rightarrow> scope" where
  "touched_scope s key opID now =
     \<lparr>sc_keys = List.insert key (scope_keys s opID), sc_lastAccessedNano = now\<rparr>"

lemma scope_updates: "(x :: scope)\<lparr>sc_lastAccessedNano := n, sc_keys := ks\<rparr> = \<lparr>sc_keys = ks, sc_lastAccessedNano = n\<rparr>"
  by (cases x) simp

lemma registerAndLoadIdem_effect:
  "registerAndLoadIdem s key opID now =
     (map_of (ss_idem s) (key, opID),
      s\<lparr>ss_scopes := AList.update opID (touched_scope s key opID now) (ss_scopes s)\<rparr>)"
  by (simp add: registerAndLoadIdem_def touched_scope_def scope_keys_def scope_updates Let_def split: option.split)

lemma ss_next_scopes [simp]: "ss_next (s\<lparr>ss_scopes := x\<rparr>) k = ss_next s k"
  by (simp add: ss_next_def ss_counterFor_def Let_def split: option.split)

lemma FetchAdd_value:
  "opID \<noteq> [] \<Longrightarrow> fst (FetchAdd s key d opID now) =
     (case map_of (ss_idem s) (key, opID) of Some v \<Rightarrow> v | None \<Rightarrow> ss_next s key)"
  by (simp add: FetchAdd_def registerAndLoadIdem_effect Let_def split: option.split prod.split)
    (metis counter_Add_effect(1) fst_conv ss_next_scopes)

lemma FetchAdd_state:
  assumes "opID \<noteq> []"
  shows "map_of (ss_idem (snd (FetchAdd s key d opID now))) =
      (map_of (ss_idem s))((key, opID) \<mapsto> fst (FetchAdd s key d opID now))"
    "map_of (ss_counters (snd (FetchAdd s key d opID now))) =
      (if map_of (ss_idem s) (key, opID) = None
       then (map_of (ss_counters s))(key \<mapsto> ss_next s key + d) else map_of (ss_counters s))"
    "map_of (ss_scopes (snd (FetchAdd s key d opID now))) =
      (map_of (ss_scopes s))(opID \<mapsto> touched_scope s key opID now)"
    "ss_ttl (snd (FetchAdd s key d opID now)) = ss_ttl s"
    "ss_initialValue (snd (FetchAdd s key d opID now)) = ss_initialValue s"
proof -
  let ?s = "s\<lparr>ss_scopes := AList.update opID (touched_scope s key opID now) (ss_scopes s)\<rparr>"
  obtain v s2 where a: "counter_Add ?s key d = (v, s2)" by force
  note e = counter_Add_effect[of ?s key d, unfolded a fst_conv snd_conv]
  show "map_of (ss_idem (snd (FetchAdd s key d opID now))) =
      (map_of (ss_idem s))((key, opID) \<mapsto> fst (FetchAdd s key d opID now))"
    "map_of (ss_counters (snd (FetchAdd s key d opID now))) =
      (if map_of (ss_idem s) (key, opID) = None
       then (map_of (ss_counters s))(key \<mapsto> ss_next s key + d) else map_of (ss_counters s))"
    "map_of (ss_scopes (snd (FetchAdd s key d opID now))) =
      (map_of (ss_scopes s))(opID \<mapsto> touched_scope s key opID now)"
    "ss_ttl (snd (FetchAdd s key d opID now)) = ss_ttl s"
    "ss_initialValue (snd (FetchAdd s key d opID now)) = ss_initialValue s"
    using assms e
    by (auto simp: FetchAdd_def registerAndLoadIdem_effect a Let_def AList.update_conv' fun_upd_triv
        split: option.split)
qed

lemma FetchAdd_uncached: "FetchAdd s key d [] now = counter_Add s key d"
  by (simp add: FetchAdd_def)

lemma delete_idem_effect [simp]:
  "map_of (ss_idem (delete_idem opID ks s)) (k, o') =
     (if o' = opID \<and> k \<in> set ks then None else map_of (ss_idem s) (k, o'))"
  "ss_counters (delete_idem opID ks s) = ss_counters s"
  "ss_scopes (delete_idem opID ks s) = ss_scopes s"
  "ss_ttl (delete_idem opID ks s) = ss_ttl s"
  "ss_calls (delete_idem opID ks s) = ss_calls s"
  "ss_initialValue (delete_idem opID ks s) = ss_initialValue s"
  by (induction opID ks s rule: delete_idem.induct) (auto simp: AList.delete_conv')

section \<open>The invariant of the cache\<close>

text \<open>An entry is cached exactly if its scope exists and owns its key.\<close>

definition store_wf :: "store \<Rightarrow> bool" where
  "store_wf s \<longleftrightarrow>
     (\<forall>k opID. map_of (ss_idem s) (k, opID) \<noteq> None \<longleftrightarrow> k \<in> set (scope_keys s opID)) \<and>
     (\<forall>opID. distinct (scope_keys s opID)) \<and> map_of (ss_scopes s) [] = None"

lemma store_wf_new: "store_wf (newSharedStateStoreWithTTL iv ttl)"
  by (simp add: store_wf_def newSharedStateStoreWithTTL_def scope_keys_def)

lemma scope_keys_upd:
  "map_of (ss_scopes s') = (map_of (ss_scopes s))(opID := x) \<Longrightarrow>
     scope_keys s' p = (if p = opID then (case x of Some sc \<Rightarrow> sc_keys sc | None \<Rightarrow> []) else scope_keys s p)"
  by (simp add: scope_keys_def)

lemma store_wf_idem: "store_wf s \<Longrightarrow> map_of (ss_idem s) (k, opID) = None \<longleftrightarrow> k \<notin> set (scope_keys s opID)"
  unfolding store_wf_def by blast

lemma store_wf_FetchAdd:
  assumes "store_wf s"
  shows "store_wf (snd (FetchAdd s key d opID now))" (is "store_wf ?s")
proof (cases "opID = []")
  case True
  then show ?thesis using assms by (simp add: FetchAdd_uncached store_wf_def scope_keys_def)
next
  case False
  note st = FetchAdd_state[OF False, of s key d now]
  have keys: "scope_keys ?s p = (if p = opID then List.insert key (scope_keys s opID) else scope_keys s p)" for p
    using scope_keys_upd[OF st(3)] by (simp add: touched_scope_def)
  have "map_of (ss_idem ?s) (k, p) \<noteq> None \<longleftrightarrow> k \<in> set (scope_keys ?s p)" for k p
    using store_wf_idem[OF assms, of k p] unfolding st(1) keys by auto
  then show ?thesis using assms False keys st(3) by (simp add: store_wf_def)
qed

text \<open>Removing a scope with its entries, as dropping and sweeping do.\<close>

definition evict :: "store \<Rightarrow> string \<Rightarrow> store" where
  "evict s opID = delete_idem opID (scope_keys s opID) (s\<lparr>ss_scopes := AList.delete opID (ss_scopes s)\<rparr>)"

lemma evict_effect:
  assumes "store_wf s"
  shows "map_of (ss_scopes (evict s opID)) = (map_of (ss_scopes s))(opID := None)"
    "map_of (ss_idem (evict s opID)) (k, p) = (if p = opID then None else map_of (ss_idem s) (k, p))"
    "ss_ttl (evict s opID) = ss_ttl s" "ss_counters (evict s opID) = ss_counters s"
  using store_wf_idem[OF assms, of k opID] by (auto simp: evict_def AList.delete_conv')

lemma store_wf_evict:
  assumes "store_wf s"
  shows "store_wf (evict s opID)"
proof -
  have keys: "scope_keys (evict s opID) p = (if p = opID then [] else scope_keys s p)" for p
    using scope_keys_upd[OF evict_effect(1)[OF assms]] by simp
  have "map_of (ss_idem (evict s opID)) (k, p) \<noteq> None \<longleftrightarrow> k \<in> set (scope_keys (evict s opID) p)" for k p
    using store_wf_idem[OF assms, of k p] unfolding evict_effect(2)[OF assms] keys by auto
  then show ?thesis using assms keys evict_effect(1)[OF assms] by (simp add: store_wf_def)
qed

lemma DropScope_evict:
  "DropScope s opID =
     (if opID = [] \<or> map_of (ss_scopes s) opID = None then (0, s) else (length (scope_keys s opID), evict s opID))"
  by (simp add: DropScope_def evict_def scope_keys_def Let_def split: option.split)

lemma store_wf_DropScope: "store_wf s \<Longrightarrow> store_wf (snd (DropScope s opID))"
  by (simp add: DropScope_evict store_wf_evict)

lemma DropScope_effect:
  assumes "store_wf s"
  shows "map_of (ss_scopes (snd (DropScope s opID))) = (map_of (ss_scopes s))(opID := None)"
    "map_of (ss_idem (snd (DropScope s opID))) (k, p) = (if p = opID then None else map_of (ss_idem s) (k, p))"
    "fst (DropScope s opID) = card {k. map_of (ss_idem s) (k, opID) \<noteq> None}"
    "ss_ttl (snd (DropScope s opID)) = ss_ttl s" "ss_counters (snd (DropScope s opID)) = ss_counters s"
proof -
  have none: "{k. map_of (ss_idem s) (k, opID) \<noteq> None} = set (scope_keys s opID)"
    by (simp del: not_None_eq add: store_wf_idem[OF assms])
  have empty: "opID = [] \<or> map_of (ss_scopes s) opID = None \<longleftrightarrow> map_of (ss_scopes s) opID = None"
    using assms by (auto simp: store_wf_def)
  have e: "map_of (ss_scopes s) opID = None \<Longrightarrow> scope_keys s opID = []" by (simp add: scope_keys_def)
  show "fst (DropScope s opID) = card {k. map_of (ss_idem s) (k, opID) \<noteq> None}"
    unfolding none DropScope_evict empty using assms e by (auto simp: store_wf_def distinct_card)
  show "map_of (ss_scopes (snd (DropScope s opID))) = (map_of (ss_scopes s))(opID := None)"
    "map_of (ss_idem (snd (DropScope s opID))) (k, p) = (if p = opID then None else map_of (ss_idem s) (k, p))"
    "ss_ttl (snd (DropScope s opID)) = ss_ttl s" "ss_counters (snd (DropScope s opID)) = ss_counters s"
    using store_wf_idem[OF assms, of k opID] e unfolding DropScope_evict empty
    by (auto simp: evict_effect[OF assms])
qed

text \<open>The sweep: exactly the scopes that are idle past the cutoff go.\<close>

definition kept_scopes :: "int \<Rightarrow> store \<Rightarrow> string list \<Rightarrow> string \<Rightarrow> scope option" where
  "kept_scopes cutoff s ops opID =
     (case map_of (ss_scopes s) opID of
        Some sc \<Rightarrow> if opID \<in> set ops \<and> sc_lastAccessedNano sc < cutoff then None else Some sc
      | None \<Rightarrow> None)"

lemma sweep_visit:
  "(case map_of (ss_scopes s) opID of None \<Rightarrow> s
    | Some sc \<Rightarrow> if sc_lastAccessedNano sc \<ge> cutoff then s
        else delete_idem opID (sc_keys sc) (s\<lparr>ss_scopes := AList.delete opID (ss_scopes s)\<rparr>)) =
   (if \<exists>sc. map_of (ss_scopes s) opID = Some sc \<and> sc_lastAccessedNano sc < cutoff then evict s opID else s)"
  by (auto simp: evict_def scope_keys_def split: option.split)

lemma sweep_range_wf: "store_wf s \<Longrightarrow> store_wf (sweep_range cutoff ops s)"
  by (induction cutoff ops s rule: sweep_range.induct) (simp_all only: sweep_range.simps sweep_visit store_wf_evict if_split, auto simp: store_wf_evict)

lemma sweep_range_effect:
  assumes "store_wf s"
  shows "map_of (ss_scopes (sweep_range cutoff ops s)) p = kept_scopes cutoff s ops p \<and>
    map_of (ss_idem (sweep_range cutoff ops s)) (k, p) =
      (if kept_scopes cutoff s ops p = None then None else map_of (ss_idem s) (k, p)) \<and>
    ss_counters (sweep_range cutoff ops s) = ss_counters s \<and> ss_ttl (sweep_range cutoff ops s) = ss_ttl s"
  using assms
proof (induction cutoff ops s rule: sweep_range.induct)
  case (1 cutoff s)
  have "map_of (ss_scopes s) p = None \<Longrightarrow> map_of (ss_idem s) (k, p) = None"
    using store_wf_idem[OF 1] by (simp add: scope_keys_def)
  then show ?case by (auto simp: kept_scopes_def split: option.split)
next
  case (2 cutoff opID ops s)
  let ?s = "if \<exists>sc. map_of (ss_scopes s) opID = Some sc \<and> sc_lastAccessedNano sc < cutoff then evict s opID else s"
  have wf: "store_wf ?s" using 2(2) by (simp add: store_wf_evict)
  have "kept_scopes cutoff ?s ops p = kept_scopes cutoff s (opID # ops) p"
    by (auto simp: kept_scopes_def evict_effect[OF 2(2)] split: option.split)
  moreover have "kept_scopes cutoff ?s ops p \<noteq> None \<Longrightarrow> map_of (ss_idem ?s) (k, p) = map_of (ss_idem s) (k, p)"
    by (auto simp: kept_scopes_def evict_effect[OF 2(2)] split: option.splits if_splits)
  ultimately show ?case
    using 2(1)[unfolded sweep_visit, OF wf] by (auto simp: sweep_visit evict_effect[OF 2(2)])
qed

section \<open>Sequences of operations\<close>

datatype store_op =
    OpFetchAdd string "64 word" string int
  | OpDropScope string
  | OpSweep int

fun apply_op :: "store_op \<Rightarrow> store \<Rightarrow> store" where
  "apply_op (OpFetchAdd key delta opID now) s = snd (FetchAdd s key delta opID now)"
| "apply_op (OpDropScope opID) s = snd (DropScope s opID)"
| "apply_op (OpSweep now) s = sweepOnce s now"

lemma store_wf_apply: "store_wf s \<Longrightarrow> store_wf (apply_op x s)"
  by (cases x) (simp_all add: store_wf_FetchAdd store_wf_DropScope sweepOnce_def sweep_range_wf)

lemma store_wf_fold: "store_wf s \<Longrightarrow> store_wf (fold apply_op ops s)"
  by (induction ops arbitrary: s) (simp_all add: store_wf_apply)

text \<open>The operations during the life of a scope that was accessed at a time: they do not drop it,
  no sweep comes a time to live after that access, and it is not accessed at an earlier time.\<close>

fun keeps_scope :: "int \<Rightarrow> string \<Rightarrow> int \<Rightarrow> store_op \<Rightarrow> bool" where
  "keeps_scope ttl opID t (OpFetchAdd key delta p now) \<longleftrightarrow> p \<noteq> opID \<or> t \<le> now"
| "keeps_scope ttl opID t (OpDropScope p) \<longleftrightarrow> p \<noteq> opID"
| "keeps_scope ttl opID t (OpSweep now) \<longleftrightarrow> now - ttl \<le> t"

definition scope_alive :: "string \<Rightarrow> int \<Rightarrow> store \<Rightarrow> bool" where
  "scope_alive opID t s \<longleftrightarrow> store_wf s \<and> (\<exists>sc. map_of (ss_scopes s) opID = Some sc \<and> t \<le> sc_lastAccessedNano sc)"

lemma kept_alive:
  "scope_alive opID t s \<Longrightarrow> cutoff \<le> t \<Longrightarrow> kept_scopes cutoff s ops opID = map_of (ss_scopes s) opID"
  by (auto simp: scope_alive_def kept_scopes_def)

lemma apply_op_keeps:
  assumes "scope_alive opID t s" "keeps_scope (ss_ttl s) opID t x" "opID \<noteq> []"
  shows "scope_alive opID t (apply_op x s) \<and> ss_ttl (apply_op x s) = ss_ttl s \<and>
    (\<forall>k v. map_of (ss_idem s) (k, opID) = Some v \<longrightarrow> map_of (ss_idem (apply_op x s)) (k, opID) = Some v)"
proof (cases x)
  case (OpFetchAdd key d p now)
  show ?thesis
  proof (cases "p = []")
    case True
    then show ?thesis using assms OpFetchAdd store_wf_FetchAdd[of s key d "[]" now]
      by (auto simp: scope_alive_def FetchAdd_uncached)
  next
    case False
    then show ?thesis using assms OpFetchAdd store_wf_FetchAdd[of s key d p now] FetchAdd_value[OF False, of s key d now]
      by (auto simp: scope_alive_def FetchAdd_state[OF False] touched_scope_def)
  qed
next
  case (OpDropScope p)
  then have "store_wf s" "p \<noteq> opID" using assms by (simp_all add: scope_alive_def)
  then show ?thesis using assms OpDropScope store_wf_DropScope[of s p] DropScope_effect[of s p]
    by (auto simp: scope_alive_def)
next
  case (OpSweep now)
  have wf: "store_wf s" using assms by (simp add: scope_alive_def)
  note e = sweep_range_effect[OF wf, of "now - ss_ttl s" "map fst (ss_scopes s)" opID]
  have k: "kept_scopes (now - ss_ttl s) s (map fst (ss_scopes s)) opID = map_of (ss_scopes s) opID"
    using kept_alive[OF assms(1)] assms(2) OpSweep by simp
  show ?thesis using assms(1) e k sweep_range_wf[OF wf] OpSweep
    by (auto simp: scope_alive_def sweepOnce_def)
qed

lemma fold_keeps:
  assumes "scope_alive opID t s" "list_all (keeps_scope (ss_ttl s) opID t) ops" "opID \<noteq> []"
    and "map_of (ss_idem s) (k, opID) = Some v"
  shows "scope_alive opID t (fold apply_op ops s) \<and> map_of (ss_idem (fold apply_op ops s)) (k, opID) = Some v"
  using assms
proof (induction ops arbitrary: s)
  case (Cons x ops)
  then show ?case using apply_op_keeps[OF Cons.prems(1) _ Cons.prems(3), of x] by simp
qed simp

lemma FetchAdd_alive:
  assumes "store_wf s" "opID \<noteq> []"
  shows "scope_alive opID now (snd (FetchAdd s key d opID now))"
  using store_wf_FetchAdd[OF assms(1)] by (simp add: scope_alive_def FetchAdd_state[OF assms(2)] touched_scope_def)

section \<open>Replaying a resolution\<close>

text \<open>No round-robin client of the runtime registry is left to a random choice.\<close>

definition starts_given :: "client_registry option \<Rightarrow> bool" where
  "starts_given reg \<longleftrightarrow>
     (\<forall>n rc. findRuntimeClient reg n = Some rc \<longrightarrow> fst (snd (inspectStartOverride (cp_Options rc))))"

text \<open>
  What a retry of a request relies on: an advancer remembers the ticket that it drew for a client, and
  answers from it again.
\<close>

locale replay_advancer = rr_advancer +
  fixes ticket :: "'a \<Rightarrow> string \<rightharpoonup> 64 word"
    and index :: "64 word \<Rightarrow> int \<Rightarrow> int"
  assumes adv_ticket: "inv st \<Longrightarrow> 0 < n \<Longrightarrow> adv st name n = (Inr i, st') \<Longrightarrow>
      \<exists>t. ticket st' name = Some t \<and> i = index t n"
    and adv_keeps: "inv st \<Longrightarrow> ticket st \<subseteq>\<^sub>m ticket (snd (adv st name n))"
begin

text \<open>The choice of an index keeps what was drawn, and repeats it later.\<close>

lemma selectIndex_keeps:
  assumes "starts_given reg" "inv st" "selectIndex rnd (Some adv) reg name n st = (r, st1)"
  shows "ticket st \<subseteq>\<^sub>m ticket st1 \<and> inv st1"
proof (cases "findRuntimeClient reg name")
  case None
  then have "adv st name n = (r, st1)" using assms(3) by (simp add: selectIndex_def isDynamicRRClient_def)
  then show ?thesis using adv_keeps[OF assms(2), of name n] adv_inv[OF assms(2), of name n] by simp
next
  case (Some rc)
  then have "fst (snd (inspectStartOverride (cp_Options rc)))" using assms(1) by (simp add: starts_given_def)
  then show ?thesis using Some assms
    by (cases "inspectStartOverride (cp_Options rc)")
      (auto simp: selectIndex_def isDynamicRRClient_def Let_def split: if_splits)
qed

lemma selectIndex_replay:
  assumes "starts_given reg" "0 < n" "inv st" "inv st2"
    and "selectIndex rnd (Some adv) reg name n st = (Inr i, st1)" "ticket st1 \<subseteq>\<^sub>m ticket st2"
    and "selectIndex rnd (Some adv) reg name n st2 = (Inr j, st3)"
  shows "j = i"
proof (cases "findRuntimeClient reg name")
  case None
  then have a: "adv st name n = (Inr i, st1)" "adv st2 name n = (Inr j, st3)"
    using assms by (simp_all add: selectIndex_def isDynamicRRClient_def)
  obtain t where t: "ticket st1 name = Some t" "i = index t n" using adv_ticket[OF assms(3,2) a(1)] by blast
  obtain u where u: "ticket st3 name = Some u" "j = index u n" using adv_ticket[OF assms(4,2) a(2)] by blast
  have "ticket st1 \<subseteq>\<^sub>m ticket st3" using assms(6) adv_keeps[OF assms(4), of name n] a(2) by (simp add: map_le_trans)
  then have "t = u" using t u by (metis domI map_le_def option.inject)
  then show ?thesis using t u by simp
next
  case (Some rc)
  then have "fst (snd (inspectStartOverride (cp_Options rc)))" using assms(1) by (simp add: starts_given_def)
  then show ?thesis using Some assms
    by (cases "inspectStartOverride (cp_Options rc)")
      (auto simp: selectIndex_def isDynamicRRClient_def Let_def split: if_splits)
qed

definition replayable :: "'a resolve_input \<Rightarrow> bool" where
  "replayable inp \<longleftrightarrow> starts_given (in_Registry inp) \<and> in_Advancer inp = Some adv"

lemma Resolve_body_choice:
  assumes "Resolve_body rnd inp current info st = (Inr (selected, info'), st1)" "replayable inp"
  obtains i where
    "selectIndex rnd (Some adv) (in_Registry inp) current (int (length (chain_of inp current))) st = (Inr i, st1)"
    "0 < int (length (chain_of inp current))" "selected = chain_of inp current ! nat i"
    "info' = (case info of Some k \<Rightarrow> Some k | None \<Rightarrow> Some \<lparr>ri_Name = current,
       ri_Children = chain_of inp current, ri_Index = i, ri_Selected = selected\<rparr>)"
  using assms by (elim Resolve_body_next) (cases "chain_of inp current = []"; simp add: replayable_def)

lemma Resolve_body_keeps:
  assumes "Resolve_body rnd inp current info st = (Inr x, st1)" "replayable inp" "inv st"
  shows "ticket st \<subseteq>\<^sub>m ticket st1 \<and> inv st1"
proof -
  obtain selected info' where x: "x = (selected, info')" by force
  show ?thesis
    using Resolve_body_choice[OF assms(1)[unfolded x] assms(2)] selectIndex_keeps assms(2,3)
    unfolding replayable_def by metis
qed

lemma Resolve_loop_keeps:
  assumes "Resolve_loop rnd inp seen current info st = (Inr res, st1)" "replayable inp" "inv st"
  shows "ticket st \<subseteq>\<^sub>m ticket st1 \<and> inv st1"
  using assms
proof (induction rnd inp seen current info st rule: Resolve_loop.induct)
  case (1 rnd inp seen current info st)
  have ns: "current \<notin> set seen" using "1.prems"(1) by (auto simp: Resolve_loop.simps)
  obtain y s1 where b: "Resolve_body rnd inp current info st = (y, s1)" by force
  show ?case
  proof (cases y)
    case (Inl r)
    then have "r = Inr res" "s1 = st1" using "1.prems"(1) ns b by (auto simp: Resolve_loop.simps)
    then show ?thesis using b Inl Resolve_body_done[of rnd inp current info st res s1] "1.prems"(3) by simp
  next
    case (Inr p)
    obtain selected info' where p: "p = (selected, info')" by force
    have l: "Resolve_loop rnd inp (current # seen) selected info' s1 = (Inr res, st1)"
      using "1.prems"(1) ns b Inr p by (simp add: Resolve_loop.simps[of _ _ seen])
    have k: "ticket st \<subseteq>\<^sub>m ticket s1 \<and> inv s1"
      using Resolve_body_keeps[of rnd inp current info st p s1] b Inr "1.prems"(2,3) by simp
    then show ?thesis
      using "1.IH"[OF ns b[symmetric] Inr p[symmetric] l "1.prems"(2)] by (blast intro: map_le_trans)
  qed
qed

lemma Resolve_loop_replay:
  assumes "Resolve_loop rnd inp seen current info st = (Inr res, st1)" "replayable inp" "inv st" "inv st2"
    and "ticket st1 \<subseteq>\<^sub>m ticket st2" "Resolve_loop rnd inp seen current info st2 = (Inr res2, st3)"
  shows "res2 = res"
  using assms
proof (induction rnd inp seen current info st arbitrary: st2 rule: Resolve_loop.induct)
  case (1 rnd inp seen current info st)
  have ns: "current \<notin> set seen" using "1.prems"(1) by (auto simp: Resolve_loop.simps)
  obtain y s1 where b: "Resolve_body rnd inp current info st = (y, s1)" by force
  obtain z s2 where c: "Resolve_body rnd inp current info st2 = (z, s2)" by force
  show ?case
  proof (cases "IsRoundRobinProvider (rr_provider inp current)")
    case False
    then show ?thesis using "1.prems"(1,6) ns
      by (auto simp: Resolve_loop.simps[of _ _ seen] Resolve_body_def Let_def)
  next
    case True
    obtain sel1 info1 where y: "y = Inr (sel1, info1)"
      using "1.prems"(1) ns b True Resolve_body_done[of rnd inp current info st res s1]
      by (cases y) (auto simp: Resolve_loop.simps[of _ _ seen])
    obtain sel2 info2 where z: "z = Inr (sel2, info2)"
      using "1.prems"(6) ns c True Resolve_body_done[of rnd inp current info st2 res2 s2]
      by (cases z) (auto simp: Resolve_loop.simps[of _ _ seen])
    have l: "Resolve_loop rnd inp (current # seen) sel1 info1 s1 = (Inr res, st1)"
      using "1.prems"(1) ns b y by (simp add: Resolve_loop.simps[of _ _ seen])
    have l2: "Resolve_loop rnd inp (current # seen) sel2 info2 s2 = (Inr res2, st3)"
      using "1.prems"(6) ns c z by (simp add: Resolve_loop.simps[of _ _ seen])
    have i1: "inv s1" using Resolve_body_keeps[OF b[unfolded y] "1.prems"(2,3)] by blast
    have i2: "ticket st2 \<subseteq>\<^sub>m ticket s2 \<and> inv s2" by (rule Resolve_body_keeps[OF c[unfolded z] "1.prems"(2,4)])
    have s1: "ticket s1 \<subseteq>\<^sub>m ticket st2"
      using Resolve_loop_keeps[OF l "1.prems"(2) i1] "1.prems"(5) by (blast intro: map_le_trans)
    obtain i where i: "selectIndex rnd (Some adv) (in_Registry inp) current (int (length (chain_of inp current))) st = (Inr i, s1)"
      "0 < int (length (chain_of inp current))" "sel1 = chain_of inp current ! nat i"
      "info1 = (case info of Some k \<Rightarrow> Some k | None \<Rightarrow> Some \<lparr>ri_Name = current,
         ri_Children = chain_of inp current, ri_Index = i, ri_Selected = sel1\<rparr>)"
      by (rule Resolve_body_choice[OF b[unfolded y] "1.prems"(2)])
    obtain j where j: "selectIndex rnd (Some adv) (in_Registry inp) current (int (length (chain_of inp current))) st2 = (Inr j, s2)"
      "sel2 = chain_of inp current ! nat j"
      "info2 = (case info of Some k \<Rightarrow> Some k | None \<Rightarrow> Some \<lparr>ri_Name = current,
         ri_Children = chain_of inp current, ri_Index = j, ri_Selected = sel2\<rparr>)"
      by (rule Resolve_body_choice[OF c[unfolded z] "1.prems"(2)])
    have "starts_given (in_Registry inp)" using "1.prems"(2) by (simp add: replayable_def)
    from selectIndex_replay[OF this i(2) "1.prems"(3,4) i(1) s1 j(1)] have "j = i" .
    then have "sel2 = sel1 \<and> info2 = info1" unfolding i(3,4) j(2,3) by (cases info) simp_all
    then show ?thesis
      using "1.IH"[OF ns b[symmetric] y refl l "1.prems"(2) i1, of s2] i2 l2 "1.prems"(5)
      by (blast intro: map_le_trans)
  qed
qed

lemma Resolve_replay:
  assumes "Resolve rnd inp st = (Inr res, st1)" "replayable inp" "inv st" "inv st2"
    and "ticket st1 \<subseteq>\<^sub>m ticket st2" "Resolve rnd inp st2 = (Inr res2, st3)"
  shows "res2 = res"
  using assms Resolve_loop_replay[of rnd inp "[]" "in_ClientName inp" None st res st1 st2 res2 st3]
  by (simp add: Resolve_def split: if_splits)

lemma Resolve_keeps:
  assumes "Resolve rnd inp st = (Inr res, st1)" "replayable inp" "inv st"
  shows "ticket st \<subseteq>\<^sub>m ticket st1 \<and> inv st1"
  using assms Resolve_loop_keeps[of rnd inp "[]" "in_ClientName inp" None st res st1]
  by (auto simp: Resolve_def split: if_splits)

end

section \<open>The advancers keep their contracts\<close>

definition rworld_lawful :: "rworld \<Rightarrow> bool" where
  "rworld_lawful w \<longleftrightarrow> (\<forall>k n. 0 < n \<longrightarrow> 0 \<le> rw_intn w k n \<and> rw_intn w k n < n) \<and>
     (\<forall>k. fst (rw_rpc w k) = None \<longrightarrow> snd (rw_rpc w k)) \<and> store_wf (rw_store w)"

text \<open>\<open>held\<close> is the ticket that the host remembers for a client under an operation id.\<close>

definition held :: "string \<Rightarrow> rworld \<Rightarrow> string \<rightharpoonup> 64 word" where
  "held opID w name = map_of (ss_idem (rw_store w)) (name, opID)"

definition index_of :: "64 word \<Rightarrow> int \<Rightarrow> int" where
  "index_of t n = int_of_uint64 (t mod uint64_of n)"

lemma index_of_range: "0 < n \<Longrightarrow> n \<le> max_int64 \<Longrightarrow> 0 \<le> index_of t n \<and> index_of t n < n"
  by (simp add: index_of_def int_of_uint64_mod)

lemma rworld_lawful_store:
  "rworld_lawful w \<Longrightarrow> rworld_lawful (w\<lparr>rw_calls := c, rw_store := snd (FetchAdd (rw_store w) k d p now)\<rparr>)"
  "rworld_lawful w \<Longrightarrow> rworld_lawful (w\<lparr>rw_calls := c\<rparr>)"
  by (simp_all add: rworld_lawful_def store_wf_FetchAdd)

lemma remote_advance_cases:
  assumes "0 < n" "ra_client r"
  shows "RemoteAdvancer_Advance r w name n =
    (let (err, executed) = rw_rpc w (rw_calls w);
         f = FetchAdd (rw_store w) name 1 (ra_operationID r) (rw_clock w (rw_calls w));
         w' = w\<lparr>rw_calls := Suc (rw_calls w), rw_store := (if executed then snd f else rw_store w)\<rparr>
     in (case err of Some e \<Rightarrow> Inl (RRAdvance (AdvFetchAdd name e)) | None \<Rightarrow> Inr (index_of (fst f) n), w'))"
  using assms by (simp add: RemoteAdvancer_Advance_def index_of_def Let_def split: prod.split option.split)

lemma remote_advance_state:
  "rworld_lawful w \<Longrightarrow> rworld_lawful (snd (RemoteAdvancer_Advance r w name n))"
proof (cases "0 < n \<and> ra_client r")
  case True
  assume "rworld_lawful w"
  then have "rworld_lawful (w\<lparr>rw_calls := c, rw_store := (if b then snd (FetchAdd (rw_store w) k d p now) else rw_store w)\<rparr>)"
    for c b k d p now by (cases b) (simp_all add: rworld_lawful_def store_wf_FetchAdd)
  then show ?thesis using True by (simp add: remote_advance_cases Let_def split: prod.split)
qed (auto simp: RemoteAdvancer_Advance_def)

interpretation remote: rr_advancer "RemoteAdvancer_Advance r" rworld_intn rworld_lawful
proof
  fix w w' name n i e
  show "rworld_lawful w \<Longrightarrow> rworld_lawful (snd (RemoteAdvancer_Advance r w name n))"
    by (rule remote_advance_state)
  show "rworld_lawful w \<Longrightarrow> 0 < n \<Longrightarrow> rworld_lawful (snd (rworld_intn w n))"
    by (simp add: rworld_intn_def rworld_lawful_store)
  show "rworld_lawful w \<Longrightarrow> 0 < n \<Longrightarrow> 0 \<le> fst (rworld_intn w n) \<and> fst (rworld_intn w n) < n"
    by (simp add: rworld_intn_def rworld_lawful_def)
  show "0 \<le> i \<and> i < n" if "0 < n" "n \<le> max_int64" "RemoteAdvancer_Advance r w name n = (Inr i, w')"
    using that index_of_range
    by (cases "ra_client r")
      (auto simp: remote_advance_cases Let_def split: prod.splits option.splits, simp_all add: RemoteAdvancer_Advance_def)
  show "\<exists>a. e = RRAdvance a" if "RemoteAdvancer_Advance r w name n = (Inl e, w')"
    using that by (auto simp: RemoteAdvancer_Advance_def Let_def split: prod.splits option.splits if_splits)
qed

lemma store_advance:
  "0 < n \<Longrightarrow> sa_store a \<Longrightarrow> storeRoundRobinAdvancer_Advance a w name n =
    (let f = FetchAdd (rw_store w) name 1 (sa_operationID a) (rw_clock w (rw_calls w))
     in (Inr (index_of (fst f) n), w\<lparr>rw_calls := Suc (rw_calls w), rw_store := snd f\<rparr>))"
  by (simp add: storeRoundRobinAdvancer_Advance_def index_of_def Let_def split: prod.split)

lemma store_advance_nonpos: "n \<le> 0 \<Longrightarrow> storeRoundRobinAdvancer_Advance a w name n = (Inr 0, w)"
  by (simp add: storeRoundRobinAdvancer_Advance_def)

interpretation hook: total_advancer "NewStoreSharedStateHook True opID" rworld_intn rworld_lawful
proof
  fix w w' name n i e
  show "rworld_lawful w \<Longrightarrow> rworld_lawful (snd (NewStoreSharedStateHook True opID w name n))"
    by (cases "0 < n") (simp_all add: NewStoreSharedStateHook_def store_advance store_advance_nonpos Let_def rworld_lawful_store)
  show "rworld_lawful w \<Longrightarrow> 0 < n \<Longrightarrow> rworld_lawful (snd (rworld_intn w n))"
    by (simp add: rworld_intn_def rworld_lawful_store)
  show "rworld_lawful w \<Longrightarrow> 0 < n \<Longrightarrow> 0 \<le> fst (rworld_intn w n) \<and> fst (rworld_intn w n) < n"
    by (simp add: rworld_intn_def rworld_lawful_def)
  show "0 \<le> i \<and> i < n" if "0 < n" "n \<le> max_int64" "NewStoreSharedStateHook True opID w name n = (Inr i, w')"
    using that index_of_range by (auto simp: NewStoreSharedStateHook_def store_advance Let_def)
  show total: "\<exists>i st'. NewStoreSharedStateHook True opID w name n = (Inr i, st')" for w
    by (cases "0 < n") (simp_all add: NewStoreSharedStateHook_def store_advance store_advance_nonpos Let_def)
  show "\<exists>a. e = RRAdvance a" if "NewStoreSharedStateHook True opID w name n = (Inl e, w')"
    using that total[of w] by simp
qed

lemma FetchAdd_held:
  assumes "opID \<noteq> []"
  shows "held opID w \<subseteq>\<^sub>m held opID (w\<lparr>rw_calls := c, rw_store := snd (FetchAdd (rw_store w) k d opID now)\<rparr>)"
    "held opID (w\<lparr>rw_calls := c, rw_store := snd (FetchAdd (rw_store w) k d opID now)\<rparr>) k =
      Some (fst (FetchAdd (rw_store w) k d opID now))"
  using FetchAdd_value[OF assms, of "rw_store w" k d now]
  by (auto simp: map_le_def held_def FetchAdd_state[OF assms])

text \<open>Over the broker and in process, the advancer of a request with an id replays.\<close>

definition replay_ok :: "string \<Rightarrow> rworld \<Rightarrow> bool" where
  "replay_ok opID w \<longleftrightarrow> opID \<noteq> [] \<and> rworld_lawful w"

interpretation remote_replay:
  replay_advancer "RemoteAdvancer_Advance r" rworld_intn "replay_ok (ra_operationID r)" "held (ra_operationID r)" index_of
proof
  fix w w' name n i e
  show "replay_ok (ra_operationID r) w \<Longrightarrow> replay_ok (ra_operationID r) (snd (RemoteAdvancer_Advance r w name n))"
    by (simp add: replay_ok_def remote.adv_inv)
  show "replay_ok (ra_operationID r) w \<Longrightarrow> 0 < n \<Longrightarrow> replay_ok (ra_operationID r) (snd (rworld_intn w n))"
    by (simp add: replay_ok_def remote.intn_inv)
  show "replay_ok (ra_operationID r) w \<Longrightarrow> 0 < n \<Longrightarrow> 0 \<le> fst (rworld_intn w n) \<and> fst (rworld_intn w n) < n"
    by (simp add: replay_ok_def remote.intn_range)
  show "replay_ok (ra_operationID r) w \<Longrightarrow> 0 < n \<Longrightarrow> n \<le> max_int64 \<Longrightarrow>
      RemoteAdvancer_Advance r w name n = (Inr i, w') \<Longrightarrow> 0 \<le> i \<and> i < n"
    unfolding replay_ok_def using remote.adv_range by blast
  show "replay_ok (ra_operationID r) w \<Longrightarrow> RemoteAdvancer_Advance r w name n = (Inl e, w') \<Longrightarrow> \<exists>a. e = RRAdvance a"
    unfolding replay_ok_def using remote.adv_error by blast
  assume ok: "replay_ok (ra_operationID r) w"
  then have op: "ra_operationID r \<noteq> []" by (simp add: replay_ok_def)
  show "held (ra_operationID r) w \<subseteq>\<^sub>m held (ra_operationID r) (snd (RemoteAdvancer_Advance r w name n))"
    using FetchAdd_held(1)[OF op]
    by (cases "0 < n \<and> ra_client r")
      (auto simp: remote_advance_cases Let_def held_def map_le_def split: prod.split, auto simp: RemoteAdvancer_Advance_def)
  show "\<exists>t. held (ra_operationID r) w' name = Some t \<and> i = index_of t n"
    if a: "0 < n" "RemoteAdvancer_Advance r w name n = (Inr i, w')"
  proof -
    have c: "ra_client r" using a by (cases "ra_client r") (simp_all add: RemoteAdvancer_Advance_def)
    obtain err b where b: "rw_rpc w (rw_calls w) = (err, b)" by force
    have "err = None" "i = index_of (fst (FetchAdd (rw_store w) name 1 (ra_operationID r) (rw_clock w (rw_calls w)))) n"
      using a c b by (cases err; simp add: remote_advance_cases Let_def)+
    moreover from this have "b"
      using ok b by (auto simp: replay_ok_def rworld_lawful_def dest!: spec[of _ "rw_calls w"])
    ultimately show ?thesis using a c b FetchAdd_held(2)[OF op, of w] by (auto simp: remote_advance_cases Let_def)
  qed
qed

interpretation hook_replay:
  replay_advancer "NewStoreSharedStateHook True opID" rworld_intn "replay_ok opID" "held opID" index_of
proof
  fix w w' name n i e
  show "replay_ok opID w \<Longrightarrow> replay_ok opID (snd (NewStoreSharedStateHook True opID w name n))"
    by (simp add: replay_ok_def hook.adv_inv)
  show "replay_ok opID w \<Longrightarrow> 0 < n \<Longrightarrow> replay_ok opID (snd (rworld_intn w n))"
    by (simp add: replay_ok_def hook.intn_inv)
  show "replay_ok opID w \<Longrightarrow> 0 < n \<Longrightarrow> 0 \<le> fst (rworld_intn w n) \<and> fst (rworld_intn w n) < n"
    by (simp add: replay_ok_def hook.intn_range)
  show "replay_ok opID w \<Longrightarrow> 0 < n \<Longrightarrow> n \<le> max_int64 \<Longrightarrow>
      NewStoreSharedStateHook True opID w name n = (Inr i, w') \<Longrightarrow> 0 \<le> i \<and> i < n"
    unfolding replay_ok_def using hook.adv_range by blast
  show "replay_ok opID w \<Longrightarrow> NewStoreSharedStateHook True opID w name n = (Inl e, w') \<Longrightarrow> \<exists>a. e = RRAdvance a"
    unfolding replay_ok_def using hook.adv_error by blast
  assume ok: "replay_ok opID w"
  then have op: "opID \<noteq> []" by (simp add: replay_ok_def)
  show "held opID w \<subseteq>\<^sub>m held opID (snd (NewStoreSharedStateHook True opID w name n))"
    using FetchAdd_held(1)[OF op]
    by (cases "0 < n") (simp_all add: NewStoreSharedStateHook_def store_advance store_advance_nonpos Let_def)
  show "\<exists>t. held opID w' name = Some t \<and> i = index_of t n"
    if "0 < n" "NewStoreSharedStateHook True opID w name n = (Inr i, w')"
    using that FetchAdd_held(2)[OF op] by (auto simp: NewStoreSharedStateHook_def store_advance Let_def)
qed

section \<open>The host store and the in-process coordinator\<close>

fun run_store_advances :: "rworld \<Rightarrow> (string \<times> string \<times> int) list \<Rightarrow> (rr_error + int) list \<times> rworld" where
  "run_store_advances w [] = ([], w)"
| "run_store_advances w ((opID, name, n) # ops) =
     (let (r, w') = NewStoreSharedStateHook True opID w name n;
          (rs, w'') = run_store_advances w' ops
      in (r # rs, w''))"

text \<open>A store and a coordinator stand at the same tickets for the configured clients.\<close>

definition same_tickets :: "string set \<Rightarrow> store \<Rightarrow> coordinator \<Rightarrow> bool" where
  "same_tickets names s c \<longleftrightarrow> (\<forall>m \<in> names. ss_next s m = co_next c m \<and> co_seeded c m \<and>
     (map_of (ss_counters s) m = None \<longrightarrow> (\<forall>k. ss_initialValue s k m = ss_next s m)))"

lemma ss_next_other:
  assumes "map_of (ss_counters s') m = map_of (ss_counters s) m" "ss_initialValue s' = ss_initialValue s"
    and "map_of (ss_counters s) m = None \<longrightarrow> (\<forall>k. ss_initialValue s k m = ss_next s m)"
  shows "ss_next s' m = ss_next s m"
proof (cases "map_of (ss_counters s) m")
  case None
  then have "ss_next s' m = ss_initialValue s (ss_calls s') m"
    using assms(1,2) by (simp add: ss_next_def[of s'] ss_counterFor_def Let_def)
  then show ?thesis using assms(3) None by metis
next
  case (Some v)
  then show ?thesis using assms(1) by (simp add: ss_next_counter)
qed

lemma FetchAdd_fresh:
  assumes "map_of (ss_idem s) (key, opID) = None \<or> opID = []"
  shows "fst (FetchAdd s key d opID now) = ss_next s key"
    "map_of (ss_counters (snd (FetchAdd s key d opID now))) = (map_of (ss_counters s))(key \<mapsto> ss_next s key + d)"
    "ss_initialValue (snd (FetchAdd s key d opID now)) = ss_initialValue s"
  using assms FetchAdd_value[of opID s key d now] FetchAdd_state[of opID s key d now]
  by (cases "opID = []"; simp add: FetchAdd_uncached)+

lemma same_tickets_step:
  assumes "same_tickets names s c" "name \<in> names" "map_of (ss_idem s) (name, opID) = None \<or> opID = []" "0 < n"
  shows "same_tickets names (snd (FetchAdd s name 1 opID now)) (snd (Coordinator_Advance c name n))"
  unfolding same_tickets_def
proof
  fix m assume m: "m \<in> names"
  note fa = FetchAdd_fresh[OF assms(3), of 1 now]
  have seeded: "co_seeded c name" "co_seeded c m" using assms(1,2) m by (simp_all add: same_tickets_def)
  show "ss_next (snd (FetchAdd s name 1 opID now)) m = co_next (snd (Coordinator_Advance c name n)) m \<and>
      co_seeded (snd (Coordinator_Advance c name n)) m \<and>
      (map_of (ss_counters (snd (FetchAdd s name 1 opID now))) m = None \<longrightarrow>
        (\<forall>k. ss_initialValue (snd (FetchAdd s name 1 opID now)) k m = ss_next (snd (FetchAdd s name 1 opID now)) m))"
  proof (cases "m = name")
    case True
    have "map_of (ss_counters (snd (FetchAdd s name 1 opID now))) name = Some (ss_next s name + 1)"
      unfolding fa by simp
    then show ?thesis
      using True assms co_next_Advance[OF assms(4), of c name] by (simp add: same_tickets_def ss_next_counter)
  next
    case False
    have "ss_next (snd (FetchAdd s name 1 opID now)) m = ss_next s m"
      by (rule ss_next_other) (use False assms(1) m in \<open>simp_all add: fa same_tickets_def\<close>)
    then show ?thesis
      using False assms m co_next_other[OF seeded(2) False] by (simp add: same_tickets_def fa)
  qed
qed

lemma FetchAdd_other_idem:
  "(k, p) \<noteq> (key, opID) \<Longrightarrow> map_of (ss_idem (snd (FetchAdd s key d opID now))) (k, p) = map_of (ss_idem s) (k, p)"
  using FetchAdd_state(1)[of opID s key d now] by (cases "opID = []") (auto simp: FetchAdd_uncached)

text \<open>Calls that are each the first for their client under their operation id.\<close>

fun call_ids :: "(string \<times> string \<times> int) list \<Rightarrow> (string \<times> string) list" where
  "call_ids [] = []"
| "call_ids ((opID, name, n) # calls) = (if opID = [] then call_ids calls else (name, opID) # call_ids calls)"

definition fresh_calls :: "store \<Rightarrow> (string \<times> string \<times> int) list \<Rightarrow> bool" where
  "fresh_calls s calls \<longleftrightarrow>
     list_all (\<lambda>(opID, name, n). 0 < n \<and> (opID \<noteq> [] \<longrightarrow> map_of (ss_idem s) (name, opID) = None)) calls \<and>
     distinct (call_ids calls)"

lemma in_call_ids: "(opID, name, n) \<in> set calls \<Longrightarrow> opID \<noteq> [] \<Longrightarrow> (name, opID) \<in> set (call_ids calls)"
  by (induction calls rule: call_ids.induct) auto

lemma fresh_calls_step:
  assumes "fresh_calls s ((opID, name, n) # calls)"
  shows "fresh_calls (snd (FetchAdd s name d opID now)) calls"
proof -
  have "map_of (ss_idem (snd (FetchAdd s name d opID now))) (m, p) = None"
    if "(p, m, k) \<in> set calls" "p \<noteq> []" for p m k
  proof -
    have "(m, p) \<noteq> (name, opID)"
      using in_call_ids[OF that] assms that(2) by (auto simp: fresh_calls_def)
    then show ?thesis using assms that by (auto simp: FetchAdd_other_idem fresh_calls_def list_all_iff)
  qed
  then show ?thesis using assms by (auto simp: fresh_calls_def list_all_iff split: if_splits)
qed

lemma store_runs_as_coordinator:
  assumes "same_tickets names (rw_store w) c" "fresh_calls (rw_store w) calls"
    and "list_all (\<lambda>(opID, name, n). name \<in> names \<and> n \<le> max_int64) calls"
  shows "fst (run_store_advances w calls) = fst (run_advances c (map snd calls))"
  using assms
proof (induction w calls arbitrary: c rule: run_store_advances.induct)
  case (2 w opID name n calls)
  let ?f = "FetchAdd (rw_store w) name 1 opID (rw_clock w (rw_calls w))"
  let ?w = "w\<lparr>rw_calls := Suc (rw_calls w), rw_store := snd ?f\<rparr>"
  have n: "0 < n" "map_of (ss_idem (rw_store w)) (name, opID) = None \<or> opID = []" "name \<in> names" "n \<le> max_int64"
    using 2 by (auto simp: fresh_calls_def)
  have adv: "NewStoreSharedStateHook True opID w name n = (Inr (index_of (ss_next (rw_store w) name) n), ?w)"
    using n FetchAdd_fresh(1)[OF n(2)] by (simp add: NewStoreSharedStateHook_def store_advance Let_def)
  obtain c' where ca: "Coordinator_Advance c name n = (Inr (index_of (ss_next (rw_store w) name) n), c')"
    using Coordinator_Advance_range[OF n(1,4), of c name] n 2(2)
    by (cases "Coordinator_Advance c name n") (auto simp: same_tickets_def index_of_def int_of_uint64_mod)
  have "same_tickets names (rw_store ?w) c'"
    using same_tickets_step[OF 2(2) n(3,2,1), of "rw_clock w (rw_calls w)"] ca by simp
  then show ?case
    using 2(1)[OF adv[symmetric] refl, of c'] fresh_calls_step[OF 2(3)] 2(4)
    by (simp add: adv ca Let_def case_prod_beta)
qed simp

lemma seeded_start:
  assumes "set (map fst starts) = names"
  shows "same_tickets names (newSharedStateStoreWithTTL (Some (pool_initialValue rnd (convertSharedStateSeeds starts))) ttl)
    (NewCoordinatorWithStarts rnd' starts)"
proof -
  have "\<exists>v. map_of (convertSharedStateSeeds starts) m = Some v" if "m \<in> names" for m
    using that assms by (force simp: convertSharedStateSeeds_def map_of_eq_None_iff simp flip: not_None_eq)
  then show ?thesis unfolding same_tickets_def
  proof (intro ballI)
    fix m assume "m \<in> names"
    then obtain v where v: "map_of (convertSharedStateSeeds starts) m = Some v"
      using \<open>\<And>m. m \<in> names \<Longrightarrow> \<exists>v. map_of (convertSharedStateSeeds starts) m = Some v\<close> by blast
    let ?s = "newSharedStateStoreWithTTL (Some (pool_initialValue rnd (convertSharedStateSeeds starts))) ttl"
    have s: "ss_next ?s m = v" "ss_initialValue ?s k m = v" for k
      using v by (simp_all add: newSharedStateStoreWithTTL_def ss_next_def ss_counterFor_def pool_initialValue_def Let_def)
    have c: "map_of (co_starts (NewCoordinatorWithStarts rnd' starts)) m = Some v"
      "map_of (co_counters (NewCoordinatorWithStarts rnd' starts)) m = None"
      using v by (simp_all add: NewCoordinatorWithStarts_def convertSharedStateSeeds_def)
    have "co_next (NewCoordinatorWithStarts rnd' starts) m = v" by (rule co_next_start[OF c(2,1)])
    moreover have "co_seeded (NewCoordinatorWithStarts rnd' starts) m"
      using c(1) by (metis co_seeded_def map_of_None_keys option.distinct(1))
    ultimately show "ss_next ?s m = co_next (NewCoordinatorWithStarts rnd' starts) m \<and>
        co_seeded (NewCoordinatorWithStarts rnd' starts) m \<and>
        (map_of (ss_counters ?s) m = None \<longrightarrow> (\<forall>k. ss_initialValue ?s k m = ss_next ?s m))"
      using s by simp
  qed
qed

section \<open>Properties\<close>

text \<open>C36: (invariant) In every store that operations can reach from a new one, an entry is cached
  exactly if its scope exists and owns its key; dropping a scope reports how many entries it had,
  removes exactly those, and moves no counter.\<close>

theorem store_scope_invariant:
  "let s = fold apply_op ops (newSharedStateStoreWithTTL iv ttl) in
     store_wf s \<and>
     fst (DropScope s opID) = card {k. map_of (ss_idem s) (k, opID) \<noteq> None} \<and>
     (\<forall>k p. map_of (ss_idem (snd (DropScope s opID))) (k, p) =
        (if p = opID then None else map_of (ss_idem s) (k, p))) \<and>
     ss_counters (snd (DropScope s opID)) = ss_counters s"
proof -
  have "store_wf (fold apply_op ops (newSharedStateStoreWithTTL iv ttl))"
    by (rule store_wf_fold[OF store_wf_new])
  from this DropScope_effect[OF this, of opID] show ?thesis by (simp add: Let_def)
qed

text \<open>Within the life of its scope, repeating a \<^verbatim>\<open>FetchAdd\<close> under an operation id returns
  the value of the first call and moves no counter, whatever other operations run in between.\<close>

theorem FetchAdd_replay:
  assumes "store_wf s" "opID \<noteq> []" "FetchAdd s key d opID now = (v, s1)"
    and "list_all (keeps_scope (ss_ttl s) opID now) ops"
  shows "fst (FetchAdd (fold apply_op ops s1) key d' opID now') = v \<and>
    map_of (ss_counters (snd (FetchAdd (fold apply_op ops s1) key d' opID now'))) =
    map_of (ss_counters (fold apply_op ops s1))"
proof -
  have s1: "s1 = snd (FetchAdd s key d opID now)" "v = fst (FetchAdd s key d opID now)" using assms(3) by simp_all
  have "map_of (ss_idem (fold apply_op ops s1)) (key, opID) = Some v"
    using fold_keeps[of opID now s1 ops key v] FetchAdd_alive[OF assms(1,2), of now key d] assms(2,4)
    by (simp add: s1 FetchAdd_state[OF assms(2)])
  then show ?thesis by (simp add: FetchAdd_value[OF assms(2)] FetchAdd_state[OF assms(2)])
qed

definition demo_store :: store where
  "demo_store = newSharedStateStoreWithTTL None 10"

theorem FetchAdd_replay_witness:
  "fst (FetchAdd (fold apply_op [OpFetchAdd ''R'' 1 ''q'' 7, OpSweep 12, OpDropScope ''q'']
     (snd (FetchAdd demo_store ''R'' 1 ''r'' 5))) ''R'' 1 ''r'' 20) = 0"
proof -
  have wf: "store_wf demo_store" by (simp add: demo_store_def store_wf_new)
  have "fst (FetchAdd demo_store ''R'' 1 ''r'' 5) = 0" by code_simp
  then have first: "FetchAdd demo_store ''R'' 1 ''r'' 5 = (0, snd (FetchAdd demo_store ''R'' 1 ''r'' 5))"
    by (simp add: prod_eq_iff)
  have "list_all (keeps_scope (ss_ttl demo_store) ''r'' 5) [OpFetchAdd ''R'' 1 ''q'' 7, OpSweep 12, OpDropScope ''q'']"
    by code_simp
  from FetchAdd_replay[OF wf _ first this] show ?thesis by simp
qed

text \<open>C37: (functional) A sweep removes exactly the scopes that were last accessed before the cutoff,
  with their entries, and moves no counter.\<close>

theorem sweepOnce_exact:
  assumes "store_wf s"
  shows "map_of (ss_scopes (sweepOnce s now)) opID =
      (case map_of (ss_scopes s) opID of
         Some sc \<Rightarrow> if sc_lastAccessedNano sc < now - ss_ttl s then None else Some sc
       | None \<Rightarrow> None) \<and>
    map_of (ss_idem (sweepOnce s now)) (k, opID) =
      (if map_of (ss_scopes (sweepOnce s now)) opID = None then None else map_of (ss_idem s) (k, opID)) \<and>
    ss_counters (sweepOnce s now) = ss_counters s"
proof -
  have "opID \<in> set (map fst (ss_scopes s))" if "map_of (ss_scopes s) opID = Some sc" for sc
    using map_of_SomeD[OF that] by force
  then have "kept_scopes (now - ss_ttl s) s (map fst (ss_scopes s)) opID =
      (case map_of (ss_scopes s) opID of
         Some sc \<Rightarrow> if sc_lastAccessedNano sc < now - ss_ttl s then None else Some sc | None \<Rightarrow> None)"
    by (auto simp: kept_scopes_def split: option.split)
  then show ?thesis
    using sweep_range_effect[OF assms, of "now - ss_ttl s" "map fst (ss_scopes s)" opID k]
    by (simp add: sweepOnce_def)
qed

theorem sweepOnce_exact_witness:
  "map_of (ss_scopes (sweepOnce (snd (FetchAdd demo_store ''R'' 1 ''r'' 5)) 16)) ''r'' = None"
proof -
  have wf: "store_wf (snd (FetchAdd demo_store ''R'' 1 ''r'' 5))"
    by (simp add: demo_store_def store_wf_new store_wf_FetchAdd)
  have "map_of (ss_scopes (snd (FetchAdd demo_store ''R'' 1 ''r'' 5))) ''r'' =
      Some \<lparr>sc_keys = [''R''], sc_lastAccessedNano = 5\<rparr>" "ss_ttl (snd (FetchAdd demo_store ''R'' 1 ''r'' 5)) = 10"
    by code_simp+
  then show ?thesis using sweepOnce_exact[OF wf, of 16 "''r''"] by simp
qed

text \<open>C35: (safety) Retrying a request resolves to the same client: when a worker resolved a request
  with an id over the shared state, and later, after any other operations that leave the request's
  scope in place and whatever calls over the broker failed in between, a worker resolves it again,
  a successful second resolution selects the same client and reports the same choice. The registry
  may not leave a round-robin client to a random choice.\<close>

theorem retry_resolves_same:
  assumes "Resolve rnd inp w = (Inr res, w1)" "Resolve rnd inp w2 = (Inr res2, w3)"
    and "in_Advancer inp = Some (RemoteAdvancer_Advance r)" "starts_given (in_Registry inp)"
    and "replay_ok (ra_operationID r) w" "rworld_lawful w2"
    and "rw_store w2 = fold apply_op ops (rw_store w1)" "scope_alive (ra_operationID r) t (rw_store w1)"
    and "list_all (keeps_scope (ss_ttl (rw_store w1)) (ra_operationID r) t) ops"
  shows "res2 = res"
proof -
  have rep: "remote_replay.replayable r inp" using assms(3,4) by (simp add: remote_replay.replayable_def)
  have op: "ra_operationID r \<noteq> []" using assms(5) by (simp add: replay_ok_def)
  have "held (ra_operationID r) w1 \<subseteq>\<^sub>m held (ra_operationID r) w2"
    using fold_keeps[OF assms(8,9) op] assms(7) by (auto simp: map_le_def held_def)
  then show ?thesis
    using remote_replay.Resolve_replay[OF assms(1) rep assms(5) _ _ assms(2)] assms(6) op by (simp add: replay_ok_def)
qed

definition demo_rworld :: rworld where
  "demo_rworld = \<lparr>rw_store = demo_store, rw_clock = (\<lambda>k. int k), rw_intn = (\<lambda>k n. 0), rw_rpc = (\<lambda>k. (None, True)),
     rw_calls = 0\<rparr>"

definition demo_remote_input :: "rworld resolve_input" where
  "demo_remote_input = \<lparr>in_ClientName = ''R'', in_Registry = None, in_FallbackChains = [(''R'', [''A'', ''B''])],
     in_ClientProviders = [(''R'', ''round-robin''), (''A'', ''openai''), (''B'', ''openai'')],
     in_Advancer = Some (RemoteAdvancer_Advance (NewRemoteAdvancer True ''r''))\<rparr>"

theorem retry_resolves_same_witness:
  "fst (Resolve rworld_intn demo_remote_input
     ((snd (Resolve rworld_intn demo_remote_input demo_rworld))
        \<lparr>rw_store := apply_op (OpFetchAdd ''R'' 1 ''q'' 3) (rw_store (snd (Resolve rworld_intn demo_remote_input demo_rworld)))\<rparr>))
   = fst (Resolve rworld_intn demo_remote_input demo_rworld)"
proof -
  let ?r = "NewRemoteAdvancer True ''r''"
  let ?res = "\<lparr>rs_Selected = ''A'', rs_Info = Some \<lparr>ri_Name = ''R'', ri_Children = [''A'', ''B''], ri_Index = 0, ri_Selected = ''A''\<rparr>\<rparr>"
  define w1 where "w1 = snd (Resolve rworld_intn demo_remote_input demo_rworld)"
  define w2 where "w2 = w1\<lparr>rw_store := apply_op (OpFetchAdd ''R'' 1 ''q'' 3) (rw_store w1)\<rparr>"
  have "fst (Resolve rworld_intn demo_remote_input demo_rworld) = Inr ?res" by code_simp
  then have r1: "Resolve rworld_intn demo_remote_input demo_rworld = (Inr ?res, w1)" by (simp add: w1_def prod_eq_iff)
  have "\<not> isl (fst (Resolve rworld_intn demo_remote_input w2))" unfolding w2_def w1_def by code_simp
  then obtain res2 w3 where r2: "Resolve rworld_intn demo_remote_input w2 = (Inr res2, w3)"
    by (metis prod.collapse sum.collapse(2))
  have ok: "replay_ok (ra_operationID ?r) demo_rworld"
    by (simp add: replay_ok_def rworld_lawful_def demo_rworld_def demo_store_def store_wf_new NewRemoteAdvancer_def)
  have l1: "rworld_lawful w1"
    using remote_replay.Resolve_keeps[OF r1 _ ok]
    by (simp add: remote_replay.replayable_def demo_remote_input_def starts_given_def findRuntimeClient_def replay_ok_def)
  have sc: "map_of (ss_scopes (rw_store w1)) ''r'' = Some \<lparr>sc_keys = [''R''], sc_lastAccessedNano = 0\<rparr>"
    unfolding w1_def by code_simp
  have "res2 = ?res"
    by (rule retry_resolves_same[OF r1 r2 _ _ ok, of "[OpFetchAdd ''R'' 1 ''q'' 3]" 0])
      (use l1 sc in \<open>simp_all add: demo_remote_input_def starts_given_def findRuntimeClient_def w2_def
        rworld_lawful_def store_wf_FetchAdd scope_alive_def NewRemoteAdvancer_def\<close>)
  then have "fst (Resolve rworld_intn demo_remote_input w2) = fst (Resolve rworld_intn demo_remote_input demo_rworld)"
    unfolding r1 r2 by simp
  then show ?thesis by (simp add: w1_def w2_def)
qed

text \<open>C34: (refinement) The shared store rotates like the in-process coordinator: started from the
  same configured \<^verbatim>\<open>start\<close> values, the calls of any requests, each the first for its client under its
  operation id, return what the coordinator returns for the same sequence of calls.\<close>

theorem store_refines_coordinator:
  assumes "fresh_calls (rw_store w) calls"
    and "rw_store w = NewSharedStateStore (Some (pool_initialValue rnd (convertSharedStateSeeds starts)))"
    and "list_all (\<lambda>(opID, name, n). name \<in> set (map fst starts) \<and> n \<le> max_int64) calls"
  shows "fst (run_store_advances w calls) =
    fst (run_advances (NewCoordinatorWithStarts rnd' starts) (map snd calls))"
  using store_runs_as_coordinator[OF _ assms(1) assms(3)] seeded_start[OF refl, of starts rnd defaultIdemTTL rnd'] assms(2)
  by (simp add: NewSharedStateStore_def)

theorem store_refines_coordinator_witness:
  "fst (run_store_advances
      (demo_rworld\<lparr>rw_store := NewSharedStateStore (Some (pool_initialValue (\<lambda>_. 0) (convertSharedStateSeeds [(''R'', - 1)])))\<rparr>)
      [(''r'', ''R'', 3), (''q'', ''R'', 3)]) =
   fst (run_advances (NewCoordinatorWithStarts (\<lambda>_. 0) [(''R'', - 1)]) [(''R'', 3), (''R'', 3)])"
proof -
  let ?w = "demo_rworld\<lparr>rw_store := NewSharedStateStore (Some (pool_initialValue (\<lambda>_. 0) (convertSharedStateSeeds [(''R'', - 1)])))\<rparr>"
  have "fresh_calls (rw_store ?w) [(''r'', ''R'', 3), (''q'', ''R'', 3)]" by code_simp
  from store_refines_coordinator[OF this, of "\<lambda>_. 0" "[(''R'', - 1)]" "\<lambda>_. 0"] show ?thesis
    by (simp add: max_int64_def)
qed

end
