(* ===== verification/Shared_State_Concurrent.thy ===== *)
theory Shared_State_Concurrent
  imports Shared_State
begin

text \<open>
  \<^verbatim>\<open>workerplugin/sharedstate.go\<close> again, with the operations of concurrent goroutines interleaved. A
  thread runs one operation; a step of a thread is one access to a \<^verbatim>\<open>sync.Map\<close>, an atomic or a
  \<^verbatim>\<open>sync.Once\<close>, the acquisition of a scope's mutex, or a stretch of accesses to what the held mutex
  protects. Pointers are indices into heaps that only grow.

  Each step gets a number, the answer to the choices that the code leaves open: the value of the
  initial-value callback, the next key of a map that is ranged over, and when \<^verbatim>\<open>sync.Map.Range\<close> ends,
  since it need not visit keys that are stored meanwhile.
\<close>

section \<open>State\<close>

text \<open>\<open>cs_owner\<close> is a history variable, the operation id that the scope was created for.\<close>

record cscope =
  cs_owner :: string
  cs_keys :: "string list"
  cs_lastAccessedNano :: int
  cs_deleted :: bool
  cs_mu :: bool

datatype once_state = OnceNew | OnceRunning | OnceDone

record idem_entry =
  ie_once :: once_state
  ie_previous :: "64 word"

text \<open>\<open>ct_adds\<close> is a history variable, the additions made so far: the key and the operation id, the entry
  on whose behalf, the amount and the value returned.\<close>

type_synonym addition = "string \<times> string \<times> nat option \<times> 64 word \<times> 64 word"

record cstore =
  ct_counters :: "(string \<times> 64 word) list"
  ct_idem :: "((string \<times> string) \<times> nat) list"
  ct_scopes :: "(string \<times> nat) list"
  ct_scope_heap :: "cscope list"
  ct_entry_heap :: "idem_entry list"
  ct_ttl :: int
  ct_adds :: "addition list"

definition new_cstore :: "int \<Rightarrow> cstore" where
  "new_cstore ttl = \<lparr>ct_counters = [], ct_idem = [], ct_scopes = [], ct_scope_heap = [], ct_entry_heap = [],
     ct_ttl = ttl, ct_adds = []\<rparr>"

abbreviation scope_at :: "cstore \<Rightarrow> nat \<Rightarrow> cscope" where
  "scope_at st sid \<equiv> ct_scope_heap st ! sid"

abbreviation entry_at :: "cstore \<Rightarrow> nat \<Rightarrow> idem_entry" where
  "entry_at st e \<equiv> ct_entry_heap st ! e"

definition upd_scope :: "nat \<Rightarrow> (cscope \<Rightarrow> cscope) \<Rightarrow> cstore \<Rightarrow> cstore" where
  "upd_scope sid f st = st\<lparr>ct_scope_heap := (ct_scope_heap st)[sid := f (scope_at st sid)]\<rparr>"

definition upd_entry :: "nat \<Rightarrow> idem_entry \<Rightarrow> cstore \<Rightarrow> cstore" where
  "upd_entry e x st = st\<lparr>ct_entry_heap := (ct_entry_heap st)[e := x]\<rparr>"

text \<open>The program counters, with the locals of the operation.\<close>

datatype pc =
    Start
  | RL_load
  | RL_store
  | RL_touch nat
  | RL_lock nat
  | RL_check nat
  | RL_idem nat
  | RL_idem_store nat
  | RL_unlock nat nat
  | FA_once nat
  | FA_counter "nat option"
  | FA_counter_store "nat option"
  | FA_add "nat option"
  | FA_publish nat "64 word"
  | FA_read nat
  | DS_lock nat
  | DS_mark nat
  | DS_delete nat "string list" nat
  | SW_range "string list"
  | SW_probe "string list" string nat
  | SW_lock "string list" string nat
  | SW_recheck "string list" string nat
  | SW_unlink "string list" string nat
  | SW_delete "string list" string nat "string list"
  | RetVal "64 word"
  | RetDropped nat
  | RetSwept

section \<open>The steps of the operations\<close>

text \<open>No result: the thread is blocked, or has returned.\<close>

fun fetch_step :: "string \<Rightarrow> 64 word \<Rightarrow> string \<Rightarrow> int \<Rightarrow> pc \<Rightarrow> 64 word \<Rightarrow> cstore \<Rightarrow> (pc \<times> cstore) option" where
  "fetch_step key delta opID now Start c st = Some (if opID = [] then FA_counter None else RL_load, st)"
| "fetch_step key delta opID now RL_load c st =
     Some (case map_of (ct_scopes st) opID of Some sid \<Rightarrow> RL_touch sid | None \<Rightarrow> RL_store, st)"
| "fetch_step key delta opID now RL_store c st =
     Some (case map_of (ct_scopes st) opID of
        Some sid \<Rightarrow> (RL_touch sid, st)
      | None \<Rightarrow>
          (let sid = length (ct_scope_heap st)
           in (RL_touch sid, st\<lparr>ct_scope_heap := ct_scope_heap st @
                 [\<lparr>cs_owner = opID, cs_keys = [], cs_lastAccessedNano = 0, cs_deleted = False, cs_mu = False\<rparr>],
               ct_scopes := AList.update opID sid (ct_scopes st)\<rparr>)))"
| "fetch_step key delta opID now (RL_touch sid) c st =
     Some (RL_lock sid, upd_scope sid (cs_lastAccessedNano_update (\<lambda>_. now)) st)"
| "fetch_step key delta opID now (RL_lock sid) c st =
     (if cs_mu (scope_at st sid) then None else Some (RL_check sid, upd_scope sid (cs_mu_update (\<lambda>_. True)) st))"
| "fetch_step key delta opID now (RL_check sid) c st =
     (if cs_deleted (scope_at st sid) then Some (RL_load, upd_scope sid (cs_mu_update (\<lambda>_. False)) st)
      else Some (RL_idem sid, upd_scope sid (cs_keys_update (List.insert key)) st))"
| "fetch_step key delta opID now (RL_idem sid) c st =
     Some (case map_of (ct_idem st) (key, opID) of Some e \<Rightarrow> RL_unlock sid e | None \<Rightarrow> RL_idem_store sid, st)"
| "fetch_step key delta opID now (RL_idem_store sid) c st =
     Some (case map_of (ct_idem st) (key, opID) of
        Some e \<Rightarrow> (RL_unlock sid e, st)
      | None \<Rightarrow>
          (let e = length (ct_entry_heap st)
           in (RL_unlock sid e, st\<lparr>ct_entry_heap := ct_entry_heap st @ [\<lparr>ie_once = OnceNew, ie_previous = 0\<rparr>],
                 ct_idem := AList.update (key, opID) e (ct_idem st)\<rparr>)))"
| "fetch_step key delta opID now (RL_unlock sid e) c st =
     Some (FA_once e, upd_scope sid (cs_mu_update (\<lambda>_. False)) st)"
| "fetch_step key delta opID now (FA_once e) c st =
     (case ie_once (entry_at st e) of
        OnceNew \<Rightarrow> Some (FA_counter (Some e), upd_entry e ((entry_at st e)\<lparr>ie_once := OnceRunning\<rparr>) st)
      | OnceRunning \<Rightarrow> None
      | OnceDone \<Rightarrow> Some (FA_read e, st))"
| "fetch_step key delta opID now (FA_counter eo) c st =
     Some (if map_of (ct_counters st) key = None then FA_counter_store eo else FA_add eo, st)"
| "fetch_step key delta opID now (FA_counter_store eo) c st =
     Some (FA_add eo,
       if map_of (ct_counters st) key = None then st\<lparr>ct_counters := AList.update key c (ct_counters st)\<rparr> else st)"
| "fetch_step key delta opID now (FA_add eo) c st =
     (case map_of (ct_counters st) key of
        None \<Rightarrow> None
      | Some v \<Rightarrow>
          (let v' = v + delta;
               previous = v' - delta;
               st = st\<lparr>ct_counters := AList.update key v' (ct_counters st),
                       ct_adds := ct_adds st @ [(key, opID, eo, delta, previous)]\<rparr>
           in Some (case eo of None \<Rightarrow> RetVal previous | Some e \<Rightarrow> FA_publish e previous, st)))"
| "fetch_step key delta opID now (FA_publish e previous) c st =
     Some (FA_read e, upd_entry e \<lparr>ie_once = OnceDone, ie_previous = previous\<rparr> st)"
| "fetch_step key delta opID now (FA_read e) c st = Some (RetVal (ie_previous (entry_at st e)), st)"
| "fetch_step key delta opID now _ c st = None"

fun drop_step :: "string \<Rightarrow> pc \<Rightarrow> 64 word \<Rightarrow> cstore \<Rightarrow> (pc \<times> cstore) option" where
  "drop_step opID Start c st =
     Some (if opID = [] then (RetDropped 0, st)
           else (case map_of (ct_scopes st) opID of
                   None \<Rightarrow> (RetDropped 0, st)
                 | Some sid \<Rightarrow> (DS_lock sid, st\<lparr>ct_scopes := AList.delete opID (ct_scopes st)\<rparr>)))"
| "drop_step opID (DS_lock sid) c st =
     (if cs_mu (scope_at st sid) then None else Some (DS_mark sid, upd_scope sid (cs_mu_update (\<lambda>_. True)) st))"
| "drop_step opID (DS_mark sid) c st =
     Some (DS_delete sid (cs_keys (scope_at st sid)) (length (cs_keys (scope_at st sid))),
           upd_scope sid (cs_deleted_update (\<lambda>_. True)) st)"
| "drop_step opID (DS_delete sid ks released) c st =
     Some (if ks = []
           then (RetDropped released, upd_scope sid (\<lambda>sc. sc\<lparr>cs_keys := [], cs_mu := False\<rparr>) st)
           else (let k = ks ! (unat c mod length ks)
                 in (DS_delete sid (remove1 k ks) released,
                     st\<lparr>ct_idem := AList.delete (k, opID) (ct_idem st)\<rparr>)))"
| "drop_step opID _ c st = None"

fun sweep_step :: "int \<Rightarrow> pc \<Rightarrow> 64 word \<Rightarrow> cstore \<Rightarrow> (pc \<times> cstore) option" where
  "sweep_step now Start c st = Some (SW_range [], st)"
| "sweep_step now (SW_range visited) c st =
     Some (let pending = filter (\<lambda>(opID, sid). opID \<notin> set visited) (ct_scopes st)
           in if unat c < length pending
              then (let (opID, sid) = pending ! unat c in SW_probe visited opID sid) else RetSwept, st)"
| "sweep_step now (SW_probe visited opID sid) c st =
     Some (if cs_lastAccessedNano (scope_at st sid) \<ge> now - ct_ttl st then SW_range (opID # visited)
           else SW_lock visited opID sid, st)"
| "sweep_step now (SW_lock visited opID sid) c st =
     (if cs_mu (scope_at st sid) then None
      else Some (SW_recheck visited opID sid, upd_scope sid (cs_mu_update (\<lambda>_. True)) st))"
| "sweep_step now (SW_recheck visited opID sid) c st =
     Some (if cs_lastAccessedNano (scope_at st sid) \<ge> now - ct_ttl st
           then (SW_range (opID # visited), upd_scope sid (cs_mu_update (\<lambda>_. False)) st)
           else (SW_unlink visited opID sid, upd_scope sid (cs_deleted_update (\<lambda>_. True)) st))"
| "sweep_step now (SW_unlink visited opID sid) c st =
     Some (SW_delete visited opID sid (cs_keys (scope_at st sid)),
           st\<lparr>ct_scopes := AList.delete opID (ct_scopes st)\<rparr>)"
| "sweep_step now (SW_delete visited opID sid ks) c st =
     Some (if ks = []
           then (SW_range (opID # visited), upd_scope sid (\<lambda>sc. sc\<lparr>cs_keys := [], cs_mu := False\<rparr>) st)
           else (let k = ks ! (unat c mod length ks)
                 in (SW_delete visited opID sid (remove1 k ks),
                     st\<lparr>ct_idem := AList.delete (k, opID) (ct_idem st)\<rparr>)))"
| "sweep_step now _ c st = None"

fun thread_step :: "store_op \<Rightarrow> pc \<Rightarrow> 64 word \<Rightarrow> cstore \<Rightarrow> (pc \<times> cstore) option" where
  "thread_step (OpFetchAdd key delta opID now) p c st = fetch_step key delta opID now p c st"
| "thread_step (OpDropScope opID) p c st = drop_step opID p c st"
| "thread_step (OpSweep now) p c st = sweep_step now p c st"

text \<open>The threads together: a state is the store with the program counter of each thread.\<close>

type_synonym system = "cstore \<times> pc list"

definition sys_step :: "store_op list \<Rightarrow> nat \<times> 64 word \<Rightarrow> system \<Rightarrow> system option" where
  "sys_step ops = (\<lambda>(i, c) (st, pcs).
     if i < length pcs
     then (case thread_step (ops ! i) (pcs ! i) c st of
             None \<Rightarrow> None
           | Some (p, st') \<Rightarrow> Some (st', pcs[i := p]))
     else None)"

definition sys_init :: "int \<Rightarrow> store_op list \<Rightarrow> system" where
  "sys_init ttl ops = (new_cstore ttl, replicate (length ops) Start)"

inductive reachable :: "int \<Rightarrow> store_op list \<Rightarrow> system \<Rightarrow> bool" for ttl ops where
  init: "reachable ttl ops (sys_init ttl ops)"
| step: "reachable ttl ops s \<Longrightarrow> sys_step ops x s = Some s' \<Longrightarrow> reachable ttl ops s'"

fun run_schedule :: "store_op list \<Rightarrow> (nat \<times> 64 word) list \<Rightarrow> system \<Rightarrow> system option" where
  "run_schedule ops [] s = Some s"
| "run_schedule ops (x # xs) s = (case sys_step ops x s of None \<Rightarrow> None | Some s' \<Rightarrow> run_schedule ops xs s')"

fun returned :: "pc \<Rightarrow> bool" where
  "returned (RetVal v) = True"
| "returned (RetDropped n) = True"
| "returned RetSwept = True"
| "returned _ = False"

lemma run_schedule_reachable:
  "reachable ttl ops s \<Longrightarrow> run_schedule ops xs s = Some s' \<Longrightarrow> reachable ttl ops s'"
  by (induction xs arbitrary: s) (auto split: option.splits intro: reachable.step)

section \<open>Exclusive resources\<close>

lemma sys_stepE:
  assumes "sys_step ops x (st, pcs) = Some s'"
  obtains i c p' st' where "x = (i, c)" "i < length pcs" "thread_step (ops ! i) (pcs ! i) c st = Some (p', st')"
    "s' = (st', pcs[i := p'])"
  using assms by (cases x) (auto simp: sys_step_def split: if_splits option.splits)

lemma reachable_length: "reachable ttl ops s \<Longrightarrow> length (snd s) = length ops"
proof (induction rule: reachable.induct)
  case (step s x s')
  then show ?case by (cases s) (auto elim!: sys_stepE)
qed (simp add: sys_init_def)

text \<open>
  A mutex and a \<^verbatim>\<open>sync.Once\<close> are alike: resources of the store, each busy or free, that a thread owns
  from one of its steps to another. The laws say that a step acquires a free resource, releases the
  one the thread owns, or does neither; then a busy resource has exactly one owner.
\<close>

locale exclusive =
  fixes owns :: "pc \<Rightarrow> nat option"
    and busy :: "cstore \<Rightarrow> nat \<Rightarrow> bool"
    and amount :: "cstore \<Rightarrow> nat"
    and valid :: "cstore \<Rightarrow> pc \<Rightarrow> bool"
  assumes owns_Start: "owns Start = None"
    and amount_new: "amount (new_cstore ttl) = 0"
    and amount_grows: "thread_step x p c st = Some (p', st') \<Longrightarrow> amount st \<le> amount st'"
    and new_free: "thread_step x p c st = Some (p', st') \<Longrightarrow> amount st \<le> r \<Longrightarrow> r < amount st' \<Longrightarrow> \<not> busy st' r"
    and owns_valid: "valid st p \<Longrightarrow> owns p = Some r \<Longrightarrow> r < amount st"
    and step_kind: "thread_step x p c st = Some (p', st') \<Longrightarrow> valid st p \<Longrightarrow>
      (owns p' = owns p \<and> (\<forall>r < amount st. busy st' r = busy st r)) \<or>
      (\<exists>r < amount st. owns p = None \<and> owns p' = Some r \<and> \<not> busy st r \<and>
         (\<forall>q < amount st. busy st' q = (q = r \<or> busy st q))) \<or>
      (\<exists>r. owns p = Some r \<and> owns p' = None \<and> (\<forall>q < amount st. busy st' q = (q \<noteq> r \<and> busy st q)))"
begin

definition excl_inv :: "system \<Rightarrow> bool" where
  "excl_inv = (\<lambda>(st, pcs).
     (\<forall>i < length pcs. \<forall>r. owns (pcs ! i) = Some r \<longrightarrow> r < amount st \<and> busy st r) \<and>
     (\<forall>r < amount st. busy st r \<longrightarrow> (\<exists>i < length pcs. owns (pcs ! i) = Some r)) \<and>
     (\<forall>i < length pcs. \<forall>j < length pcs. \<forall>r. owns (pcs ! i) = Some r \<longrightarrow> owns (pcs ! j) = Some r \<longrightarrow> i = j))"

lemma excl_invD:
  assumes "excl_inv (st, pcs)"
  shows "i < length pcs \<Longrightarrow> owns (pcs ! i) = Some r \<Longrightarrow> r < amount st \<and> busy st r"
    "r < amount st \<Longrightarrow> busy st r \<Longrightarrow> \<exists>i < length pcs. owns (pcs ! i) = Some r"
    "i < length pcs \<Longrightarrow> j < length pcs \<Longrightarrow> owns (pcs ! i) = Some r \<Longrightarrow> owns (pcs ! j) = Some r \<Longrightarrow> i = j"
  using assms unfolding excl_inv_def prod.case by blast+

lemma excl_init: "excl_inv (sys_init ttl ops)"
  by (simp add: excl_inv_def sys_init_def owns_Start amount_new)

text \<open>After a step that makes the moving thread own \<open>o'\<close>.\<close>

lemma excl_update:
  assumes inv: "excl_inv (st, pcs)" and i: "i < length pcs" and grows: "amount st \<le> amount st'"
    and new: "\<And>r. amount st \<le> r \<Longrightarrow> r < amount st' \<Longrightarrow> \<not> busy st' r"
    and mine: "\<And>r. owns p' = Some r \<Longrightarrow> r < amount st \<and> busy st' r"
    and kept: "\<And>r. r < amount st \<Longrightarrow> owns p' \<noteq> Some r \<Longrightarrow> busy st' r \<longleftrightarrow> busy st r \<and> owns (pcs ! i) \<noteq> Some r"
    and free: "\<And>r. owns p' = Some r \<Longrightarrow> owns (pcs ! i) = Some r \<or> \<not> busy st r"
  shows "excl_inv (st', pcs[i := p'])"
proof -
  have other: "owns p' \<noteq> Some r \<and> owns (pcs ! i) \<noteq> Some r" if "j < length pcs" "j \<noteq> i" "owns (pcs ! j) = Some r" for j r
    using excl_invD(1)[OF inv that(1,3)] excl_invD(3)[OF inv that(1) i that(3)] that(2) free by blast
  show ?thesis unfolding excl_inv_def prod.case
  proof (intro conjI allI impI)
    fix j r assume j: "j < length (pcs[i := p'])" "owns (pcs[i := p'] ! j) = Some r"
    have "r < amount st \<and> busy st' r"
    proof (cases "j = i")
      case False
      then have o: "j < length pcs" "owns (pcs ! j) = Some r" using j by simp_all
      then show ?thesis using excl_invD(1)[OF inv o] other[OF o(1) False o(2)] kept by blast
    qed (use j i mine in simp)
    then show "r < amount st'" "busy st' r" using grows by simp_all
  next
    fix r assume r: "r < amount st'" "busy st' r"
    then have lt: "r < amount st" using new by (meson not_less)
    show "\<exists>j < length (pcs[i := p']). owns (pcs[i := p'] ! j) = Some r"
    proof (cases "owns p' = Some r")
      case False
      then have "busy st r" "owns (pcs ! i) \<noteq> Some r" using kept[OF lt] r by blast+
      then obtain j where "j < length pcs" "owns (pcs ! j) = Some r" "j \<noteq> i" using excl_invD(2)[OF inv lt] by metis
      then show ?thesis by (intro exI[of _ j]) simp
    qed (use i in auto)
  next
    fix j k r assume "j < length (pcs[i := p'])" "k < length (pcs[i := p'])"
      "owns (pcs[i := p'] ! j) = Some r" "owns (pcs[i := p'] ! k) = Some r"
    then show "j = k"
      using i other[of j r] other[of k r] excl_invD(3)[OF inv, of j k r] by (auto simp: nth_list_update split: if_splits)
  qed
qed

lemma excl_step:
  assumes inv: "excl_inv (st, pcs)" and i: "i < length pcs"
    and step: "thread_step x (pcs ! i) c st = Some (p', st')" and ok: "valid st (pcs ! i)"
  shows "excl_inv (st', pcs[i := p'])"
proof -
  note up = excl_update[OF inv i amount_grows[OF step] new_free[OF step]]
  note mine = excl_invD(1)[OF inv i]
  consider (keep) "owns p' = owns (pcs ! i)" "\<forall>r < amount st. busy st' r = busy st r"
    | (acquire) r where "r < amount st" "owns (pcs ! i) = None" "owns p' = Some r" "\<not> busy st r"
        "\<forall>q < amount st. busy st' q = (q = r \<or> busy st q)"
    | (release) r where "owns (pcs ! i) = Some r" "owns p' = None" "\<forall>q < amount st. busy st' q = (q \<noteq> r \<and> busy st q)"
    using step_kind[OF step ok] by blast
  then show ?thesis
  proof cases
    case keep
    then show ?thesis using mine by (intro up) auto
  next
    case (acquire r)
    then show ?thesis by (intro up) auto
  next
    case (release r)
    then show ?thesis using mine by (intro up) auto
  qed
qed

end

section \<open>Entries are filled once\<close>

text \<open>The entry that a thread holds, and the entry whose \<^verbatim>\<open>once\<close> it is running.\<close>

fun entry_of_pc :: "pc \<Rightarrow> nat option" where
  "entry_of_pc (RL_unlock sid e) = Some e"
| "entry_of_pc (FA_once e) = Some e"
| "entry_of_pc (FA_counter eo) = eo"
| "entry_of_pc (FA_counter_store eo) = eo"
| "entry_of_pc (FA_add eo) = eo"
| "entry_of_pc (FA_publish e v) = Some e"
| "entry_of_pc (FA_read e) = Some e"
| "entry_of_pc _ = None"

fun in_once :: "pc \<Rightarrow> nat option" where
  "in_once (FA_counter eo) = eo"
| "in_once (FA_counter_store eo) = eo"
| "in_once (FA_add eo) = eo"
| "in_once (FA_publish e v) = Some e"
| "in_once _ = None"

fun before_add :: "pc \<Rightarrow> nat option" where
  "before_add (FA_counter eo) = eo"
| "before_add (FA_counter_store eo) = eo"
| "before_add (FA_add eo) = eo"
| "before_add _ = None"

lemma before_add_in_once: "before_add p = Some e \<Longrightarrow> in_once p = Some e"
  by (cases p) auto

definition add_entries :: "cstore \<Rightarrow> nat list" where
  "add_entries st = List.map_filter (\<lambda>(key, opID, eo, d, v). eo) (ct_adds st)"

definition added :: "cstore \<Rightarrow> nat \<Rightarrow> 64 word \<Rightarrow> bool" where
  "added st e v \<longleftrightarrow> (\<exists>key opID d. (key, opID, Some e, d, v) \<in> set (ct_adds st))"

lemma in_add_entries: "e \<in> set (add_entries st) \<longleftrightarrow> (\<exists>v. added st e v)"
  by (force simp: add_entries_def added_def List.map_filter_def)

text \<open>The steps, by what they do to the entries.\<close>

datatype entry_effect =
    Frame
  | Alloc "string \<times> string" nat
  | Begin nat
  | Add "nat option" "64 word"
  | Publish nat "64 word"

fun entry_effect_ok :: "entry_effect \<Rightarrow> pc \<Rightarrow> pc \<Rightarrow> cstore \<Rightarrow> cstore \<Rightarrow> bool" where
  "entry_effect_ok Frame p p' st st' \<longleftrightarrow>
     ct_entry_heap st' = ct_entry_heap st \<and> ct_adds st' = ct_adds st \<and> in_once p' = in_once p \<and> before_add p' = before_add p \<and>
     (\<forall>e v. p' \<noteq> FA_publish e v \<and> p \<noteq> FA_publish e v) \<and>
     (\<forall>e. entry_of_pc p' = Some e \<longrightarrow> entry_of_pc p = Some e \<or> e \<in> ran (map_of (ct_idem st))) \<and>
     (\<forall>e. p' = FA_read e \<longrightarrow> ie_once (entry_at st e) = OnceDone) \<and>
     (\<forall>x e. map_of (ct_idem st') x = Some e \<longrightarrow> map_of (ct_idem st) x = Some e)"
| "entry_effect_ok (Alloc x e) p p' st st' \<longleftrightarrow>
     e = length (ct_entry_heap st) \<and>
     ct_entry_heap st' = ct_entry_heap st @ [\<lparr>ie_once = OnceNew, ie_previous = 0\<rparr>] \<and> ct_adds st' = ct_adds st \<and>
     (\<exists>sid. p = RL_idem_store sid \<and> p' = RL_unlock sid e) \<and>
     map_of (ct_idem st') = (map_of (ct_idem st))(x \<mapsto> e)"
| "entry_effect_ok (Begin e) p p' st st' \<longleftrightarrow>
     p = FA_once e \<and> p' = FA_counter (Some e) \<and> ie_once (entry_at st e) = OnceNew \<and>
     ct_entry_heap st' = (ct_entry_heap st)[e := (entry_at st e)\<lparr>ie_once := OnceRunning\<rparr>] \<and>
     ct_adds st' = ct_adds st \<and> ct_idem st' = ct_idem st"
| "entry_effect_ok (Add eo v) p p' st st' \<longleftrightarrow>
     p = FA_add eo \<and> p' = (case eo of None \<Rightarrow> RetVal v | Some e \<Rightarrow> FA_publish e v) \<and>
     ct_entry_heap st' = ct_entry_heap st \<and> (\<exists>key opID d. ct_adds st' = ct_adds st @ [(key, opID, eo, d, v)]) \<and>
     ct_idem st' = ct_idem st"
| "entry_effect_ok (Publish e v) p p' st st' \<longleftrightarrow>
     p = FA_publish e v \<and> p' = FA_read e \<and>
     ct_entry_heap st' = (ct_entry_heap st)[e := \<lparr>ie_once = OnceDone, ie_previous = v\<rparr>] \<and>
     ct_adds st' = ct_adds st \<and> ct_idem st' = ct_idem st"

lemma upd_frame [simp]:
  "ct_entry_heap (upd_scope sid f st) = ct_entry_heap st" "ct_adds (upd_scope sid f st) = ct_adds st"
  "ct_idem (upd_scope sid f st) = ct_idem st" "ct_counters (upd_scope sid f st) = ct_counters st"
  "ct_scopes (upd_scope sid f st) = ct_scopes st" "ct_ttl (upd_scope sid f st) = ct_ttl st"
  "ct_entry_heap (upd_entry e x st) = (ct_entry_heap st)[e := x]" "ct_adds (upd_entry e x st) = ct_adds st"
  "ct_idem (upd_entry e x st) = ct_idem st" "ct_counters (upd_entry e x st) = ct_counters st"
  "ct_scopes (upd_entry e x st) = ct_scopes st" "ct_scope_heap (upd_entry e x st) = ct_scope_heap st"
  "ct_ttl (upd_entry e x st) = ct_ttl st"
  "ct_scope_heap (upd_scope sid f st) = (ct_scope_heap st)[sid := f (scope_at st sid)]"
  by (simp_all add: upd_scope_def upd_entry_def)

lemma delete_idem_sub: "map_of (AList.delete k al) x = Some e \<Longrightarrow> map_of al x = Some e"
  by (simp add: AList.delete_conv' split: if_splits)

lemma fetch_effect:
  assumes "fetch_step key delta opID now p c st = Some (p', st')"
  shows "\<exists>f. entry_effect_ok f p p' st st'"
proof (cases p)
  case (RL_idem_store sid)
  show ?thesis
  proof (cases "map_of (ct_idem st) (key, opID)")
    case None
    then show ?thesis using assms RL_idem_store
      by (intro exI[of _ "Alloc (key, opID) (length (ct_entry_heap st))"]) (auto simp: AList.update_conv' Let_def)
  qed (use assms RL_idem_store in \<open>auto intro!: exI[of _ Frame] ranI\<close>)
next
  case (FA_once e)
  show ?thesis
  proof (cases "ie_once (entry_at st e)")
    case OnceNew
    then show ?thesis using assms FA_once by (intro exI[of _ "Begin e"]) auto
  qed (use assms FA_once in \<open>auto intro!: exI[of _ Frame]\<close>)
next
  case (FA_add eo)
  then obtain v where "map_of (ct_counters st) key = Some v" using assms by (auto split: option.splits)
  then show ?thesis using assms FA_add by (intro exI[of _ "Add eo v"]) (auto simp: Let_def split: option.split)
next
  case (FA_publish e v)
  then show ?thesis using assms by (intro exI[of _ "Publish e v"]) auto
qed (use assms in \<open>auto intro!: exI[of _ Frame] intro: ranI simp: Let_def split: if_splits option.splits\<close>)

lemma drop_effect:
  assumes "drop_step opID p c st = Some (p', st')"
  shows "entry_effect_ok Frame p p' st st'"
  using assms by (cases p) (auto simp: Let_def dest!: delete_idem_sub split: if_splits option.splits)

lemma sweep_effect:
  assumes "sweep_step now p c st = Some (p', st')"
  shows "entry_effect_ok Frame p p' st st'"
  using assms by (cases p) (auto simp: Let_def dest!: delete_idem_sub split: if_splits option.splits prod.splits)

lemma thread_effect:
  assumes "thread_step x p c st = Some (p', st')"
  shows "\<exists>f. entry_effect_ok f p p' st st'"
  using assms by (cases x) (auto simp del: entry_effect_ok.simps dest: fetch_effect drop_effect sweep_effect)

text \<open>The invariant: what holds of an entry, and of a thread that holds one.\<close>

definition entry_ok :: "cstore \<Rightarrow> nat \<Rightarrow> bool" where
  "entry_ok st e \<longleftrightarrow>
     (ie_once (entry_at st e) = OnceNew \<longrightarrow> e \<notin> set (add_entries st)) \<and>
     (ie_once (entry_at st e) = OnceDone \<longrightarrow> added st e (ie_previous (entry_at st e)))"

definition holder_ok :: "cstore \<Rightarrow> pc \<Rightarrow> bool" where
  "holder_ok st p \<longleftrightarrow>
     (\<forall>e. entry_of_pc p = Some e \<longrightarrow> e < length (ct_entry_heap st)) \<and>
     (\<forall>e. in_once p = Some e \<longrightarrow> ie_once (entry_at st e) = OnceRunning) \<and>
     (\<forall>e. before_add p = Some e \<longrightarrow> e \<notin> set (add_entries st)) \<and>
     (\<forall>e v. p = FA_publish e v \<longrightarrow> added st e v) \<and>
     (\<forall>e. p = FA_read e \<longrightarrow> ie_once (entry_at st e) = OnceDone)"

definition once_inv :: "system \<Rightarrow> bool" where
  "once_inv = (\<lambda>(st, pcs).
     (\<forall>x e. map_of (ct_idem st) x = Some e \<longrightarrow> e < length (ct_entry_heap st)) \<and>
     (\<forall>e < length (ct_entry_heap st). entry_ok st e) \<and>
     (\<forall>i < length pcs. holder_ok st (pcs ! i)) \<and>
     distinct (add_entries st) \<and> (\<forall>e \<in> set (add_entries st). e < length (ct_entry_heap st)))"

lemma once_invD:
  assumes "once_inv (st, pcs)"
  shows "map_of (ct_idem st) x = Some e \<Longrightarrow> e < length (ct_entry_heap st)"
    "e < length (ct_entry_heap st) \<Longrightarrow> entry_ok st e"
    "i < length pcs \<Longrightarrow> holder_ok st (pcs ! i)"
    "distinct (add_entries st)" "e \<in> set (add_entries st) \<Longrightarrow> e < length (ct_entry_heap st)"
  using assms unfolding once_inv_def prod.case by blast+

text \<open>What does not depend on the thread that moves.\<close>

lemma add_entries_cong: "ct_adds st' = ct_adds st \<Longrightarrow> add_entries st' = add_entries st"
  by (simp add: add_entries_def)

lemma added_cong: "ct_adds st' = ct_adds st \<Longrightarrow> added st' = added st"
  by (intro ext) (simp add: added_def)

lemma holder_ok_cong:
  "ct_entry_heap st' = ct_entry_heap st \<Longrightarrow> ct_adds st' = ct_adds st \<Longrightarrow> holder_ok st' p = holder_ok st p"
  by (simp add: holder_ok_def add_entries_def added_def)

lemma entry_ok_cong:
  "ct_entry_heap st' = ct_entry_heap st \<Longrightarrow> ct_adds st' = ct_adds st \<Longrightarrow> entry_ok st' e = entry_ok st e"
  by (simp add: entry_ok_def add_entries_def added_def)

text \<open>Other threads keep what they know when an entry that they do not hold open changes.\<close>

lemma holder_ok_upd:
  assumes "holder_ok st p" "ct_entry_heap st' = (ct_entry_heap st)[e := x]" "ct_adds st' = ct_adds st"
    and "in_once p \<noteq> Some e" "ie_once (entry_at st e) \<noteq> OnceDone \<or> ie_once x = OnceDone"
  shows "holder_ok st' p"
proof -
  note ad = add_entries_cong[OF assms(3)] added_cong[OF assms(3)]
  have "ie_once (entry_at st' y) = OnceRunning" if "in_once p = Some y" for y
    using that assms(1,2,4) by (auto simp: holder_ok_def)
  moreover have "ie_once (entry_at st' y) = OnceDone" if "p = FA_read y" for y
    using that assms(1,2,5) by (cases "y = e") (auto simp: holder_ok_def)
  ultimately show ?thesis using assms(1,2) unfolding holder_ok_def ad by simp
qed

lemma in_once_entry: "in_once p = Some e \<Longrightarrow> entry_of_pc p = Some e"
  by (cases p) auto

lemma holder_okD:
  assumes "holder_ok st p"
  shows "entry_of_pc p = Some e \<Longrightarrow> e < length (ct_entry_heap st)"
    "in_once p = Some e \<Longrightarrow> ie_once (entry_at st e) = OnceRunning"
    "before_add p = Some e \<Longrightarrow> e \<notin> set (add_entries st)"
    "p = FA_publish e v \<Longrightarrow> added st e v"
    "p = FA_read e \<Longrightarrow> ie_once (entry_at st e) = OnceDone"
  using assms unfolding holder_ok_def by blast+

lemma holder_ok_grow:
  assumes "holder_ok st p" "ct_entry_heap st' = ct_entry_heap st @ xs" "ct_adds st' = ct_adds st"
  shows "holder_ok st' p"
proof -
  have old: "entry_at st' e = entry_at st e" if "e < length (ct_entry_heap st)" for e
    using that assms(2) by (simp add: nth_append)
  have lt: "entry_of_pc p = Some e \<Longrightarrow> e < length (ct_entry_heap st)" for e by (rule holder_okD(1)[OF assms(1)])
  show ?thesis unfolding holder_ok_def add_entries_cong[OF assms(3)] added_cong[OF assms(3)]
  proof (intro conjI allI impI)
    fix e
    show "entry_of_pc p = Some e \<Longrightarrow> e < length (ct_entry_heap st')" using lt[of e] assms(2) by simp
    show "in_once p = Some e \<Longrightarrow> ie_once (entry_at st' e) = OnceRunning"
      using old[OF lt[OF in_once_entry]] holder_okD(2)[OF assms(1)] by simp
    show "p = FA_read e \<Longrightarrow> ie_once (entry_at st' e) = OnceDone"
      using old[of e] lt[of e] holder_okD(5)[OF assms(1)] by simp
  qed (use holder_okD(3,4)[OF assms(1)] in simp_all)
qed

text \<open>The \<^verbatim>\<open>sync.Once\<close> of an entry is an exclusive resource.\<close>

definition once_busy :: "cstore \<Rightarrow> nat \<Rightarrow> bool" where
  "once_busy st e \<longleftrightarrow> ie_once (entry_at st e) = OnceRunning"

interpretation once: exclusive in_once once_busy "\<lambda>st. length (ct_entry_heap st)" holder_ok
proof
  show "in_once Start = None" by simp
  show "length (ct_entry_heap (new_cstore ttl)) = 0" for ttl by (simp add: new_cstore_def)
next
  fix x p c st p' st'
  assume step: "thread_step x p c st = Some (p', st')"
  obtain f where f: "entry_effect_ok f p p' st st'" using thread_effect[OF step] by blast
  show "length (ct_entry_heap st) \<le> length (ct_entry_heap st')" using f by (cases f) auto
  show "\<not> once_busy st' r" if "length (ct_entry_heap st) \<le> r" "r < length (ct_entry_heap st')" for r
    using f that by (cases f) (auto simp: once_busy_def nth_append)
  show "(in_once p' = in_once p \<and> (\<forall>r < length (ct_entry_heap st). once_busy st' r = once_busy st r)) \<or>
      (\<exists>r < length (ct_entry_heap st). in_once p = None \<and> in_once p' = Some r \<and> \<not> once_busy st r \<and>
         (\<forall>q < length (ct_entry_heap st). once_busy st' q = (q = r \<or> once_busy st q))) \<or>
      (\<exists>r. in_once p = Some r \<and> in_once p' = None \<and>
         (\<forall>q < length (ct_entry_heap st). once_busy st' q = (q \<noteq> r \<and> once_busy st q)))"
    if ok: "holder_ok st p"
  proof (cases f)
    case (Begin e)
    then have "e < length (ct_entry_heap st)" using f holder_okD(1)[OF ok, of e] by simp
    then show ?thesis using f Begin by (intro disjI2 disjI1 exI[of _ e]) (auto simp: once_busy_def nth_list_update)
  next
    case (Publish e v)
    then have "e < length (ct_entry_heap st)" using f holder_okD(1)[OF ok, of e] by simp
    then show ?thesis using f Publish by (intro disjI2 exI[of _ e]) (auto simp: once_busy_def nth_list_update)
  next
    case (Add eo v)
    then show ?thesis using f by (cases eo) (auto simp: once_busy_def)
  qed (use f in \<open>auto simp: once_busy_def nth_append\<close>)
next
  fix st p r
  show "holder_ok st p \<Longrightarrow> in_once p = Some r \<Longrightarrow> r < length (ct_entry_heap st)"
    using holder_okD(1) in_once_entry by blast
qed

lemma once_inv_pcs:
  assumes i: "i < length pcs"
    and idem: "\<And>x e. map_of (ct_idem st') x = Some e \<Longrightarrow> e < length (ct_entry_heap st')"
    and entry: "\<And>e. e < length (ct_entry_heap st') \<Longrightarrow> entry_ok st' e"
    and mover: "holder_ok st' p'"
    and others: "\<And>j. j < length pcs \<Longrightarrow> j \<noteq> i \<Longrightarrow> holder_ok st' (pcs ! j)"
    and adds: "distinct (add_entries st')" "\<And>e. e \<in> set (add_entries st') \<Longrightarrow> e < length (ct_entry_heap st')"
  shows "once_inv (st', pcs[i := p'])"
  unfolding once_inv_def prod.case
  by (intro conjI allI impI ballI) (use idem entry adds mover others i in \<open>auto simp: nth_list_update\<close>)

lemma once_inv_frame:
  assumes inv: "once_inv (st, pcs)" and i: "i < length pcs"
    and eff: "entry_effect_ok Frame (pcs ! i) p' st st'"
  shows "once_inv (st', pcs[i := p'])"
proof -
  have h: "ct_entry_heap st' = ct_entry_heap st" and a: "ct_adds st' = ct_adds st"
    and o: "in_once p' = in_once (pcs ! i)" and b: "before_add p' = before_add (pcs ! i)"
    and pub: "\<And>e v. p' \<noteq> FA_publish e v"
    and ent: "\<And>e. entry_of_pc p' = Some e \<Longrightarrow> entry_of_pc (pcs ! i) = Some e \<or> e \<in> ran (map_of (ct_idem st))"
    and rd: "\<And>e. p' = FA_read e \<Longrightarrow> ie_once (entry_at st e) = OnceDone"
    and id: "\<And>x e. map_of (ct_idem st') x = Some e \<Longrightarrow> map_of (ct_idem st) x = Some e"
    using eff unfolding entry_effect_ok.simps by blast+
  note c = holder_ok_cong[OF h a] entry_ok_cong[OF h a] add_entries_cong[OF a] h
  have me: "holder_ok st (pcs ! i)" by (rule once_invD(3)[OF inv i])
  have lt: "e < length (ct_entry_heap st)" if "entry_of_pc p' = Some e" for e
    using ent[OF that] me once_invD(1)[OF inv] unfolding holder_ok_def ran_def by blast
  show ?thesis
  proof (rule once_inv_pcs[OF i]; (unfold c)?)
    show "holder_ok st p'" using me lt pub rd o b unfolding holder_ok_def by metis
  qed (use id once_invD[OF inv] in blast)+
qed

lemma once_inv_alloc:
  assumes inv: "once_inv (st, pcs)" and i: "i < length pcs"
    and eff: "entry_effect_ok (Alloc x n) (pcs ! i) p' st st'"
  shows "once_inv (st', pcs[i := p'])"
proof -
  have n: "n = length (ct_entry_heap st)"
    and h: "ct_entry_heap st' = ct_entry_heap st @ [\<lparr>ie_once = OnceNew, ie_previous = 0\<rparr>]"
    and a: "ct_adds st' = ct_adds st" and id: "map_of (ct_idem st') = (map_of (ct_idem st))(x \<mapsto> n)"
    using eff by simp_all
  obtain sid where p: "pcs ! i = RL_idem_store sid" "p' = RL_unlock sid n" using eff by auto
  note c = add_entries_cong[OF a] added_cong[OF a]
  have old: "entry_at st' e = entry_at st e" if "e < length (ct_entry_heap st)" for e
    using that h by (simp add: nth_append)
  have new: "entry_at st' n = \<lparr>ie_once = OnceNew, ie_previous = 0\<rparr>" using h n by simp
  have len: "length (ct_entry_heap st') = Suc n" using h n by simp
  show ?thesis
  proof (rule once_inv_pcs[OF i])
    show "\<And>y e. map_of (ct_idem st') y = Some e \<Longrightarrow> e < length (ct_entry_heap st')"
      using once_invD(1)[OF inv] unfolding id len n by (auto simp: less_SucI split: if_splits)
    show "\<And>e. e < length (ct_entry_heap st') \<Longrightarrow> entry_ok st' e"
      using once_invD(2)[OF inv] once_invD(5)[OF inv, of n] old new n unfolding len less_Suc_eq entry_ok_def c by auto
    show "holder_ok st' p'" using p len by (simp add: holder_ok_def)
    show "\<And>j. j < length pcs \<Longrightarrow> holder_ok st' (pcs ! j)" by (rule holder_ok_grow[OF once_invD(3)[OF inv] h a])
    show "\<And>e. e \<in> set (add_entries st') \<Longrightarrow> e < length (ct_entry_heap st')"
      using once_invD(5)[OF inv] unfolding c len n by (simp add: less_SucI)
  qed (use p once_invD(4)[OF inv] c in auto)
qed

lemma once_inv_begin:
  assumes inv: "once_inv (st, pcs)" and i: "i < length pcs"
    and eff: "entry_effect_ok (Begin n) (pcs ! i) p' st st'"
  shows "once_inv (st', pcs[i := p'])"
proof -
  have p: "pcs ! i = FA_once n" "p' = FA_counter (Some n)" and new: "ie_once (entry_at st n) = OnceNew"
    and h: "ct_entry_heap st' = (ct_entry_heap st)[n := (entry_at st n)\<lparr>ie_once := OnceRunning\<rparr>]"
    and a: "ct_adds st' = ct_adds st" and id: "ct_idem st' = ct_idem st"
    using eff by simp_all
  note c = add_entries_cong[OF a] added_cong[OF a]
  have n: "n < length (ct_entry_heap st)" using once_invD(3)[OF inv i] p by (simp add: holder_ok_def)
  have notin: "in_once (pcs ! j) \<noteq> Some n" if "j < length pcs" for j
    using holder_okD(2)[OF once_invD(3)[OF inv that]] new by auto
  have fresh: "n \<notin> set (add_entries st)" using once_invD(2)[OF inv n] new by (simp add: entry_ok_def)
  show ?thesis
  proof (rule once_inv_pcs[OF i])
    show "entry_ok st' e" if "e < length (ct_entry_heap st')" for e
      using once_invD(2)[OF inv, of e] that n by (cases "e = n") (simp_all add: h entry_ok_def c)
    show "holder_ok st' p'" using p n h fresh c by (simp add: holder_ok_def)
    show "\<And>j. j < length pcs \<Longrightarrow> holder_ok st' (pcs ! j)"
      using holder_ok_upd[OF once_invD(3)[OF inv] h a notin] new by simp
  qed (use id c h once_invD[OF inv] in auto)
qed

lemma once_inv_publish:
  assumes inv: "once_inv (st, pcs)" and excl: "once.excl_inv (st, pcs)" and i: "i < length pcs"
    and eff: "entry_effect_ok (Publish n v) (pcs ! i) p' st st'"
  shows "once_inv (st', pcs[i := p'])"
proof -
  have p: "pcs ! i = FA_publish n v" "p' = FA_read n"
    and h: "ct_entry_heap st' = (ct_entry_heap st)[n := \<lparr>ie_once = OnceDone, ie_previous = v\<rparr>]"
    and a: "ct_adds st' = ct_adds st" and id: "ct_idem st' = ct_idem st"
    using eff by simp_all
  note c = add_entries_cong[OF a] added_cong[OF a]
  have me: "holder_ok st (FA_publish n v)" using once_invD(3)[OF inv i] p by simp
  have n: "n < length (ct_entry_heap st)" and v: "added st n v"
    using me by (simp_all add: holder_ok_def)
  have notin: "in_once (pcs ! j) \<noteq> Some n" if "j < length pcs" "j \<noteq> i" for j
    using once.excl_invD(3)[OF excl that(1) i, of n] p that(2) by auto
  show ?thesis
  proof (rule once_inv_pcs[OF i])
    show "entry_ok st' e" if "e < length (ct_entry_heap st')" for e
      using once_invD(2)[OF inv, of e] that n v by (cases "e = n") (simp_all add: h entry_ok_def c)
    show "holder_ok st' p'" using p n h by (simp add: holder_ok_def)
    show "\<And>j. j < length pcs \<Longrightarrow> j \<noteq> i \<Longrightarrow> holder_ok st' (pcs ! j)"
      using holder_ok_upd[OF once_invD(3)[OF inv] h a notin] by simp
  qed (use id c h p once_invD[OF inv] in auto)
qed

lemma once_inv_add:
  assumes inv: "once_inv (st, pcs)" and excl: "once.excl_inv (st, pcs)" and i: "i < length pcs"
    and eff: "entry_effect_ok (Add eo v) (pcs ! i) p' st st'"
  shows "once_inv (st', pcs[i := p'])"
proof -
  obtain key opID d where p: "pcs ! i = FA_add eo" "p' = (case eo of None \<Rightarrow> RetVal v | Some e \<Rightarrow> FA_publish e v)"
    and h: "ct_entry_heap st' = ct_entry_heap st"
    and a: "ct_adds st' = ct_adds st @ [(key, opID, eo, d, v)]" and id: "ct_idem st' = ct_idem st"
    using eff by auto
  have ae: "add_entries st' = add_entries st @ (case eo of None \<Rightarrow> [] | Some e \<Rightarrow> [e])"
    using a by (simp add: add_entries_def List.map_filter_def split: option.split)
  have ad: "added st' e u \<longleftrightarrow> added st e u \<or> (eo = Some e \<and> u = v)" for e u
    using a by (auto simp: added_def)
  have me: "holder_ok st (FA_add eo)" using once_invD(3)[OF inv i] p by simp
  have own: "e < length (ct_entry_heap st) \<and> ie_once (entry_at st e) = OnceRunning \<and> e \<notin> set (add_entries st)"
    if "eo = Some e" for e
    using me that by (simp add: holder_ok_def)
  have notin: "in_once (pcs ! j) \<noteq> Some e" if "j < length pcs" "j \<noteq> i" "eo = Some e" for j e
    using once.excl_invD(3)[OF excl that(1) i, of e] p that by auto
  show ?thesis
  proof (rule once_inv_pcs[OF i])
    show "entry_ok st' e" if "e < length (ct_entry_heap st')" for e
      using once_invD(2)[OF inv, of e] own[of e] that unfolding entry_ok_def ad ae h by (cases eo) auto
    show "holder_ok st' p'" using own unfolding p(2) by (cases eo) (simp_all add: holder_ok_def h ad)
    show "holder_ok st' (pcs ! j)" if j: "j < length pcs" "j \<noteq> i" for j
    proof -
      have "before_add (pcs ! j) = Some e \<Longrightarrow> eo \<noteq> Some e" for e
        using notin[OF j, of e] before_add_in_once[of "pcs ! j" e] by blast
      then have "before_add (pcs ! j) = Some e \<Longrightarrow> e \<notin> set (add_entries st')" for e
        using holder_okD(3)[OF once_invD(3)[OF inv j(1)], of e] unfolding ae by (cases eo) auto
      then show ?thesis
        using once_invD(3)[OF inv j(1)] unfolding holder_ok_def h ad by blast
    qed
    show "distinct (add_entries st')" using once_invD(4)[OF inv] own unfolding ae by (cases eo) auto
    show "\<And>e. e \<in> set (add_entries st') \<Longrightarrow> e < length (ct_entry_heap st')"
      using once_invD(5)[OF inv] own unfolding ae h by (cases eo) auto
  qed (use id h once_invD(1)[OF inv] in auto)
qed

lemma once_inv_step:
  assumes "once_inv (st, pcs)" "once.excl_inv (st, pcs)" "i < length pcs" "entry_effect_ok f (pcs ! i) p' st st'"
  shows "once_inv (st', pcs[i := p'])"
  using assms(4)
  by (cases f) (use once_inv_frame[OF assms(1,3)] once_inv_alloc[OF assms(1,3)] once_inv_begin[OF assms(1,3)]
    once_inv_add[OF assms(1-3)] once_inv_publish[OF assms(1-3)] in blast)+

lemma reachable_once: "reachable ttl ops s \<Longrightarrow> once_inv s \<and> once.excl_inv s"
proof (induction rule: reachable.induct)
  case init
  have "once_inv (sys_init ttl ops)"
    by (auto simp: once_inv_def sys_init_def new_cstore_def holder_ok_def add_entries_def List.map_filter_def)
  then show ?case by (simp add: once.excl_init)
next
  case (step s x s')
  obtain st pcs where s: "s = (st, pcs)" by force
  obtain i c p' st' where i: "i < length pcs" "thread_step (ops ! i) (pcs ! i) c st = Some (p', st')"
    and s': "s' = (st', pcs[i := p'])"
    using step.hyps(2) unfolding s by (elim sys_stepE)
  have inv: "once_inv (st, pcs)" "once.excl_inv (st, pcs)" using step.IH s by simp_all
  show ?case unfolding s'
    using once.excl_step[OF inv(2) i once_invD(3)[OF inv(1) i(1)]] thread_effect[OF i(2)] once_inv_step[OF inv i(1)]
    by blast
qed

section \<open>Locks\<close>

text \<open>The scope that a thread refers to, and the scope whose mutex it holds.\<close>

fun scope_of_pc :: "pc \<Rightarrow> nat option" where
  "scope_of_pc (RL_touch sid) = Some sid"
| "scope_of_pc (RL_lock sid) = Some sid"
| "scope_of_pc (RL_check sid) = Some sid"
| "scope_of_pc (RL_idem sid) = Some sid"
| "scope_of_pc (RL_idem_store sid) = Some sid"
| "scope_of_pc (RL_unlock sid e) = Some sid"
| "scope_of_pc (DS_lock sid) = Some sid"
| "scope_of_pc (DS_mark sid) = Some sid"
| "scope_of_pc (DS_delete sid ks n) = Some sid"
| "scope_of_pc (SW_probe visited opID sid) = Some sid"
| "scope_of_pc (SW_lock visited opID sid) = Some sid"
| "scope_of_pc (SW_recheck visited opID sid) = Some sid"
| "scope_of_pc (SW_unlink visited opID sid) = Some sid"
| "scope_of_pc (SW_delete visited opID sid ks) = Some sid"
| "scope_of_pc _ = None"

fun holds :: "pc \<Rightarrow> nat option" where
  "holds (RL_check sid) = Some sid"
| "holds (RL_idem sid) = Some sid"
| "holds (RL_idem_store sid) = Some sid"
| "holds (RL_unlock sid e) = Some sid"
| "holds (DS_mark sid) = Some sid"
| "holds (DS_delete sid ks n) = Some sid"
| "holds (SW_recheck visited opID sid) = Some sid"
| "holds (SW_unlink visited opID sid) = Some sid"
| "holds (SW_delete visited opID sid ks) = Some sid"
| "holds _ = None"

definition scope_ok :: "cstore \<Rightarrow> pc \<Rightarrow> bool" where
  "scope_ok st p \<longleftrightarrow> (\<forall>sid. scope_of_pc p = Some sid \<longrightarrow> sid < length (ct_scope_heap st))"

definition locked :: "cstore \<Rightarrow> nat \<Rightarrow> bool" where
  "locked st sid \<longleftrightarrow> cs_mu (scope_at st sid)"

definition scopes_in_heap :: "cstore \<Rightarrow> bool" where
  "scopes_in_heap st \<longleftrightarrow> (\<forall>(opID, sid) \<in> set (ct_scopes st). sid < length (ct_scope_heap st))"

lemma holds_scope: "holds p = Some sid \<Longrightarrow> scope_of_pc p = Some sid"
  by (cases p) auto

lemma scope_heap_grows:
  assumes "thread_step x p c st = Some (p', st')"
  shows "length (ct_scope_heap st) \<le> length (ct_scope_heap st')"
    "length (ct_scope_heap st) \<le> r \<Longrightarrow> r < length (ct_scope_heap st') \<Longrightarrow> \<not> locked st' r"
  using assms
  by (cases x; cases p;
      auto simp: Let_def locked_def nth_append split: if_splits option.splits once_state.splits prod.splits)+

lemma set_update_sub: "set (AList.update k v al) \<subseteq> insert (k, v) (set al)"
  by (induction al) auto

lemma set_delete_sub: "set (AList.delete k al) \<subseteq> set al"
  by (auto simp: AList.delete_eq)

lemma map_of_in_heap: "scopes_in_heap st \<Longrightarrow> map_of (ct_scopes st) opID = Some sid \<Longrightarrow> sid < length (ct_scope_heap st)"
  by (auto simp: scopes_in_heap_def dest: map_of_SomeD)

lemma scopes_sub:
  assumes "thread_step x p c st = Some (p', st')" "(q, sid) \<in> set (ct_scopes st')"
  shows "(q, sid) \<in> set (ct_scopes st) \<or> sid < length (ct_scope_heap st')"
proof (cases x)
  case (OpFetchAdd key d opID now)
  then show ?thesis using assms set_update_sub[of opID "length (ct_scope_heap st)" "ct_scopes st"]
    by (cases p) (auto simp: Let_def split: if_splits option.splits once_state.splits)
next
  case (OpDropScope opID)
  then show ?thesis using assms set_delete_sub[of opID "ct_scopes st"]
    by (cases p) (auto simp: Let_def split: if_splits option.splits)
next
  case (OpSweep now)
  then show ?thesis using assms
    by (cases p) (auto simp: Let_def dest: subsetD[OF set_delete_sub] split: if_splits prod.splits)
qed

lemma scopes_in_heap_step:
  assumes "thread_step x p c st = Some (p', st')" "scopes_in_heap st"
  shows "scopes_in_heap st'"
  using scopes_sub[OF assms(1)] scope_heap_grows(1)[OF assms(1)] assms(2) unfolding scopes_in_heap_def by fastforce

text \<open>A thread comes to a scope through the map of the scopes, or by creating it.\<close>

definition linked :: "cstore \<Rightarrow> nat \<Rightarrow> bool" where
  "linked st sid \<longleftrightarrow> sid \<in> snd ` set (ct_scopes st)"

lemma map_of_linked: "map_of (ct_scopes st) opID = Some sid \<Longrightarrow> linked st sid"
  by (force simp: linked_def dest: map_of_SomeD)

lemma pending_linked:
  "n < length (filter f (ct_scopes st)) \<Longrightarrow> filter f (ct_scopes st) ! n = (opID, sid) \<Longrightarrow> linked st sid"
  using nth_mem[of n "filter f (ct_scopes st)"] by (force simp: linked_def)

lemma scope_of_pc_step:
  assumes "thread_step x p c st = Some (p', st')" "scope_of_pc p' = Some sid"
  shows "scope_of_pc p = Some sid \<or> linked st sid \<or> sid < length (ct_scope_heap st')"
  using assms
  by (cases x; cases p) (auto simp: Let_def dest: map_of_linked pending_linked
      split: if_splits option.splits once_state.splits prod.splits)

lemma linked_in_heap: "scopes_in_heap st \<Longrightarrow> linked st sid \<Longrightarrow> sid < length (ct_scope_heap st)"
  by (auto simp: scopes_in_heap_def linked_def)

lemma scope_step:
  assumes "thread_step x p c st = Some (p', st')" "scopes_in_heap st" "scope_ok st p"
  shows "scopes_in_heap st' \<and> scope_ok st' p'"
proof -
  have "sid < length (ct_scope_heap st')" if "scope_of_pc p' = Some sid" for sid
    using scope_of_pc_step[OF assms(1) that] linked_in_heap[OF assms(2), of sid] assms(3)
      scope_heap_grows(1)[OF assms(1)] by (auto simp: scope_ok_def)
  then show ?thesis using scopes_in_heap_step[OF assms(1,2)] by (simp add: scope_ok_def)
qed

interpretation lock: exclusive holds locked "\<lambda>st. length (ct_scope_heap st)" scope_ok
proof
  show "holds Start = None" by simp
  show "length (ct_scope_heap (new_cstore ttl)) = 0" for ttl by (simp add: new_cstore_def)
next
  fix x p c st p' st'
  assume step: "thread_step x p c st = Some (p', st')"
  show "length (ct_scope_heap st) \<le> length (ct_scope_heap st')" by (rule scope_heap_grows[OF step])
  show "\<not> locked st' r" if "length (ct_scope_heap st) \<le> r" "r < length (ct_scope_heap st')" for r
    by (rule scope_heap_grows(2)[OF step that])
  show "(holds p' = holds p \<and> (\<forall>r < length (ct_scope_heap st). locked st' r = locked st r)) \<or>
      (\<exists>r < length (ct_scope_heap st). holds p = None \<and> holds p' = Some r \<and> \<not> locked st r \<and>
         (\<forall>q < length (ct_scope_heap st). locked st' q = (q = r \<or> locked st q))) \<or>
      (\<exists>r. holds p = Some r \<and> holds p' = None \<and>
         (\<forall>q < length (ct_scope_heap st). locked st' q = (q \<noteq> r \<and> locked st q)))"
    if "scope_ok st p"
    using step that
    by (cases x; cases p)
      (auto simp: Let_def locked_def scope_ok_def nth_append nth_list_update
        split: if_splits option.splits once_state.splits prod.splits)
next
  fix st p r
  show "scope_ok st p \<Longrightarrow> holds p = Some r \<Longrightarrow> r < length (ct_scope_heap st)"
    using holds_scope by (auto simp: scope_ok_def)
qed

definition scopes_inv :: "system \<Rightarrow> bool" where
  "scopes_inv = (\<lambda>(st, pcs). scopes_in_heap st \<and> (\<forall>i < length pcs. scope_ok st (pcs ! i)))"

lemma reachable_lock: "reachable ttl ops s \<Longrightarrow> scopes_inv s \<and> lock.excl_inv s"
proof (induction rule: reachable.induct)
  case init
  have "scopes_inv (sys_init ttl ops)"
    by (simp add: scopes_inv_def sys_init_def new_cstore_def scopes_in_heap_def scope_ok_def)
  then show ?case by (simp add: lock.excl_init)
next
  case (step s x s')
  obtain st pcs where s: "s = (st, pcs)" by force
  obtain i c p' st' where i: "i < length pcs" "thread_step (ops ! i) (pcs ! i) c st = Some (p', st')"
    and s': "s' = (st', pcs[i := p'])"
    using step.hyps(2) unfolding s by (elim sys_stepE)
  have inv: "scopes_in_heap st" "\<And>j. j < length pcs \<Longrightarrow> scope_ok st (pcs ! j)" "lock.excl_inv (st, pcs)"
    using step.IH s by (auto simp: scopes_inv_def)
  note st = scope_step[OF i(2) inv(1) inv(2)[OF i(1)]]
  have "scope_ok st' (pcs ! j)" if "j < length pcs" for j
    using inv(2)[OF that] scope_heap_grows(1)[OF i(2)] by (force simp: scope_ok_def)
  then show ?case unfolding s'
    using st i(1) lock.excl_step[OF inv(3) i inv(2)[OF i(1)]] by (auto simp: scopes_inv_def nth_list_update)
qed

section \<open>Some thread can move\<close>

text \<open>A thread that cannot move has returned, or waits for a mutex or a \<^verbatim>\<open>sync.Once\<close>; the owner of
  either is not waiting.\<close>

definition counters_inv :: "store_op list \<Rightarrow> system \<Rightarrow> bool" where
  "counters_inv ops = (\<lambda>(st, pcs). \<forall>i < length pcs. \<forall>eo key d opID now.
     ops ! i = OpFetchAdd key d opID now \<longrightarrow> pcs ! i = FA_add eo \<longrightarrow> map_of (ct_counters st) key \<noteq> None)"

text \<open>Every thread is at a program counter of its operation.\<close>

fun pc_of_op :: "store_op \<Rightarrow> pc \<Rightarrow> bool" where
  "pc_of_op x Start = True"
| "pc_of_op (OpFetchAdd key d opID now) p \<longleftrightarrow>
     (case p of RetDropped n \<Rightarrow> False | RetSwept \<Rightarrow> False | DS_lock sid \<Rightarrow> False | DS_mark sid \<Rightarrow> False
      | DS_delete sid ks n \<Rightarrow> False | SW_range v \<Rightarrow> False | SW_probe v q sid \<Rightarrow> False | SW_lock v q sid \<Rightarrow> False
      | SW_recheck v q sid \<Rightarrow> False | SW_unlink v q sid \<Rightarrow> False | SW_delete v q sid ks \<Rightarrow> False | _ \<Rightarrow> True)"
| "pc_of_op (OpDropScope opID) p \<longleftrightarrow>
     (case p of RetDropped n \<Rightarrow> True | DS_lock sid \<Rightarrow> True | DS_mark sid \<Rightarrow> True | DS_delete sid ks n \<Rightarrow> True | _ \<Rightarrow> False)"
| "pc_of_op (OpSweep now) p \<longleftrightarrow>
     (case p of RetSwept \<Rightarrow> True | SW_range v \<Rightarrow> True | SW_probe v q sid \<Rightarrow> True | SW_lock v q sid \<Rightarrow> True
      | SW_recheck v q sid \<Rightarrow> True | SW_unlink v q sid \<Rightarrow> True | SW_delete v q sid ks \<Rightarrow> True | _ \<Rightarrow> False)"

lemma pc_of_op_step: "thread_step x p c st = Some (p', st') \<Longrightarrow> pc_of_op x p'"
  by (cases x; cases p) (auto simp: Let_def split: if_splits option.splits once_state.splits prod.splits)

lemma counters_step:
  assumes "thread_step x p c st = Some (p', st')"
  shows "map_of (ct_counters st) key \<noteq> None \<Longrightarrow> map_of (ct_counters st') key \<noteq> None"
    and "x = OpFetchAdd key d opID now \<Longrightarrow> p' = FA_add eo \<Longrightarrow> map_of (ct_counters st') key \<noteq> None"
  using assms
  by (cases x; cases p; auto simp: Let_def AList.update_conv' split: if_splits option.splits once_state.splits prod.splits)+

lemma reachable_local:
  "reachable ttl ops s \<Longrightarrow> counters_inv ops s \<and> (\<forall>i < length (snd s). pc_of_op (ops ! i) (snd s ! i))"
proof (induction rule: reachable.induct)
  case init
  show ?case by (simp add: counters_inv_def sys_init_def)
next
  case (step s x s')
  obtain st pcs where s: "s = (st, pcs)" by force
  obtain i c p' st' where i: "i < length pcs" "thread_step (ops ! i) (pcs ! i) c st = Some (p', st')"
    and s': "s' = (st', pcs[i := p'])"
    using step.hyps(2) unfolding s by (elim sys_stepE)
  have "counters_inv ops (st', pcs[i := p'])" unfolding counters_inv_def prod.case
  proof (intro allI impI)
    fix j eo key d opID now
    assume j: "j < length (pcs[i := p'])" "ops ! j = OpFetchAdd key d opID now" "pcs[i := p'] ! j = FA_add eo"
    show "map_of (ct_counters st') key \<noteq> None"
    proof (cases "j = i")
      case True
      then show ?thesis using counters_step(2)[OF i(2)] j i(1) by simp
    next
      case False
      then have "map_of (ct_counters st) key \<noteq> None"
        using step.IH j unfolding s counters_inv_def by auto
      then show ?thesis by (rule counters_step(1)[OF i(2)])
    qed
  qed
  then show ?case using step.IH i(1) pc_of_op_step[OF i(2)] unfolding s s' by (auto simp: nth_list_update)
qed

lemma thread_moves:
  assumes "pc_of_op x p" "\<not> returned p"
    and "\<And>sid. p = RL_lock sid \<or> p = DS_lock sid \<or> (\<exists>v q. p = SW_lock v q sid) \<Longrightarrow> \<not> locked st sid"
    and "\<And>e. p = FA_once e \<Longrightarrow> \<not> once_busy st e"
    and "\<And>key d opID now eo. x = OpFetchAdd key d opID now \<Longrightarrow> p = FA_add eo \<Longrightarrow> map_of (ct_counters st) key \<noteq> None"
  shows "\<exists>r. thread_step x p c st = Some r"
  using assms
  by (cases x; cases p)
    (auto simp: locked_def once_busy_def Let_def split: once_state.splits option.splits)

lemma owner_moves:
  assumes "pc_of_op x p" "holds p = Some sid \<or> in_once p = Some e"
    and "\<And>key d opID now eo. x = OpFetchAdd key d opID now \<Longrightarrow> p = FA_add eo \<Longrightarrow> map_of (ct_counters st) key \<noteq> None"
  shows "\<exists>r. thread_step x p c st = Some r"
  by (rule thread_moves[OF assms(1) _ _ _ assms(3)]) (use assms(2) in \<open>cases p; auto\<close>)+

lemma progress:
  assumes "reachable ttl ops (st, pcs)" "j < length pcs" "\<not> returned (pcs ! j)"
  shows "\<exists>i < length pcs. \<exists>r. thread_step (ops ! i) (pcs ! i) c st = Some r"
proof -
  have loc: "pc_of_op (ops ! i) (pcs ! i)"
    "ops ! i = OpFetchAdd key d opID now \<Longrightarrow> pcs ! i = FA_add eo \<Longrightarrow> map_of (ct_counters st) key \<noteq> None"
    if "i < length pcs" for i key d opID now eo
    using reachable_local[OF assms(1)] that by (auto simp: counters_inv_def)
  have locks: "scopes_inv (st, pcs)" "lock.excl_inv (st, pcs)" using reachable_lock[OF assms(1)] by simp_all
  have onces: "once_inv (st, pcs)" "once.excl_inv (st, pcs)" using reachable_once[OF assms(1)] by simp_all
  show ?thesis
  proof (cases "\<exists>sid e. scope_of_pc (pcs ! j) = Some sid \<and> locked st sid \<or> pcs ! j = FA_once e \<and> once_busy st e")
    case False
    then have "\<exists>r. thread_step (ops ! j) (pcs ! j) c st = Some r"
      by (intro thread_moves[OF loc(1)[OF assms(2)] assms(3) _ _ loc(2)[OF assms(2)]]) auto
    then show ?thesis using assms(2) by blast
  next
    case True
    then obtain i sid e where i: "i < length pcs" "holds (pcs ! i) = Some sid \<or> in_once (pcs ! i) = Some e"
    proof (elim exE disjE conjE)
      fix sid e assume a: "scope_of_pc (pcs ! j) = Some sid" "locked st sid"
      then have "sid < length (ct_scope_heap st)" using locks(1) assms(2) by (auto simp: scopes_inv_def scope_ok_def)
      from lock.excl_invD(2)[OF locks(2) this a(2)] show thesis using that by blast
    next
      fix sid e assume a: "pcs ! j = FA_once e" "once_busy st e"
      then have "e < length (ct_entry_heap st)" using holder_okD(1)[OF once_invD(3)[OF onces(1) assms(2)], of e] by simp
      from once.excl_invD(2)[OF onces(2) this a(2)] show thesis using that by blast
    qed
    have "\<exists>r. thread_step (ops ! i) (pcs ! i) c st = Some r"
      by (rule owner_moves[OF loc(1)[OF i(1)] i(2) loc(2)[OF i(1)]])
    then show ?thesis using i(1) by blast
  qed
qed

section \<open>Additions are tickets\<close>

text \<open>The sum of the additions to a key.\<close>

definition sum_adds :: "string \<Rightarrow> addition list \<Rightarrow> 64 word" where
  "sum_adds key xs = sum_list (map (\<lambda>(k, opID, eo, d, v). if k = key then d else 0) xs)"

lemma sum_adds_simps [simp]:
  "sum_adds key [] = 0"
  "sum_adds key (xs @ [(k, opID, eo, d, v)]) = sum_adds key xs + (if k = key then d else 0)"
  by (simp_all add: sum_adds_def)

text \<open>The history of a sequential counter that starts at the given values.\<close>

fun tickets :: "(string \<Rightarrow> 64 word) \<Rightarrow> addition list \<Rightarrow> bool" where
  "tickets start [] = True"
| "tickets start ((key, opID, eo, d, v) # adds) \<longleftrightarrow> v = start key \<and> tickets (start(key := start key + d)) adds"

lemma tickets_snoc:
  "tickets start (adds @ [(key, opID, eo, d, v)]) \<longleftrightarrow> tickets start adds \<and> v = start key + sum_adds key adds"
  by (induction adds arbitrary: start) (auto simp: sum_adds_def add.assoc)

lemma tickets_cong:
  "(\<And>key. key \<in> fst ` set adds \<Longrightarrow> start key = start' key) \<Longrightarrow> tickets start adds = tickets start' adds"
proof (induction adds arbitrary: start start')
  case (Cons a adds)
  obtain key opID eo d v where a: "a = (key, opID, eo, d, v)" by (cases a) auto
  have "tickets (start(key := start key + d)) adds = tickets (start'(key := start' key + d)) adds"
    by (rule Cons.IH) (use Cons.prems a in auto)
  then show ?case using Cons.prems a by simp
qed simp

definition ticket_inv :: "cstore \<Rightarrow> (string \<Rightarrow> 64 word) \<Rightarrow> bool" where
  "ticket_inv st start \<longleftrightarrow> tickets start (ct_adds st) \<and>
     (\<forall>key \<in> fst ` set (ct_adds st). map_of (ct_counters st) key \<noteq> None) \<and>
     (\<forall>key v. map_of (ct_counters st) key = Some v \<longrightarrow> v = start key + sum_adds key (ct_adds st))"

lemma ticket_invD:
  assumes "ticket_inv st start"
  shows "tickets start (ct_adds st)" "map_of (ct_counters st) key = None \<Longrightarrow> key \<notin> fst ` set (ct_adds st)"
    "map_of (ct_counters st) key = Some v \<Longrightarrow> v = start key + sum_adds key (ct_adds st)"
  using assms unfolding ticket_inv_def by blast+

lemma sum_adds_absent: "key \<notin> fst ` set adds \<Longrightarrow> sum_adds key adds = 0"
  by (induction adds) (auto simp: sum_adds_def)

lemma counter_effect:
  assumes "thread_step x p c st = Some (p', st')"
  shows "(map_of (ct_counters st') = map_of (ct_counters st) \<and> ct_adds st' = ct_adds st) \<or>
    (\<exists>key v. map_of (ct_counters st) key = None \<and> map_of (ct_counters st') = (map_of (ct_counters st))(key \<mapsto> v) \<and>
       ct_adds st' = ct_adds st) \<or>
    (\<exists>key d opID now eo v. x = OpFetchAdd key d opID now \<and> p = FA_add eo \<and> map_of (ct_counters st) key = Some v \<and>
       map_of (ct_counters st') = (map_of (ct_counters st))(key \<mapsto> v + d) \<and>
       ct_adds st' = ct_adds st @ [(key, opID, eo, d, v)])"
  using assms
  by (cases x; cases p;
    auto simp: Let_def AList.update_conv' simp del: not_None_eq split: if_splits option.splits once_state.splits prod.splits; blast)

lemma reachable_tickets: "reachable ttl ops s \<Longrightarrow> \<exists>start. ticket_inv (fst s) start"
proof (induction rule: reachable.induct)
  case init
  show ?case by (simp add: ticket_inv_def sys_init_def new_cstore_def)
next
  case (step s x s')
  obtain st pcs where s: "s = (st, pcs)" by force
  obtain i c p' st' where i: "i < length pcs" "thread_step (ops ! i) (pcs ! i) c st = Some (p', st')"
    and s': "s' = (st', pcs[i := p'])"
    using step.hyps(2) unfolding s by (elim sys_stepE)
  obtain start where inv: "ticket_inv st start" using step.IH s by auto
  note old = ticket_invD[OF inv]
  from counter_effect[OF i(2)] have "\<exists>start. ticket_inv st' start"
  proof (elim disjE exE conjE)
    assume same: "map_of (ct_counters st') = map_of (ct_counters st)" "ct_adds st' = ct_adds st"
    show ?thesis using inv unfolding ticket_inv_def same by blast
  next
    fix key v
    assume new: "map_of (ct_counters st) key = None" "map_of (ct_counters st') = (map_of (ct_counters st))(key \<mapsto> v)"
      "ct_adds st' = ct_adds st"
    have k: "key \<notin> fst ` set (ct_adds st)" by (rule old(2)[OF new(1)])
    have "tickets start (ct_adds st) = tickets (start(key := v)) (ct_adds st)"
      by (rule tickets_cong) (use k in auto)
    then have "tickets (start(key := v)) (ct_adds st)" using old(1) by blast
    moreover have "u = (start(key := v)) q + sum_adds q (ct_adds st)" if "map_of (ct_counters st') q = Some u" for q u
      using that old(3)[of q u] sum_adds_absent[OF k] unfolding new(2) by (cases "q = key") simp_all
    moreover have "map_of (ct_counters st') q \<noteq> None" if "q \<in> fst ` set (ct_adds st)" for q
      using that old(2)[of q] unfolding new(2) by (cases "q = key") auto
    ultimately show ?thesis unfolding ticket_inv_def new(3) by blast
  next
    fix key d opID now eo v
    assume add: "map_of (ct_counters st) key = Some v" "map_of (ct_counters st') = (map_of (ct_counters st))(key \<mapsto> v + d)"
      "ct_adds st' = ct_adds st @ [(key, opID, eo, d, v)]"
    have v: "v = start key + sum_adds key (ct_adds st)" by (rule old(3)[OF add(1)])
    have "u = start q + sum_adds q (ct_adds st')" if "map_of (ct_counters st') q = Some u" for q u
      using that old(3)[of q u] v unfolding add(2,3) by (cases "q = key") (simp_all add: add.assoc)
    moreover have "map_of (ct_counters st') q \<noteq> None" if "q \<in> fst ` set (ct_adds st')" for q
      using that old(2)[of q] unfolding add(2,3) by (cases "q = key") auto
    moreover have "tickets start (ct_adds st')" unfolding add(3) tickets_snoc using old(1) v by blast
    ultimately show ?thesis unfolding ticket_inv_def by blast
  qed
  then show ?case by (simp add: s')
qed

section \<open>Retries get the ticket of the first attempt\<close>

text \<open>The operations among which the entry of an operation id is never released: the id is not dropped, and no
  call for it is older than the cutoff of a sweep. The sweeps are free otherwise.\<close>

definition retry_safe :: "int \<Rightarrow> string \<Rightarrow> store_op list \<Rightarrow> bool" where
  "retry_safe ttl opID ops \<longleftrightarrow>
     list_all (\<lambda>x. case x of
         OpFetchAdd key d op now \<Rightarrow>
           op = opID \<longrightarrow> list_all (\<lambda>y. case y of OpSweep t \<Rightarrow> t - ttl \<le> now | _ \<Rightarrow> True) ops
       | OpDropScope op \<Rightarrow> op \<noteq> opID
       | OpSweep now \<Rightarrow> True) ops"

lemma retry_safeD:
  assumes "retry_safe ttl opID ops"
  shows "i < length ops \<Longrightarrow> ops ! i \<noteq> OpDropScope opID"
    "i < length ops \<Longrightarrow> ops ! i = OpFetchAdd key d opID now \<Longrightarrow> OpSweep t \<in> set ops \<Longrightarrow> t - ttl \<le> now"
  using assms unfolding retry_safe_def list_all_iff by (force dest: nth_mem)+

text \<open>The scope that a thread refers to with the operation id that it takes it for.\<close>

definition op_of_pc :: "store_op \<Rightarrow> pc \<Rightarrow> string" where
  "op_of_pc x p =
     (case x of
        OpFetchAdd key d opID now \<Rightarrow> opID
      | OpDropScope opID \<Rightarrow> opID
      | OpSweep now \<Rightarrow> (case p of SW_probe v q sid \<Rightarrow> q | SW_lock v q sid \<Rightarrow> q | SW_recheck v q sid \<Rightarrow> q
                       | SW_unlink v q sid \<Rightarrow> q | SW_delete v q sid ks \<Rightarrow> q | _ \<Rightarrow> []))"

definition scopes_owned :: "cstore \<Rightarrow> bool" where
  "scopes_owned st \<longleftrightarrow> (\<forall>(opID, sid) \<in> set (ct_scopes st). cs_owner (scope_at st sid) = opID)"

definition pc_owned :: "cstore \<Rightarrow> store_op \<Rightarrow> pc \<Rightarrow> bool" where
  "pc_owned st x p \<longleftrightarrow> (\<forall>sid. scope_of_pc p = Some sid \<longrightarrow> cs_owner (scope_at st sid) = op_of_pc x p)"

lemma nth_upd: "j < length xs \<Longrightarrow> xs[i := y] ! j = (if i = j then y else xs ! j)"
  by (cases "i = j") auto

lemma owner_kept:
  "thread_step x p c st = Some (p', st') \<Longrightarrow> sid < length (ct_scope_heap st) \<Longrightarrow>
   cs_owner (scope_at st' sid) = cs_owner (scope_at st sid)"
  by (cases x; cases p)
    (auto simp: Let_def nth_append nth_upd split: if_splits option.splits once_state.splits prod.splits)

lemma scopes_new:
  assumes "thread_step x p c st = Some (p', st')" "(q, sid) \<in> set (ct_scopes st')"
  shows "(q, sid) \<in> set (ct_scopes st) \<or> sid = length (ct_scope_heap st) \<and> cs_owner (scope_at st' sid) = q"
proof (cases x)
  case (OpFetchAdd key d opID now)
  then show ?thesis using assms set_update_sub[of opID "length (ct_scope_heap st)" "ct_scopes st"]
    by (cases p) (auto simp: Let_def split: if_splits option.splits once_state.splits)
next
  case (OpDropScope opID)
  then show ?thesis using assms set_delete_sub[of opID "ct_scopes st"]
    by (cases p) (auto simp: Let_def split: if_splits option.splits)
next
  case (OpSweep now)
  then show ?thesis using assms
    by (cases p) (auto simp: Let_def dest: subsetD[OF set_delete_sub] split: if_splits prod.splits)
qed

lemma scopes_owned_step:
  assumes "thread_step x p c st = Some (p', st')" "scopes_owned st" "scopes_in_heap st"
  shows "scopes_owned st'"
  unfolding scopes_owned_def
proof (intro ballI, clarify)
  fix q sid assume "(q, sid) \<in> set (ct_scopes st')"
  from scopes_new[OF assms(1) this] show "cs_owner (scope_at st' sid) = q"
  proof
    assume "(q, sid) \<in> set (ct_scopes st)"
    then have "sid < length (ct_scope_heap st)" "cs_owner (scope_at st sid) = q"
      using assms(2,3) by (auto simp: scopes_owned_def scopes_in_heap_def)
    then show ?thesis using owner_kept[OF assms(1)] by simp
  qed blast
qed

lemma owned_lookup: "scopes_owned st \<Longrightarrow> map_of (ct_scopes st) opID = Some sid \<Longrightarrow> cs_owner (scope_at st sid) = opID"
  by (auto simp: scopes_owned_def dest: map_of_SomeD)

lemma owned_pending:
  assumes "scopes_owned st" "n < length (filter f (ct_scopes st))" "filter f (ct_scopes st) ! n = (opID, sid)"
  shows "cs_owner (scope_at st sid) = opID"
  using assms nth_mem[OF assms(2)] by (auto simp: scopes_owned_def)

lemma pc_owned_step:
  assumes "thread_step x p c st = Some (p', st')" "scopes_owned st" "pc_owned st x p" "scope_ok st p"
  shows "pc_owned st' x p'"
  using assms
  by (cases x; cases p)
    (auto simp: Let_def pc_owned_def scope_ok_def op_of_pc_def nth_upd owned_lookup
      dest: owned_pending split: if_splits option.splits once_state.splits prod.splits)

text \<open>How a step changes a scope: its keys are added to under its lock, and its time is that of the call that
  touches it.\<close>

lemma keys_effect:
  assumes "thread_step x p c st = Some (p', st')" "cs_keys (scope_at st' sid) \<noteq> []" "sid < length (ct_scope_heap st)"
  shows "cs_keys (scope_at st sid) \<noteq> [] \<or> p = RL_check sid"
  using assms
  by (cases x; cases p)
    (auto simp: Let_def nth_append nth_upd split: if_splits option.splits once_state.splits prod.splits)

lemma new_scope_keys:
  assumes "thread_step x p c st = Some (p', st')" "length (ct_scope_heap st) \<le> sid" "sid < length (ct_scope_heap st')"
  shows "cs_keys (scope_at st' sid) = []"
  using assms
  by (cases x; cases p)
    (auto simp: Let_def nth_append split: if_splits option.splits once_state.splits prod.splits)

lemma time_effect:
  assumes "thread_step x p c st = Some (p', st')" "sid < length (ct_scope_heap st)"
  shows "cs_lastAccessedNano (scope_at st' sid) = cs_lastAccessedNano (scope_at st sid) \<or>
    p = RL_touch sid \<and> (\<exists>key d opID now. x = OpFetchAdd key d opID now \<and> cs_lastAccessedNano (scope_at st' sid) = now)"
  using assms
  by (cases x; cases p)
    (auto simp: Let_def nth_append nth_upd split: if_splits option.splits once_state.splits prod.splits)

lemma ttl_kept: "thread_step x p c st = Some (p', st') \<Longrightarrow> ct_ttl st' = ct_ttl st"
  by (cases x; cases p)
    (auto simp: Let_def split: if_splits option.splits once_state.splits prod.splits)

text \<open>A scope that no sweep finds stale, and the scope that a call has touched and registers its key with.\<close>

definition fresh :: "int \<Rightarrow> store_op list \<Rightarrow> cscope \<Rightarrow> bool" where
  "fresh ttl ops sc \<longleftrightarrow> (\<forall>t. OpSweep t \<in> set ops \<longrightarrow> t - ttl \<le> cs_lastAccessedNano sc)"

fun registering :: "pc \<Rightarrow> nat option" where
  "registering (RL_lock sid) = Some sid"
| "registering (RL_check sid) = Some sid"
| "registering (RL_idem sid) = Some sid"
| "registering (RL_idem_store sid) = Some sid"
| "registering (RL_unlock sid e) = Some sid"
| "registering _ = None"

lemma touched_is_scope: "registering p = Some sid \<Longrightarrow> scope_of_pc p = Some sid"
  by (cases p) auto

text \<open>A sweep that has begun to evict a scope of the operation id has found no key in it.\<close>

definition evicts_nothing :: "string \<Rightarrow> cstore \<Rightarrow> pc \<Rightarrow> bool" where
  "evicts_nothing opID st p \<longleftrightarrow>
     (\<forall>v sid. p = SW_unlink v opID sid \<longrightarrow> cs_keys (scope_at st sid) = []) \<and>
     (\<forall>v sid ks. p = SW_delete v opID sid ks \<longrightarrow> ks = [])"

definition spared_inv :: "int \<Rightarrow> string \<Rightarrow> store_op list \<Rightarrow> system \<Rightarrow> bool" where
  "spared_inv ttl opID ops = (\<lambda>(st, pcs).
     ct_ttl st = ttl \<and> scopes_owned st \<and>
     (\<forall>sid < length (ct_scope_heap st). cs_owner (scope_at st sid) = opID \<longrightarrow> cs_keys (scope_at st sid) \<noteq> [] \<longrightarrow>
        fresh ttl ops (scope_at st sid)) \<and>
     (\<forall>i < length pcs. pc_owned st (ops ! i) (pcs ! i) \<and> evicts_nothing opID st (pcs ! i) \<and>
        (\<forall>sid. registering (pcs ! i) = Some sid \<longrightarrow> cs_owner (scope_at st sid) = opID \<longrightarrow> fresh ttl ops (scope_at st sid))))"

lemma spared_invD:
  assumes "spared_inv ttl opID ops (st, pcs)"
  shows "ct_ttl st = ttl" "scopes_owned st"
    "sid < length (ct_scope_heap st) \<Longrightarrow> cs_owner (scope_at st sid) = opID \<Longrightarrow> cs_keys (scope_at st sid) \<noteq> [] \<Longrightarrow>
       fresh ttl ops (scope_at st sid)"
    "i < length pcs \<Longrightarrow> pc_owned st (ops ! i) (pcs ! i)"
    "i < length pcs \<Longrightarrow> evicts_nothing opID st (pcs ! i)"
    "i < length pcs \<Longrightarrow> registering (pcs ! i) = Some sid \<Longrightarrow> cs_owner (scope_at st sid) = opID \<Longrightarrow>
       fresh ttl ops (scope_at st sid)"
  using assms unfolding spared_inv_def prod.case by blast+

lemma touched_step:
  assumes "thread_step x p c st = Some (p', st')" "registering p' = Some sid" "scope_ok st p"
  shows "registering p = Some sid \<or>
    p = RL_touch sid \<and> (\<exists>key d opID now. x = OpFetchAdd key d opID now \<and> cs_lastAccessedNano (scope_at st' sid) = now)"
  using assms
  by (cases x; cases p)
    (auto simp: Let_def scope_ok_def split: if_splits option.splits once_state.splits prod.splits)

lemma evict_step:
  assumes "thread_step x p c st = Some (p', st')" "evicts_nothing opID st p"
    and "\<And>v sid t. x = OpSweep t \<Longrightarrow> p = SW_recheck v opID sid \<Longrightarrow>
      cs_lastAccessedNano (scope_at st sid) < t - ct_ttl st \<Longrightarrow> cs_keys (scope_at st sid) = []"
    and "scope_ok st p"
  shows "evicts_nothing opID st' p'"
  using assms
  by (cases x; cases p)
    (auto simp: Let_def evicts_nothing_def scope_ok_def
      split: if_splits option.splits once_state.splits prod.splits)

lemma fresh_step:
  assumes safe: "retry_safe ttl opID ops" and i: "i < length ops" "thread_step (ops ! i) p c st = Some (p', st')"
    and own: "pc_owned st (ops ! i) p" and sid: "sid < length (ct_scope_heap st)" "cs_owner (scope_at st sid) = opID"
    and old: "fresh ttl ops (scope_at st sid)"
  shows "fresh ttl ops (scope_at st' sid)"
  using time_effect[OF i(2) sid(1)]
proof (elim disjE conjE exE)
  fix key d op now
  assume p: "p = RL_touch sid" and x: "ops ! i = OpFetchAdd key d op now" and t: "cs_lastAccessedNano (scope_at st' sid) = now"
  have "op = opID" using own sid(2) unfolding p x by (simp add: pc_owned_def op_of_pc_def)
  then show ?thesis using retry_safeD(2)[OF safe i(1)] x t by (auto simp: fresh_def)
qed (use old in \<open>simp add: fresh_def\<close>)

lemma touch_fresh:
  assumes safe: "retry_safe ttl opID ops" and i: "i < length ops" "ops ! i = OpFetchAdd key d op now"
    and own: "pc_owned st (ops ! i) (RL_touch sid)" "cs_owner (scope_at st sid) = opID"
    and t: "cs_lastAccessedNano sc = now"
  shows "fresh ttl ops sc"
proof -
  have "op = opID" using own i(2) by (simp add: pc_owned_def op_of_pc_def)
  then show ?thesis using retry_safeD(2)[OF safe i(1)] i(2) t by (auto simp: fresh_def)
qed

text \<open>One step of thread \<open>i\<close>.\<close>

lemma in_heap: "scopes_inv (st, pcs) \<Longrightarrow> j < length pcs \<Longrightarrow> scope_of_pc (pcs ! j) = Some sid \<Longrightarrow> sid < length (ct_scope_heap st)"
  by (auto simp: scopes_inv_def scope_ok_def)

lemma spared_keys:
  assumes inv: "spared_inv ttl opID ops (st, pcs)" and safe: "retry_safe ttl opID ops" and len: "length pcs = length ops"
    and i: "i < length pcs" "thread_step (ops ! i) (pcs ! i) c st = Some (p', st')"
    and sid: "sid < length (ct_scope_heap st')" "cs_owner (scope_at st' sid) = opID" "cs_keys (scope_at st' sid) \<noteq> []"
  shows "fresh ttl ops (scope_at st' sid)"
proof -
  note old = spared_invD[OF inv]
  have lt: "sid < length (ct_scope_heap st)" using new_scope_keys[OF i(2) _ sid(1)] sid(3) by force
  have own: "cs_owner (scope_at st sid) = opID" using owner_kept[OF i(2) lt] sid(2) by simp
  have "fresh ttl ops (scope_at st sid)"
    using keys_effect[OF i(2) sid(3) lt] old(3)[OF lt own] old(6)[OF i(1) _ own] by auto
  then show ?thesis by (rule fresh_step[OF safe i(1)[unfolded len] i(2) old(4)[OF i(1)] lt own])
qed

lemma spared_touched:
  assumes inv: "spared_inv ttl opID ops (st, pcs)" and safe: "retry_safe ttl opID ops" and len: "length pcs = length ops"
    and scopes: "scopes_inv (st, pcs)"
    and i: "i < length pcs" "thread_step (ops ! i) (pcs ! i) c st = Some (p', st')"
    and j: "j < length pcs" "registering (pcs[i := p'] ! j) = Some sid" "cs_owner (scope_at st' sid) = opID"
  shows "fresh ttl ops (scope_at st' sid)"
proof -
  note old = spared_invD[OF inv]
  have ii: "i < length ops" using i(1) len by simp
  have kept: "fresh ttl ops (scope_at st' sid)" if k: "k < length pcs" "registering (pcs ! k) = Some sid" for k
  proof -
    have lt: "sid < length (ct_scope_heap st)" by (rule in_heap[OF scopes k(1) touched_is_scope[OF k(2)]])
    have own: "cs_owner (scope_at st sid) = opID" using owner_kept[OF i(2) lt] j(3) by simp
    show ?thesis by (rule fresh_step[OF safe ii i(2) old(4)[OF i(1)] lt own old(6)[OF k own]])
  qed
  show ?thesis
  proof (cases "j = i")
    case True
    have ok: "scope_ok st (pcs ! i)" using scopes i(1) by (simp add: scopes_inv_def)
    have "registering p' = Some sid" using j(1,2) True by simp
    from touched_step[OF i(2) this ok] show ?thesis
    proof (elim disjE conjE exE)
      fix key d op now
      assume p: "pcs ! i = RL_touch sid" and x: "ops ! i = OpFetchAdd key d op now" "cs_lastAccessedNano (scope_at st' sid) = now"
      have lt: "sid < length (ct_scope_heap st)" by (rule in_heap[OF scopes i(1)]) (simp add: p)
      have own: "cs_owner (scope_at st sid) = opID" using owner_kept[OF i(2) lt] j(3) by simp
      show ?thesis by (rule touch_fresh[OF safe ii x(1) old(4)[OF i(1), unfolded p] own x(2)])
    qed (rule kept[OF i(1)])
  qed (use kept[OF j(1)] j(2) in simp)
qed

lemma spared_recheck:
  assumes inv: "spared_inv ttl opID ops (st, pcs)" and len: "length pcs = length ops" and scopes: "scopes_inv (st, pcs)"
    and i: "i < length pcs" "ops ! i = OpSweep t" "pcs ! i = SW_recheck v opID sid"
      "cs_lastAccessedNano (scope_at st sid) < t - ct_ttl st"
  shows "cs_keys (scope_at st sid) = []"
proof (rule ccontr)
  note old = spared_invD[OF inv]
  assume k: "cs_keys (scope_at st sid) \<noteq> []"
  have lt: "sid < length (ct_scope_heap st)" by (rule in_heap[OF scopes i(1)]) (simp add: i(3))
  have own: "cs_owner (scope_at st sid) = opID" using old(4)[OF i(1)] i(2,3) by (simp add: pc_owned_def op_of_pc_def)
  have "OpSweep t \<in> set ops" using nth_mem[of i ops] i(1,2) len by simp
  then show False using old(3)[OF lt own k] i(4) old(1) by (force simp: fresh_def)
qed

lemma spared_evict:
  assumes inv: "spared_inv ttl opID ops (st, pcs)" and scopes: "scopes_inv (st, pcs)" and lock: "lock.excl_inv (st, pcs)"
    and i: "i < length pcs" "thread_step (ops ! i) (pcs ! i) c st = Some (p', st')" and j: "j < length pcs" "j \<noteq> i"
  shows "evicts_nothing opID st' (pcs ! j)"
proof -
  note old = spared_invD(5)[OF inv j(1)]
  have "cs_keys (scope_at st' sid) = []" if a: "pcs ! j = SW_unlink v opID sid" for v sid
  proof (rule ccontr)
    assume k: "cs_keys (scope_at st' sid) \<noteq> []"
    have lt: "sid < length (ct_scope_heap st)" by (rule in_heap[OF scopes j(1)]) (simp add: a)
    have "cs_keys (scope_at st sid) = []" using old a by (simp add: evicts_nothing_def)
    then have "pcs ! i = RL_check sid" using keys_effect[OF i(2) k lt] by simp
    then show False using lock.excl_invD(3)[OF lock j(1) i(1), of sid] a j(2) by simp
  qed
  then show ?thesis using old unfolding evicts_nothing_def by blast
qed

lemma spared_step:
  assumes inv: "spared_inv ttl opID ops (st, pcs)" and safe: "retry_safe ttl opID ops" and len: "length pcs = length ops"
    and scopes: "scopes_inv (st, pcs)" and lock: "lock.excl_inv (st, pcs)"
    and i: "i < length pcs" "thread_step (ops ! i) (pcs ! i) c st = Some (p', st')"
  shows "spared_inv ttl opID ops (st', pcs[i := p'])"
proof -
  note old = spared_invD[OF inv]
  have heap: "scopes_in_heap st" "scope_ok st (pcs ! i)" using scopes i(1) by (auto simp: scopes_inv_def)
  have "pc_owned st' (ops ! j) (pcs[i := p'] ! j) \<and> evicts_nothing opID st' (pcs[i := p'] ! j)" if j: "j < length pcs" for j
  proof (cases "j = i")
    case True
    have "evicts_nothing opID st' p'"
      by (rule evict_step[OF i(2) old(5)[OF i(1)] _ heap(2)]) (rule spared_recheck[OF inv len scopes i(1)])
    then show ?thesis using pc_owned_step[OF i(2) old(2) old(4)[OF i(1)] heap(2)] True i(1) by simp
  next
    case False
    have "pc_owned st' (ops ! j) (pcs ! j)"
      using old(4)[OF j] owner_kept[OF i(2) in_heap[OF scopes j]] by (simp add: pc_owned_def)
    then show ?thesis using spared_evict[OF inv scopes lock i j False] False by simp
  qed
  moreover have "ct_ttl st' = ttl" "scopes_owned st'"
    using ttl_kept[OF i(2)] old(1) scopes_owned_step[OF i(2) old(2) heap(1)] by simp_all
  ultimately show ?thesis unfolding spared_inv_def prod.case length_list_update
    using spared_keys[OF inv safe len i] spared_touched[OF inv safe len scopes i] by blast
qed

lemma reachable_spared: "reachable ttl ops s \<Longrightarrow> retry_safe ttl opID ops \<Longrightarrow> spared_inv ttl opID ops s"
proof (induction rule: reachable.induct)
  case init
  show ?case
    by (simp add: spared_inv_def sys_init_def new_cstore_def scopes_owned_def pc_owned_def evicts_nothing_def)
next
  case (step s x s')
  obtain st pcs where s: "s = (st, pcs)" by force
  obtain i c p' st' where i: "i < length pcs" "thread_step (ops ! i) (pcs ! i) c st = Some (p', st')"
    and s': "s' = (st', pcs[i := p'])"
    using step.hyps(2) unfolding s by (elim sys_stepE)
  show ?case unfolding s'
    using spared_step[OF step.IH[OF step.prems, unfolded s] step.prems _ _ _ i]
      reachable_lock[OF step.hyps(1)] reachable_length[OF step.hyps(1)] unfolding s by simp
qed

text \<open>What holds of a call for the key and the operation id.\<close>

definition call_ok :: "string \<times> string \<Rightarrow> cstore \<Rightarrow> pc \<Rightarrow> bool" where
  "call_ok ko st p \<longleftrightarrow>
     (\<forall>e. entry_of_pc p = Some e \<longrightarrow> map_of (ct_idem st) ko = Some e) \<and>
     (\<forall>v. p = RetVal v \<longrightarrow> (\<exists>e. map_of (ct_idem st) ko = Some e \<and> ie_once (entry_at st e) = OnceDone \<and>
        ie_previous (entry_at st e) = v)) \<and>
     p \<notin> {FA_counter None, FA_counter_store None, FA_add None}"

fun calls_entry :: "string \<times> string \<Rightarrow> store_op \<Rightarrow> bool" where
  "calls_entry ko (OpFetchAdd key d opID now) = (ko = (key, opID))"
| "calls_entry ko _ = False"

definition retry_inv :: "string \<times> string \<Rightarrow> store_op list \<Rightarrow> system \<Rightarrow> bool" where
  "retry_inv ko ops = (\<lambda>(st, pcs).
     (\<forall>i < length pcs. calls_entry ko (ops ! i) \<longrightarrow> call_ok ko st (pcs ! i)) \<and>
     (\<forall>key opID eo d v. (key, opID, eo, d, v) \<in> set (ct_adds st) \<longrightarrow> ko = (key, opID) \<longrightarrow>
        eo = map_of (ct_idem st) ko \<and> eo \<noteq> None))"

lemma idem_stable:
  assumes "thread_step x p c st = Some (p', st')" "x \<noteq> OpDropScope opID" "evicts_nothing opID st p"
    "map_of (ct_idem st) (key, opID) = Some e"
  shows "map_of (ct_idem st') (key, opID) = Some e"
  using assms
  by (cases x; cases p)
    (auto simp: evicts_nothing_def Let_def AList.update_conv' AList.delete_conv'
      split: if_splits option.splits once_state.splits)

lemma done_stable:
  assumes step: "thread_step x p c st = Some (p', st')" and p: "holder_ok st p"
    and e: "e < length (ct_entry_heap st)" "ie_once (entry_at st e) = OnceDone"
  shows "entry_at st' e = entry_at st e"
proof -
  obtain f where f: "entry_effect_ok f p p' st st'" using thread_effect[OF step] by blast
  show ?thesis
  proof (cases f)
    case (Begin n)
    then show ?thesis using f e by (cases "n = e") auto
  next
    case (Publish n v)
    then have "p = FA_publish n v" using f by simp
    then have "n \<noteq> e" using p e(2) by (auto simp: holder_ok_def)
    then show ?thesis using f Publish by simp
  qed (use f e in \<open>auto simp: nth_append\<close>)
qed

lemma call_step:
  assumes "thread_step (OpFetchAdd key d opID now) p c st = Some (p', st')" "opID \<noteq> []" "call_ok (key, opID) st p"
    and "\<And>e. p = FA_read e \<Longrightarrow> ie_once (entry_at st e) = OnceDone"
  shows "call_ok (key, opID) st' p'"
  using assms
  by (cases p) (auto simp: call_ok_def Let_def AList.update_conv' split: if_splits option.splits once_state.splits)

lemma call_ok_other:
  assumes "call_ok (key, opID) st p" "thread_step x q c st = Some (q', st')" "x \<noteq> OpDropScope opID" "evicts_nothing opID st q"
      "holder_ok st q"
    and "\<And>e. map_of (ct_idem st) (key, opID) = Some e \<Longrightarrow> e < length (ct_entry_heap st)"
  shows "call_ok (key, opID) st' p"
proof -
  have "entry_at st' e = entry_at st e" if "map_of (ct_idem st) (key, opID) = Some e" "ie_once (entry_at st e) = OnceDone" for e
    using done_stable[OF assms(2,5) assms(6)[OF that(1)] that(2)] .
  then show ?thesis using assms(1) idem_stable[OF assms(2-4), of key] unfolding call_ok_def by metis
qed

lemma calls_entryE:
  assumes "calls_entry ko x"
  obtains d now where "x = OpFetchAdd (fst ko) d (snd ko) now"
  using assms by (cases x) auto

lemma adds_by:
  assumes "thread_step x p c st = Some (p', st')"
  shows "ct_adds st' = ct_adds st \<or>
    (\<exists>key d opID now eo v. x = OpFetchAdd key d opID now \<and> p = FA_add eo \<and> ct_adds st' = ct_adds st @ [(key, opID, eo, d, v)])"
  using counter_effect[OF assms] by blast

lemma retry_inv_adds:
  assumes inv: "retry_inv (key, opID) ops (st, pcs)" and i: "i < length pcs"
    and step: "thread_step (ops ! i) (pcs ! i) c st = Some (p', st')" and safe: "ops ! i \<noteq> OpDropScope opID"
      "evicts_nothing opID st (pcs ! i)"
    and a: "(key, opID, eo, d, v) \<in> set (ct_adds st')"
  shows "eo = map_of (ct_idem st') (key, opID) \<and> eo \<noteq> None"
proof -
  have "eo = map_of (ct_idem st) (key, opID) \<and> eo \<noteq> None"
  proof (cases "(key, opID, eo, d, v) \<in> set (ct_adds st)")
    case True
    then show ?thesis using inv unfolding retry_inv_def by blast
  next
    case False
    then obtain now where "ops ! i = OpFetchAdd key d opID now" "pcs ! i = FA_add eo"
      using adds_by[OF step] a by auto
    moreover from this have "call_ok (key, opID) st (pcs ! i)" using inv i by (auto simp: retry_inv_def)
    ultimately show ?thesis by (cases eo) (auto simp: call_ok_def)
  qed
  then show ?thesis using idem_stable[OF step safe, of key] by (metis option.exhaust)
qed

lemma reachable_retry:
  "reachable ttl ops s \<Longrightarrow> retry_safe ttl opID ops \<Longrightarrow> opID \<noteq> [] \<Longrightarrow> retry_inv (key, opID) ops s"
proof (induction rule: reachable.induct)
  case init
  show ?case by (simp add: retry_inv_def sys_init_def new_cstore_def call_ok_def)
next
  case (step s x s')
  obtain st pcs where s: "s = (st, pcs)" by force
  obtain i c p' st' where i: "i < length pcs" "thread_step (ops ! i) (pcs ! i) c st = Some (p', st')"
    and s': "s' = (st', pcs[i := p'])"
    using step.hyps(2) unfolding s by (elim sys_stepE)
  note inv = step.IH[OF step.prems, unfolded s]
  have once: "once_inv (st, pcs)" using reachable_once[OF step.hyps(1)] s by simp
  have safe: "ops ! i \<noteq> OpDropScope opID" "evicts_nothing opID st (pcs ! i)"
    using retry_safeD(1)[OF step.prems(1), of i] spared_invD(5)[OF reachable_spared[OF step.hyps(1) step.prems(1), unfolded s] i(1)]
      i(1) reachable_length[OF step.hyps(1)] s by simp_all
  have "call_ok (key, opID) st' (pcs[i := p'] ! j)" if j: "j < length pcs" "calls_entry (key, opID) (ops ! j)" for j
  proof (cases "j = i")
    case True
    obtain d now where x: "ops ! i = OpFetchAdd key d opID now" using j(2) True by (auto elim: calls_entryE)
    have "call_ok (key, opID) st (pcs ! i)" using inv j True by (auto simp: retry_inv_def)
    then have "call_ok (key, opID) st' p'"
      using call_step[OF i(2)[unfolded x] step.prems(2)] holder_okD(5)[OF once_invD(3)[OF once i(1)]] by blast
    then show ?thesis using True i(1) by simp
  next
    case False
    have "call_ok (key, opID) st (pcs ! j)" using inv j by (auto simp: retry_inv_def)
    from call_ok_other[OF this i(2) safe once_invD(3)[OF once i(1)] once_invD(1)[OF once]]
    show ?thesis using False by simp
  qed
  then show ?case
    unfolding s' retry_inv_def prod.case using retry_inv_adds[OF inv i safe] by auto
qed

text \<open>The additions for a key and an operation id.\<close>

definition adds_for :: "string \<Rightarrow> string \<Rightarrow> cstore \<Rightarrow> addition list" where
  "adds_for key opID st = filter (\<lambda>(k, op, eo, d, v). k = key \<and> op = opID) (ct_adds st)"

lemma filter_single:
  assumes "distinct (List.map_filter f xs)" "x \<in> set xs" "\<And>y. y \<in> set xs \<Longrightarrow> P y \<Longrightarrow> f y = Some z" "P x"
  shows "filter P xs = [x]"
  using assms
proof (induction xs)
  case (Cons a xs)
  have zs: "z \<in> set (List.map_filter f xs) \<longleftrightarrow> (\<exists>y \<in> set xs. f y = Some z)"
    by (force simp: List.map_filter_def)
  show ?case
  proof (cases "P a")
    case True
    then have "f a = Some z" using Cons.prems(3) by simp
    then have no: "\<not> P y" if "y \<in> set xs" for y
      using that Cons.prems(1,3) zs by (auto simp: List.map_filter_simps)
    then have "filter P xs = []" by (simp add: filter_empty_conv)
    moreover have "x = a" using no Cons.prems(2,4) by auto
    ultimately show ?thesis using True by simp
  next
    case False
    then have "filter P xs = [x]" using Cons.prems
      by (intro Cons.IH) (auto simp: List.map_filter_simps split: option.splits)
    then show ?thesis using False by simp
  qed
qed simp

text \<open>Each entry belongs to one key and operation id: it is used by the calls for them and by no other.\<close>

definition owner_inv :: "(nat \<Rightarrow> string \<times> string) \<Rightarrow> store_op list \<Rightarrow> system \<Rightarrow> bool" where
  "owner_inv own ops = (\<lambda>(st, pcs).
     (\<forall>x e. map_of (ct_idem st) x = Some e \<longrightarrow> own e = x) \<and>
     (\<forall>i < length pcs. \<forall>e. entry_of_pc (pcs ! i) = Some e \<longrightarrow> calls_entry (own e) (ops ! i)) \<and>
     (\<forall>key opID e d v. (key, opID, Some e, d, v) \<in> set (ct_adds st) \<longrightarrow> own e = (key, opID)))"

lemma owner_invD:
  assumes "owner_inv own ops (st, pcs)"
  shows "map_of (ct_idem st) x = Some e \<Longrightarrow> own e = x"
    "i < length pcs \<Longrightarrow> entry_of_pc (pcs ! i) = Some e \<Longrightarrow> calls_entry (own e) (ops ! i)"
    "(key, opID, Some e, d, v) \<in> set (ct_adds st) \<Longrightarrow> own e = (key, opID)"
  using assms unfolding owner_inv_def prod.case by blast+

lemma entry_step:
  assumes "thread_step x p c st = Some (p', st')" "entry_of_pc p' = Some e"
  shows "entry_of_pc p = Some e \<or> (\<exists>key d opID now. x = OpFetchAdd key d opID now \<and>
    (map_of (ct_idem st) (key, opID) = Some e \<or> e = length (ct_entry_heap st) \<and> map_of (ct_idem st') (key, opID) = Some e))"
  using assms
  by (cases x; cases p)
    (auto simp: Let_def AList.update_conv' split: if_splits option.splits once_state.splits prod.splits)

lemma idem_step:
  assumes "thread_step x p c st = Some (p', st')" "map_of (ct_idem st') ko = Some e"
  shows "map_of (ct_idem st) ko = Some e \<or> e = length (ct_entry_heap st)"
  using assms
  by (cases x; cases p)
    (auto simp: Let_def AList.update_conv' dest: delete_idem_sub split: if_splits option.splits once_state.splits prod.splits)

lemma idem_fresh:
  assumes "thread_step x p c st = Some (p', st')" and inv: "once_inv (st, pcs)" and
    "map_of (ct_idem st') ko = Some (length (ct_entry_heap st))" "map_of (ct_idem st') ko' = Some (length (ct_entry_heap st))"
  shows "ko = ko'"
proof -
  obtain f where f: "entry_effect_ok f p p' st st'" using thread_effect[OF assms(1)] by blast
  show ?thesis
  proof (cases f)
    case (Alloc y e)
    then have "ko = y" "ko' = y" using f once_invD(1)[OF inv, of ko] once_invD(1)[OF inv, of ko'] assms(3,4) by (auto split: if_splits)
    then show ?thesis by simp
  qed (use f once_invD(1)[OF inv, of ko] assms(3) in \<open>auto simp del: split_paired_All\<close>)
qed

lemma reachable_owner: "reachable ttl ops s \<Longrightarrow> \<exists>own. owner_inv own ops s"
proof (induction rule: reachable.induct)
  case init
  show ?case by (simp add: owner_inv_def sys_init_def new_cstore_def)
next
  case (step s x s')
  obtain st pcs where s: "s = (st, pcs)" by force
  obtain i c p' st' where i: "i < length pcs" "thread_step (ops ! i) (pcs ! i) c st = Some (p', st')"
    and s': "s' = (st', pcs[i := p'])"
    using step.hyps(2) unfolding s by (elim sys_stepE)
  obtain own where inv: "owner_inv own ops (st, pcs)" using step.IH s by auto
  have once: "once_inv (st, pcs)" using reachable_once[OF step.hyps(1)] s by simp
  obtain y where y: "\<And>ko. map_of (ct_idem st') ko = Some (length (ct_entry_heap st)) \<Longrightarrow> ko = y"
    using idem_fresh[OF i(2) once] by metis
  define own' where "own' = own(length (ct_entry_heap st) := y)"
  have old: "own' e = own e" if "e < length (ct_entry_heap st)" for e using that by (simp add: own'_def)
  have idem: "own' e = ko" if "map_of (ct_idem st') ko = Some e" for ko e
    using idem_step[OF i(2) that] y[of ko] that owner_invD(1)[OF inv, of ko] by (auto simp: own'_def)
  have held: "calls_entry (own' e) (ops ! j)" if "j < length pcs" "entry_of_pc (pcs ! j) = Some e" for j e
    using owner_invD(2)[OF inv that] old[OF holder_okD(1)[OF once_invD(3)[OF once that(1)] that(2)]] by simp
  have mine: "calls_entry (own' e) (ops ! i)" if e: "entry_of_pc p' = Some e" for e
    using entry_step[OF i(2) e]
  proof (elim disjE exE conjE)
    fix key d opID now assume x: "ops ! i = OpFetchAdd key d opID now" and m: "map_of (ct_idem st) (key, opID) = Some e"
    then show ?thesis using owner_invD(1)[OF inv m] old[OF once_invD(1)[OF once m]] by simp
  next
    fix key d opID now assume "ops ! i = OpFetchAdd key d opID now" "map_of (ct_idem st') (key, opID) = Some e"
    then show ?thesis using idem by simp
  qed (use held[OF i(1)] in blast)
  have "own' e = (key, opID)" if a: "(key, opID, Some e, d, v) \<in> set (ct_adds st')" for key opID e d v
  proof (cases "(key, opID, Some e, d, v) \<in> set (ct_adds st)")
    case True
    then have "e \<in> set (add_entries st)" unfolding in_add_entries added_def by blast
    then show ?thesis using owner_invD(3)[OF inv True] old once_invD(5)[OF once] by simp
  next
    case False
    then obtain now where "ops ! i = OpFetchAdd key d opID now" "pcs ! i = FA_add (Some e)"
      using adds_by[OF i(2)] a by auto
    then show ?thesis using held[OF i(1), of e] by simp
  qed
  then have "owner_inv own' ops (st', pcs[i := p'])"
    unfolding owner_inv_def prod.case using idem held mine i(1) by (auto simp: nth_list_update)
  then show ?case unfolding s' by blast
qed

lemma retry_single:
  assumes "reachable ttl ops (st, pcs)" "retry_safe ttl opID ops" "opID \<noteq> []" "i < length pcs"
    and x: "ops ! i = OpFetchAdd key d opID now" and v: "pcs ! i = RetVal v"
  shows "\<exists>e d'. map_of (ct_idem st) (key, opID) = Some e \<and> ie_previous (entry_at st e) = v \<and>
    adds_for key opID st = [(key, opID, Some e, d', v)]"
proof -
  obtain own where own: "owner_inv own ops (st, pcs)" using reachable_owner[OF assms(1)] by blast
  have once: "once_inv (st, pcs)" using reachable_once[OF assms(1)] by simp
  note retry = reachable_retry[OF assms(1,2,3), of key]
  have "call_ok (key, opID) st (RetVal v)" using retry assms(4) x v by (auto simp: retry_inv_def)
  then obtain e where e: "map_of (ct_idem st) (key, opID) = Some e" "ie_once (entry_at st e) = OnceDone" "ie_previous (entry_at st e) = v"
    by (auto simp: call_ok_def)
  have "added st e v" using once_invD(2)[OF once once_invD(1)[OF once e(1)]] e(2,3) by (auto simp: entry_ok_def)
  then obtain k op d' where a: "(k, op, Some e, d', v) \<in> set (ct_adds st)" by (auto simp: added_def)
  moreover have ko: "k = key" "op = opID" using owner_invD(3)[OF own a] owner_invD(1)[OF own e(1)] by auto
  have "adds_for key opID st = [(k, op, Some e, d', v)]" unfolding adds_for_def
  proof (rule filter_single[OF _ a])
    show "distinct (List.map_filter (\<lambda>(key, opID, eo, d, v). eo) (ct_adds st))"
      using once_invD(4)[OF once] unfolding add_entries_def .
    fix y assume y: "y \<in> set (ct_adds st)" "case y of (k, op, eo, d, v) \<Rightarrow> k = key \<and> op = opID"
    then show "(case y of (key, opID, eo, d, v) \<Rightarrow> eo) = Some e"
      using retry e(1) by (auto simp: retry_inv_def)
  qed (simp add: ko)
  then show ?thesis using e ko by blast
qed

section \<open>Properties\<close>

text \<open>C33: (liveness) The mutexes of the scopes and the \<^verbatim>\<open>sync.Once\<close> of the entries never deadlock: whatever the operations
  and however they were interleaved, as long as a call has not returned some thread can take a step.\<close>

theorem store_deadlock_free:
  assumes "reachable ttl ops (st, pcs)" "j < length pcs" "\<not> returned (pcs ! j)"
  shows "\<exists>i s'. sys_step ops (i, c) (st, pcs) = Some s'"
proof -
  obtain i p' st' where "i < length pcs" "thread_step (ops ! i) (pcs ! i) c st = Some (p', st')"
    using progress[OF assms, of c] by auto
  then show ?thesis by (intro exI[of _ i] exI[of _ "(st', pcs[i := p'])"]) (simp add: sys_step_def)
qed

text \<open>Two calls for one operation id: the second waits for the mutex that the first holds.\<close>

definition demo_retry_ops :: "store_op list" where
  "demo_retry_ops = [OpFetchAdd ''R'' 3 ''r'' 0, OpFetchAdd ''R'' 4 ''r'' 1, OpFetchAdd ''R'' 5 [] 1]"

definition demo_blocked :: system where
  "demo_blocked = the (run_schedule demo_retry_ops
     [(0, 0), (0, 0), (0, 0), (0, 0), (0, 0), (1, 0), (1, 0), (1, 0)] (sys_init 10 demo_retry_ops))"

lemma run_schedule_the:
  "run_schedule ops xs (sys_init ttl ops) \<noteq> None \<Longrightarrow> reachable ttl ops (the (run_schedule ops xs (sys_init ttl ops)))"
  using run_schedule_reachable[OF reachable.init] by force

lemma demo_blocked_reachable: "reachable 10 demo_retry_ops demo_blocked"
  unfolding demo_blocked_def by (rule run_schedule_the) code_simp

theorem store_deadlock_free_witness:
  "snd demo_blocked = [RL_check 0, RL_lock 0, Start] \<and> sys_step demo_retry_ops (1, 0) demo_blocked = None \<and>
   (\<exists>i s'. sys_step demo_retry_ops (i, 0) (fst demo_blocked, snd demo_blocked) = Some s')"
proof (intro conjI)
  show pcs: "snd demo_blocked = [RL_check 0, RL_lock 0, Start]" by code_simp
  show "sys_step demo_retry_ops (1, 0) demo_blocked = None" by code_simp
  show "\<exists>i s'. sys_step demo_retry_ops (i, 0) (fst demo_blocked, snd demo_blocked) = Some s'"
    using store_deadlock_free[of 10 demo_retry_ops "fst demo_blocked" "snd demo_blocked" 1 0]
    by (simp add: demo_blocked_reachable) (simp add: pcs)
qed

text \<open>C32: (functional) No update is lost. In every interleaving of \<^verbatim>\<open>FetchAdd\<close>, \<^verbatim>\<open>DropScope\<close> and sweeps the additions made so far
  are the tickets of sequential counters, each \<^verbatim>\<open>FetchAdd\<close> answering the value before its own addition, the
  counters hold their sums modulo $2^{64}$, and an entry makes its addition at most once.\<close>

theorem concurrent_tickets:
  assumes "reachable ttl ops (st, pcs)"
  shows "distinct (add_entries st) \<and>
    (\<exists>start. tickets start (ct_adds st) \<and>
       (\<forall>key v. map_of (ct_counters st) key = Some v \<longrightarrow> v = start key + sum_adds key (ct_adds st)))"
proof -
  have "once_inv (st, pcs)" using reachable_once[OF assms] by simp
  moreover obtain start where "ticket_inv st start" using reachable_tickets[OF assms] by auto
  ultimately show ?thesis using once_invD(4) ticket_invD(1,3) by blast
qed

definition demo_done :: system where
  "demo_done = the (run_schedule demo_retry_ops
     ([(0, 0), (0, 0), (0, 0), (0, 0), (0, 0), (1, 0), (1, 0), (1, 0), (2, 7), (2, 7), (2, 7)] @ replicate 5 (0, 9) @
      replicate 4 (1, 0) @ replicate 4 (0, 9) @ replicate 2 (1, 0) @ [(2, 7)]) (sys_init 10 demo_retry_ops))"

lemma demo_done_reachable: "reachable 10 demo_retry_ops demo_done"
  unfolding demo_done_def by (rule run_schedule_the) code_simp

theorem concurrent_tickets_witness:
  "ct_adds (fst demo_done) = [(''R'', ''r'', Some 0, 3, 7), (''R'', [], None, 5, 10)] \<and>
   distinct (add_entries (fst demo_done)) \<and>
   (\<exists>start. tickets start (ct_adds (fst demo_done)) \<and>
      (\<forall>key v. map_of (ct_counters (fst demo_done)) key = Some v \<longrightarrow>
         v = start key + sum_adds key (ct_adds (fst demo_done))))"
proof
  show "ct_adds (fst demo_done) = [(''R'', ''r'', Some 0, 3, 7), (''R'', [], None, 5, 10)]" by code_simp
  show "distinct (add_entries (fst demo_done)) \<and>
   (\<exists>start. tickets start (ct_adds (fst demo_done)) \<and>
      (\<forall>key v. map_of (ct_counters (fst demo_done)) key = Some v \<longrightarrow>
         v = start key + sum_adds key (ct_adds (fst demo_done))))"
    by (rule concurrent_tickets[of 10 demo_retry_ops _ "snd demo_done"]) (simp add: demo_done_reachable)
qed

text \<open>Two calls for one operation id beside a sweep: the sweep evicts the scope that the first has created and
  not yet touched, so the first registers again, and the second is a retry.\<close>

definition demo_swept_ops :: "store_op list" where
  "demo_swept_ops = [OpFetchAdd ''R'' 3 ''r'' 95, OpSweep 100, OpFetchAdd ''R'' 4 ''r'' 99]"

definition demo_swept :: system where
  "demo_swept = the (run_schedule demo_swept_ops
     (replicate 3 (0, 7) @ replicate 8 (1, 0) @ replicate 17 (0, 7) @ replicate 9 (2, 0)) (sys_init 10 demo_swept_ops))"

lemma demo_swept_reachable: "reachable 10 demo_swept_ops demo_swept"
  unfolding demo_swept_def by (rule run_schedule_the) code_simp

text \<open>C31: (safety) Retries are idempotent under concurrency, sweeps included. While the operation id is not dropped and none
  of its calls is older than the cutoff of a sweep, so that no sweep finds it idle beyond the TTL, the calls for it and a
  key make exactly one addition between them, whatever the amounts they ask for, and every call that has returned answered
  that addition's ticket. A sweep may still evict the scope that a call has created and not yet touched; the call then
  registers again, with the same entry.\<close>

theorem concurrent_retry:
  assumes "reachable ttl ops (st, pcs)" "retry_safe ttl opID ops" "opID \<noteq> []"
    and "i < length pcs" "ops ! i = OpFetchAdd key d opID now" "pcs ! i = RetVal v"
    and "j < length pcs" "ops ! j = OpFetchAdd key d' opID now'" "pcs ! j = RetVal w"
  shows "w = v \<and> (\<exists>e d''. adds_for key opID st = [(key, opID, Some e, d'', v)])"
  using retry_single[OF assms(1-3) assms(4-6)] retry_single[OF assms(1-3) assms(7-9)] by auto

theorem concurrent_retry_witness:
  "map cs_deleted (ct_scope_heap (fst demo_swept)) = [True, False] \<and>
   (\<exists>e d. adds_for ''R'' ''r'' (fst demo_swept) = [(''R'', ''r'', Some e, d, 7)])"
proof
  show "map cs_deleted (ct_scope_heap (fst demo_swept)) = [True, False]" by code_simp
  have pcs: "snd demo_swept = [RetVal 7, RetSwept, RetVal 7]" by code_simp
  show "\<exists>e d. adds_for ''R'' ''r'' (fst demo_swept) = [(''R'', ''r'', Some e, d, 7)]"
    using concurrent_retry[of 10 demo_swept_ops "fst demo_swept" "snd demo_swept" "''r''" 0 "''R''" 3 95 7 2 4 99 7]
    by (simp add: demo_swept_reachable) (simp add: pcs demo_swept_ops_def retry_safe_def)
qed

definition demo_orphan_ops :: "store_op list" where
  "demo_orphan_ops = [OpFetchAdd ''R'' 1 ''r'' 0, OpSweep 100, OpDropScope ''r'', OpFetchAdd ''R'' 1 ''r'' 95, OpDropScope ''r'']"

definition demo_orphan_schedule :: "(nat \<times> 64 word) list" where
  "demo_orphan_schedule = replicate 14 (0, 0) @ replicate 3 (1, 0) @ replicate 5 (2, 0) @ replicate 13 (3, 0) @
     replicate 5 (1, 0) @ [(4, 0), (0, 0), (3, 0)]"

text \<open>C38: (safety) The documented invariant that an entry in \<^verbatim>\<open>idem\<close> has its scope in \<^verbatim>\<open>scopes\<close> can fail for good. A sweep
  that has loaded a stale scope waits for its mutex while the request is dropped and its operation id used anew; the
  sweep then unlinks the new scope, by the operation id. Once every thread has returned, a drop of the operation id
  finds nothing to release and the entry stays.\<close>

theorem orphan_entry_reachable:
  "\<exists>st pcs. reachable 10 demo_orphan_ops (st, pcs) \<and> pcs = [RetVal 0, RetSwept, RetDropped 1, RetVal 1, RetDropped 0] \<and>
     map_of (ct_idem st) (''R'', ''r'') = Some 1 \<and> map_of (ct_scopes st) ''r'' = None"
proof -
  define s where "s = the (run_schedule demo_orphan_ops demo_orphan_schedule (sys_init 10 demo_orphan_ops))"
  have "reachable 10 demo_orphan_ops s" unfolding s_def by (rule run_schedule_the) code_simp
  moreover have "snd s = [RetVal 0, RetSwept, RetDropped 1, RetVal 1, RetDropped 0] \<and>
      map_of (ct_idem (fst s)) (''R'', ''r'') = Some 1 \<and> map_of (ct_scopes (fst s)) ''r'' = None"
    unfolding s_def by code_simp
  ultimately show ?thesis by (metis prod.collapse)
qed

end
