(* ===== verification/Go_Errors.thy ===== *)
theory Go_Errors
  imports Baml_Prelude
begin

text \<open>
  The error values of the BuildRequest engine: \<^verbatim>\<open>buildrequest/errors.go\<close>,
  \<^verbatim>\<open>buildrequest/raw_error.go\<close>, the terminal error of \<^verbatim>\<open>buildrequest/native_stream_callback.go\<close> and
  \<^verbatim>\<open>isTerminal\<close> of \<^verbatim>\<open>retry/retry.go\<close>. A nil error is \<^const>\<open>None\<close>. \<open>ErrWrap\<close> is an error made with
  \<^verbatim>\<open>fmt.Errorf\<close> and \<^verbatim>\<open>%w\<close>, \<open>ErrMark\<close> any other implementation of \<^verbatim>\<open>retry.TerminalError\<close>, \<open>ErrVar\<close> a
  package-level error variable, by its name, and \<open>TransportError\<close> the error of \<^verbatim>\<open>llmhttp/errors.go\<close> with its
  category, prefix and underlying error. \<open>BedrockStreamException\<close> and \<open>AwsTransportError\<close> are the typed
  errors of \<^verbatim>\<open>buildrequest/bedrock_stream_extract.go\<close> and \<^verbatim>\<open>awsstream/awsstream.go\<close> with their two fields.
\<close>

datatype go_error =
    Err string
  | ErrWrap string go_error
  | ErrMark bool string
  | ErrVar string
  | TransportError string string go_error
  | BedrockStreamException string string
  | AwsTransportError string string
  | OutputParseError go_error
  | rawCarryingError go_error string
  | nativeStreamTerminalError go_error

text \<open>The verb \<^verbatim>\<open>%q\<close> on printable ASCII text; other bytes are kept as they are.\<close>

fun quote_bytes :: "string \<Rightarrow> string" where
  "quote_bytes [] = []"
| "quote_bytes (c # s) =
     (if c = CHR 0x22 \<or> c = CHR 0x5C then [CHR 0x5C, c] else [c]) @ quote_bytes s"

definition go_quote :: "string \<Rightarrow> string" where
  "go_quote s = CHR 0x22 # quote_bytes s @ [CHR 0x22]"

definition wrapOutputParse :: "go_error option \<Rightarrow> go_error option" where
  "wrapOutputParse err = (case err of None \<Rightarrow> None | Some e \<Rightarrow> Some (OutputParseError e))"

definition newRawError :: "go_error option \<Rightarrow> string \<Rightarrow> go_error option" where
  "newRawError err raw = (case err of None \<Rightarrow> None
     | Some e \<Rightarrow> if raw = '''' then Some e else Some (rawCarryingError e raw))"

text \<open>\<^verbatim>\<open>errors.As\<close> walks the chain of wrapped errors and stops at the first match.\<close>

fun as_raw :: "go_error \<Rightarrow> string option" where
  "as_raw (rawCarryingError e raw) = Some raw"
| "as_raw (ErrWrap m e) = as_raw e"
| "as_raw (OutputParseError e) = as_raw e"
| "as_raw (nativeStreamTerminalError e) = as_raw e"
| "as_raw (TransportError c p e) = as_raw e"
| "as_raw (Err m) = None"
| "as_raw (ErrVar m) = None"
| "as_raw (BedrockStreamException t p) = None"
| "as_raw (AwsTransportError c m) = None"
| "as_raw (ErrMark b m) = None"

definition rawFromError :: "go_error option \<Rightarrow> string" where
  "rawFromError err = (case err of None \<Rightarrow> ''''
     | Some e \<Rightarrow> (case as_raw e of Some raw \<Rightarrow> raw | None \<Rightarrow> ''''))"

fun is_output_parse :: "go_error \<Rightarrow> bool" where
  "is_output_parse (OutputParseError e) = True"
| "is_output_parse (rawCarryingError e raw) = is_output_parse e"
| "is_output_parse (ErrWrap m e) = is_output_parse e"
| "is_output_parse (nativeStreamTerminalError e) = is_output_parse e"
| "is_output_parse (TransportError c p e) = is_output_parse e"
| "is_output_parse (Err m) = False"
| "is_output_parse (ErrVar m) = False"
| "is_output_parse (BedrockStreamException t p) = False"
| "is_output_parse (AwsTransportError c m) = False"
| "is_output_parse (ErrMark b m) = False"

text \<open>The first error of the chain that implements \<^verbatim>\<open>TerminalError\<close>, and what it answers.\<close>

fun as_terminal :: "go_error \<Rightarrow> bool option" where
  "as_terminal (nativeStreamTerminalError e) = Some True"
| "as_terminal (ErrMark b m) = Some b"
| "as_terminal (rawCarryingError e raw) = as_terminal e"
| "as_terminal (ErrWrap m e) = as_terminal e"
| "as_terminal (OutputParseError e) = as_terminal e"
| "as_terminal (TransportError c p e) = as_terminal e"
| "as_terminal (Err m) = None"
| "as_terminal (ErrVar m) = None"
| "as_terminal (BedrockStreamException t p) = None"
| "as_terminal (AwsTransportError c m) = None"

definition isTerminal :: "go_error \<Rightarrow> bool" where
  "isTerminal err = (case as_terminal err of None \<Rightarrow> False | Some b \<Rightarrow> b)"

definition errNativeStreamFailedNil :: go_error where
  "errNativeStreamFailedNil = Err ''buildrequest: native stream attempt failed after claim (no error provided)''"

definition newNativeStreamTerminalError :: "go_error option \<Rightarrow> string \<Rightarrow> go_error option" where
  "newNativeStreamTerminalError err raw =
     (let e = (case err of None \<Rightarrow> errNativeStreamFailedNil | Some e \<Rightarrow> e)
      in newRawError (Some (nativeStreamTerminalError e)) raw)"

fun as_native_terminal :: "go_error \<Rightarrow> bool" where
  "as_native_terminal (nativeStreamTerminalError e) = True"
| "as_native_terminal (rawCarryingError e raw) = as_native_terminal e"
| "as_native_terminal (ErrWrap m e) = as_native_terminal e"
| "as_native_terminal (OutputParseError e) = as_native_terminal e"
| "as_native_terminal (TransportError c p e) = as_native_terminal e"
| "as_native_terminal (Err m) = False"
| "as_native_terminal (ErrVar m) = False"
| "as_native_terminal (BedrockStreamException t p) = False"
| "as_native_terminal (AwsTransportError c m) = False"
| "as_native_terminal (ErrMark b m) = False"

definition isNativeStreamTerminal :: "go_error option \<Rightarrow> bool" where
  "isNativeStreamTerminal err = (case err of None \<Rightarrow> False | Some e \<Rightarrow> as_native_terminal e)"

text \<open>\<^verbatim>\<open>errors.Is\<close> for a package-level variable. A transport error also unwraps to \<^verbatim>\<open>ErrTransportFlake\<close>.\<close>

fun is_error_var :: "go_error \<Rightarrow> string \<Rightarrow> bool" where
  "is_error_var (ErrVar m) v \<longleftrightarrow> m = v"
| "is_error_var (TransportError c p e) v \<longleftrightarrow> is_error_var e v \<or> v = ''llmhttp.ErrTransportFlake''"
| "is_error_var (rawCarryingError e raw) v \<longleftrightarrow> is_error_var e v"
| "is_error_var (ErrWrap m e) v \<longleftrightarrow> is_error_var e v"
| "is_error_var (OutputParseError e) v \<longleftrightarrow> is_error_var e v"
| "is_error_var (nativeStreamTerminalError e) v \<longleftrightarrow> is_error_var e v"
| "is_error_var (Err m) v \<longleftrightarrow> False"
| "is_error_var (BedrockStreamException t p) v \<longleftrightarrow> False"
| "is_error_var (AwsTransportError c m) v \<longleftrightarrow> False"
| "is_error_var (ErrMark b m) v \<longleftrightarrow> False"

lemma native_terminal_isTerminal: "as_native_terminal e \<Longrightarrow> isTerminal e"
  by (induction e) (auto simp: isTerminal_def)

lemma newRawError_Some [simp]: "newRawError (Some e) raw \<noteq> None"
  by (simp add: newRawError_def)

lemma newRawError_None [simp]: "newRawError None raw = None"
  by (simp add: newRawError_def)

lemma newNativeStreamTerminalError_terminal:
  "\<exists>e. newNativeStreamTerminalError err raw = Some e \<and> isTerminal e \<and> as_native_terminal e"
  by (cases "raw = []") (simp_all add: newNativeStreamTerminalError_def newRawError_def isTerminal_def Let_def)

lemma rawFromError_newRawError:
  "err \<noteq> None \<Longrightarrow> raw \<noteq> '''' \<Longrightarrow> rawFromError (newRawError err raw) = raw"
  by (auto simp: rawFromError_def newRawError_def)

lemma newRawError_flags:
  "newRawError (Some e) raw = Some e' \<Longrightarrow>
     isTerminal e' = isTerminal e \<and> is_output_parse e' = is_output_parse e"
  by (auto simp: newRawError_def isTerminal_def split: if_splits)

end
