(* ===== verification/Retry_Execute.thy ===== *)
theory Retry_Execute
  imports Go_Errors
begin

text \<open>
  The retry package \<^verbatim>\<open>bamlutils/retry/retry.go\<close>: policies, delays and \<^verbatim>\<open>Execute\<close>.

  \<^verbatim>\<open>Execute\<close> runs over a world \<open>'w\<close> that the callbacks change. The context and the timer are the
  fields of \<open>exec_env\<close>: \<open>ctx_Err\<close> gives the context's error once it is done, \<open>wait_timer\<close> is the
  two-way \<^verbatim>\<open>select\<close> on the context and a timer. The product of the initial delay and
  \<^verbatim>\<open>math.Pow\<close> is the parameter \<open>scaled\<close>.
\<close>

section \<open>Policies and delays\<close>

datatype strategy = ConstantDelay int | ExponentialBackoff int gofloat int

record strategy_config =
  sc_Type :: string
  sc_DelayMs :: int
  sc_Multiplier :: gofloat
  sc_MaxDelayMs :: int

record policy =
  po_MaxRetries :: int
  po_Strategy :: "strategy option"
  po_StrategyConfig :: "strategy_config option"
  po_resolved :: bool

definition DefaultDelayMs :: int where "DefaultDelayMs = 200"
definition DefaultMultiplier :: gofloat where "DefaultMultiplier = FFin 3 (-1)"
definition DefaultMaxDelayMs :: int where "DefaultMaxDelayMs = 10000"

text \<open>The strategy that the configuration selects.\<close>

definition configured_strategy :: "strategy_config option \<Rightarrow> strategy" where
  "configured_strategy cfg = (case cfg of
      None \<Rightarrow> ConstantDelay DefaultDelayMs
    | Some c \<Rightarrow>
        if sc_Type c = ''exponential_backoff''
        then ExponentialBackoff
               (if sc_DelayMs c \<le> 0 then DefaultDelayMs else sc_DelayMs c)
               (if float_le_zero (sc_Multiplier c) then DefaultMultiplier else sc_Multiplier c)
               (if sc_MaxDelayMs c \<le> 0 then DefaultMaxDelayMs else sc_MaxDelayMs c)
        else ConstantDelay (if sc_DelayMs c \<le> 0 then DefaultDelayMs else sc_DelayMs c))"

text \<open>\<^verbatim>\<open>po_resolved\<close> records that the \<^verbatim>\<open>sync.Once\<close> has run.\<close>

definition ResolveStrategy :: "policy \<Rightarrow> policy" where
  "ResolveStrategy p =
     (if po_resolved p then p
      else (case po_Strategy p of
              Some _ \<Rightarrow> p\<lparr>po_resolved := True\<rparr>
            | None \<Rightarrow> p\<lparr>po_Strategy := Some (configured_strategy (po_StrategyConfig p)),
                         po_resolved := True\<rparr>))"

definition Millisecond :: int where "Millisecond = 1000000"

definition ConstantDelay_Delay :: "int \<Rightarrow> int \<Rightarrow> int" where
  "ConstantDelay_Delay DelayMs attempt = wrap_int64 (DelayMs * Millisecond)"

definition ExponentialBackoff_Delay ::
    "(int \<Rightarrow> gofloat \<Rightarrow> int \<Rightarrow> gofloat) \<Rightarrow> int \<Rightarrow> gofloat \<Rightarrow> int \<Rightarrow> int \<Rightarrow> int" where
  "ExponentialBackoff_Delay scaled DelayMs Multiplier MaxDelayMs attempt =
     (let delay = scaled DelayMs Multiplier attempt;
          maxDelay = float64_of_int MaxDelayMs;
          delay = (if float_less maxDelay delay then maxDelay else delay)
      in wrap_int64 (int64_of_float delay * Millisecond))"

definition Delay :: "(int \<Rightarrow> gofloat \<Rightarrow> int \<Rightarrow> gofloat) \<Rightarrow> strategy \<Rightarrow> int \<Rightarrow> int" where
  "Delay scaled s attempt = (case s of
      ConstantDelay d \<Rightarrow> ConstantDelay_Delay d attempt
    | ExponentialBackoff d m x \<Rightarrow> ExponentialBackoff_Delay scaled d m x attempt)"

section \<open>Execution\<close>

record 'w exec_env =
  ctx_Err :: "'w \<Rightarrow> go_error option"
  wait_timer :: "int \<Rightarrow> 'w \<Rightarrow> go_error option \<times> 'w"
  pow_scaled :: "int \<Rightarrow> gofloat \<Rightarrow> int \<Rightarrow> gofloat"

type_synonym ('a, 'w) attempt_fun = "int \<Rightarrow> 'w \<Rightarrow> ('a \<times> go_error option) \<times> 'w"

function Execute_loop ::
    "'w exec_env \<Rightarrow> strategy \<Rightarrow> 'a \<Rightarrow> int \<Rightarrow> int \<Rightarrow> ('a, 'w) attempt_fun \<Rightarrow> (int \<Rightarrow> 'w \<Rightarrow> 'w) option \<Rightarrow>
     int \<Rightarrow> go_error option \<Rightarrow> 'w \<Rightarrow> ('a \<times> go_error option) \<times> 'w" where
  "Execute_loop env strat zero maxRetries totalAttempts fn onRetry attempt lastErr w =
     (if attempt < totalAttempts then
        (case ctx_Err env w of
           Some ce \<Rightarrow> ((zero, Some ce), w)
         | None \<Rightarrow>
             (case fn attempt w of ((result, err), w1) \<Rightarrow>
                (case err of
                   None \<Rightarrow> ((result, None), w1)
                 | Some e \<Rightarrow>
                     if isTerminal e then ((zero, Some e), w1)
                     else if attempt \<ge> maxRetries then ((zero, Some e), w1)
                     else (case ctx_Err env w1 of
                             Some ce \<Rightarrow> ((zero, Some ce), w1)
                           | None \<Rightarrow>
                               (let w2 = (case onRetry of None \<Rightarrow> w1 | Some f \<Rightarrow> f (attempt + 1) w1);
                                    delay = Delay (pow_scaled env) strat attempt
                                in if delay > 0
                                   then (case wait_timer env delay w2 of
                                           (Some ce, w3) \<Rightarrow> ((zero, Some ce), w3)
                                         | (None, w3) \<Rightarrow>
                                             Execute_loop env strat zero maxRetries totalAttempts fn onRetry
                                               (attempt + 1) (Some e) w3)
                                   else Execute_loop env strat zero maxRetries totalAttempts fn onRetry
                                          (attempt + 1) (Some e) w2)))))
      else ((zero, lastErr), w))"
  by pat_completeness auto

termination
  by (relation "measure (\<lambda>(env, strat, zero, maxR, total, fn, onR, attempt, le, w). nat (total - attempt))")
    auto

declare Execute_loop.simps [simp del]

definition Execute ::
    "'w exec_env \<Rightarrow> 'a \<Rightarrow> policy option \<Rightarrow> ('a, 'w) attempt_fun \<Rightarrow> (int \<Rightarrow> 'w \<Rightarrow> 'w) option \<Rightarrow> 'w \<Rightarrow>
     ('a \<times> go_error option) \<times> 'w" where
  "Execute env zero pol fn onRetry w =
     (case pol of
        None \<Rightarrow> (case ctx_Err env w of Some ce \<Rightarrow> ((zero, Some ce), w) | None \<Rightarrow> fn 0 w)
      | Some p0 \<Rightarrow>
          (let p = ResolveStrategy p0;
               maxRetries = (if po_MaxRetries p < 0 then 0 else po_MaxRetries p);
               totalAttempts = wrap_int64 (maxRetries + 1);
               strat = (case po_Strategy p of Some s \<Rightarrow> s | None \<Rightarrow> ConstantDelay DefaultDelayMs)
           in Execute_loop env strat zero maxRetries totalAttempts fn onRetry 0 None w))"

section \<open>Policies: lemmas\<close>

lemma ResolveStrategy_idem: "ResolveStrategy (ResolveStrategy p) = ResolveStrategy p"
  by (simp add: ResolveStrategy_def split: option.split)

lemma ResolveStrategy_some: "\<not> po_resolved p \<Longrightarrow> po_Strategy (ResolveStrategy p) \<noteq> None"
  by (simp add: ResolveStrategy_def split: option.split)

text \<open>What \<^verbatim>\<open>math.Pow\<close> promises on positive arguments: the product is not negative and it is a
  number.\<close>

definition scaled_lawful :: "(int \<Rightarrow> gofloat \<Rightarrow> int \<Rightarrow> gofloat) \<Rightarrow> bool" where
  "scaled_lawful scaled \<longleftrightarrow> (\<forall>d m k. 0 < d \<longrightarrow> \<not> float_le_zero m \<longrightarrow> m \<noteq> FNaN \<longrightarrow> 0 \<le> k \<longrightarrow>
     (case scaled d m k of FNaN \<Rightarrow> False | FInf s \<Rightarrow> \<not> s | FFin x e \<Rightarrow> 0 \<le> x))"

lemma ExponentialBackoff_Delay_bounds:
  assumes "0 \<le> mx" "mx * Millisecond \<le> max_int64"
    and "case scaled d m k of FNaN \<Rightarrow> False | FInf s \<Rightarrow> \<not> s | FFin x e \<Rightarrow> 0 \<le> x"
  shows "0 \<le> ExponentialBackoff_Delay scaled d m mx k \<and>
    ExponentialBackoff_Delay scaled d m mx k \<le> mx * Millisecond"
proof -
  have mx: "float64_of_int mx = FFin mx 0"
    using assms(1,2) by (intro float64_of_int_exact) (simp add: Millisecond_def max_int64_def)
  obtain x e where c: "(if float_less (FFin mx 0) (scaled d m k) then FFin mx 0 else scaled d m k) = FFin x e"
      "0 \<le> x" "\<not> float_less (FFin mx 0) (FFin x e)"
  proof (cases "float_less (FFin mx 0) (scaled d m k)")
    case True
    then show ?thesis using that[of mx 0] assms(1) by (simp add: float_less_def)
  next
    case False
    then show ?thesis using that assms(3)
      by (cases "scaled d m k") (simp_all add: float_less_def)
  qed
  have t: "0 \<le> float_trunc x e \<and> float_trunc x e \<le> mx" using float_trunc_le[OF c(3,2)] .
  then have i: "int64_of_float (FFin x e) = float_trunc x e"
    using assms(2) by (simp add: int64_of_float_def max_int64_def Millisecond_def)
  have "wrap_int64 (float_trunc x e * Millisecond) = float_trunc x e * Millisecond"
    using t assms(2) by (intro wrap_int64_id) (simp_all add: max_int64_def Millisecond_def)
  then show ?thesis using t c(1) i mx
    by (simp add: ExponentialBackoff_Delay_def Millisecond_def)
qed

section \<open>Execution: the trace of calls\<close>

text \<open>
  The callbacks instrumented with a log: the calls of \<open>fn\<close> with their results, and the arguments of
  the \<open>onRetry\<close> calls. The world they work on is arbitrary.
\<close>

type_synonym ('a, 'w) logged = "'w \<times> (int \<times> 'a \<times> go_error option) list \<times> int list"

definition log_fn :: "('a, 'w) attempt_fun \<Rightarrow> ('a, ('a, 'w) logged) attempt_fun" where
  "log_fn fn a l = (case l of (w, calls, retries) \<Rightarrow>
     (case fn a w of (r, w') \<Rightarrow> (r, (w', calls @ [(a, r)], retries))))"

definition log_retry :: "(int \<Rightarrow> 'w \<Rightarrow> 'w) \<Rightarrow> int \<Rightarrow> ('a, 'w) logged \<Rightarrow> ('a, 'w) logged" where
  "log_retry f a l = (case l of (w, calls, retries) \<Rightarrow> (f a w, calls, retries @ [a]))"

definition log_env :: "'w exec_env \<Rightarrow> ('a, 'w) logged exec_env" where
  "log_env env = \<lparr>ctx_Err = \<lambda>l. ctx_Err env (fst l),
     wait_timer = \<lambda>d l. (case wait_timer env d (fst l) of (r, w') \<Rightarrow> (r, (w', snd l))),
     pow_scaled = pow_scaled env\<rparr>"

text \<open>The error is one the context reported, at a check or while waiting.\<close>

definition ctx_ended :: "'w exec_env \<Rightarrow> go_error option \<Rightarrow> bool" where
  "ctx_ended env err \<longleftrightarrow> err \<noteq> None \<and>
     ((\<exists>w. ctx_Err env w = err) \<or> (\<exists>d w. fst (wait_timer env d w) = err))"

definition retried_calls :: "(int \<times> 'a \<times> go_error option) list \<Rightarrow> bool" where
  "retried_calls calls \<longleftrightarrow> (\<forall>c \<in> set calls. \<exists>e. snd (snd c) = Some e \<and> \<not> isTerminal e)"

text \<open>What a run promises: the attempts are numbered consecutively from 0, at most one more than
  the retries allowed; every call but the last failed with an error that is not terminal; \<open>onRetry\<close>
  is called with 1, 2, and so on between the calls; and the outcome is that of the last call, which
  succeeded, failed terminally or was the last one allowed, unless the context ended the run.\<close>

definition exec_promise ::
    "'w exec_env \<Rightarrow> 'a \<Rightarrow> nat \<Rightarrow> (int \<times> 'a \<times> go_error option) list \<Rightarrow> int list \<Rightarrow> 'a \<Rightarrow> go_error option \<Rightarrow> bool"
  where
  "exec_promise env zero maxR calls retries v err \<longleftrightarrow>
     map fst calls = map int [0..<length calls] \<and> length calls \<le> maxR + 1 \<and>
     retried_calls (butlast calls) \<and>
     (retries = map int [1..<length calls] \<or>
      ctx_ended env err \<and> v = zero \<and> retried_calls calls \<and> retries = map int [1..<Suc (length calls)]) \<and>
     (ctx_ended env err \<and> v = zero \<or>
      calls \<noteq> [] \<and>
      (case snd (last calls) of
         (r, None) \<Rightarrow> v = r \<and> err = None
       | (r, Some e) \<Rightarrow> v = zero \<and> err = Some e \<and> (isTerminal e \<or> length calls = maxR + 1)))"

lemma ctx_endedI:
  "ctx_Err env w = Some ce \<Longrightarrow> ctx_ended env (Some ce)"
  "wait_timer env d w = (Some ce, w') \<Longrightarrow> ctx_ended env (Some ce)"
  unfolding ctx_ended_def by (metis option.distinct(1)) (metis fst_conv option.distinct(1))

lemma retried_calls_snoc:
  "retried_calls (calls @ [(a, r, err)]) \<longleftrightarrow> retried_calls calls \<and> (\<exists>e. err = Some e \<and> \<not> isTerminal e)"
  by (auto simp: retried_calls_def)

text \<open>One turn of the instrumented loop: it ends with the context's error, with the result of the
  call, or goes on with the next attempt.\<close>

abbreviation logged_loop where
  "logged_loop env strat zero maxR fn f a le l \<equiv>
     Execute_loop (log_env env) strat zero (int maxR) (int maxR + 1) (log_fn fn) (Some (log_retry f))
       (int a) le l"

lemma logged_loop_cases:
  assumes "logged_loop env strat zero maxR fn f a le (w, calls, retries) = ((v, err), (w', calls', retries'))"
    and "a \<le> maxR"
  obtains (before) "ctx_ended env err" "v = zero" "calls' = calls" "retries' = retries"
  | (success) r where "calls' = calls @ [(int a, r, None)]" "retries' = retries" "v = r" "err = None"
  | (failure) r e where "calls' = calls @ [(int a, r, Some e)]" "retries' = retries" "v = zero" "err = Some e"
      "isTerminal e \<or> a = maxR"
  | (after) r e where "calls' = calls @ [(int a, r, Some e)]" "\<not> isTerminal e" "a < maxR" "ctx_ended env err"
      "v = zero" "retries' = retries \<or> retries' = retries @ [int a + 1]"
  | (again) r e w2 where "\<not> isTerminal e" "a < maxR"
      "logged_loop env strat zero maxR fn f (Suc a) (Some e)
         (w2, calls @ [(int a, r, Some e)], retries @ [int a + 1]) = ((v, err), (w', calls', retries'))"
proof -
  obtain r er w1 where fn: "fn (int a) w = ((r, er), w1)" by (metis surj_pair)
  note step = assms(1)[unfolded Execute_loop.simps[of _ _ _ _ _ _ _ "int a"]]
  note logs = log_env_def log_fn_def log_retry_def
  consider (ctx) ce where "ctx_Err env w = Some ce" | (ok) "ctx_Err env w = None" "er = None"
    | (stop) e where "ctx_Err env w = None" "er = Some e" "isTerminal e \<or> a = maxR"
    | (retry) e where "ctx_Err env w = None" "er = Some e" "\<not> isTerminal e" "a < maxR"
    using assms(2) by (cases "ctx_Err env w"; cases er; force)
  then show thesis
  proof cases
    case ctx
    then show thesis using step assms(2) ctx_endedI(1)[OF ctx] by (intro before) (auto simp: logs)
  next
    case ok
    then show thesis using step assms(2) fn by (intro success) (auto simp: logs)
  next
    case stop
    then show thesis using step assms(2) fn by (intro failure) (auto simp: logs split: if_splits)
  next
    case retry
    let ?d = "Delay (pow_scaled env) strat (int a)"
    obtain wr w3 where wait: "wait_timer env ?d (f (int a + 1) w1) = (wr, w3)" by force
    consider (c1) ce where "ctx_Err env w1 = Some ce"
      | (c2) ce where "ctx_Err env w1 = None" "?d > 0" "wr = Some ce"
      | (c3) w2 where "ctx_Err env w1 = None" "w2 = (if ?d > 0 then w3 else f (int a + 1) w1)"
          "?d > 0 \<longrightarrow> wr = None"
      by (cases "ctx_Err env w1"; cases wr; force)
    then show thesis
    proof cases
      case c1
      then show thesis using step fn retry ctx_endedI(1)[OF c1] by (intro after) (auto simp: logs)
    next
      case c2
      then show thesis using step fn retry wait ctx_endedI(2)[OF wait[unfolded c2(3)]]
        by (intro after) (auto simp: logs)
    next
      case c3
      then show thesis using step fn retry wait
        by (intro again[of e w2 r]) (auto simp: logs add.commute split: if_splits)
    qed
  qed
qed

lemma Execute_loop_promise:
  assumes "logged_loop env strat zero maxR fn f a le (w, calls, retries) = ((v, err), (w', calls', retries'))"
    and "a \<le> maxR" "map fst calls = map int [0..<a]" "retried_calls calls" "retries = map int [1..<Suc a]"
  shows "exec_promise env zero maxR calls' retries' v err"
  using assms
proof (induction "maxR - a" arbitrary: a le w calls retries rule: less_induct)
  case less
  have len: "length calls = a" using less.prems(3) by (metis length_map length_upt diff_zero)
  have bl: "retried_calls (butlast calls)"
    using less.prems(4) by (auto simp: retried_calls_def dest: in_set_butlastD)
  from less.prems(1,2) show ?case
  proof (cases rule: logged_loop_cases)
    case (again r e w2)
    then show ?thesis
      using less.hyps[OF _ again(3)] less.prems(3,4,5) by (simp add: retried_calls_snoc add.commute)
  qed (use less.prems len bl in \<open>auto simp: exec_promise_def retried_calls_snoc\<close>)
qed

text \<open>The whole of \<^verbatim>\<open>Execute\<close> with a policy.\<close>

lemma Execute_promise:
  assumes "Execute (log_env env) zero (Some p) (log_fn fn) (Some (log_retry f)) (w, [], [])
      = ((v, err), (w', calls, retries))"
    and "po_MaxRetries p < max_int64"
  shows "exec_promise env zero (nat (po_MaxRetries p)) calls retries v err"
proof -
  have m: "po_MaxRetries (ResolveStrategy p) = po_MaxRetries p"
    by (simp add: ResolveStrategy_def split: option.split)
  have "wrap_int64 (int (nat (po_MaxRetries p)) + 1) = int (nat (po_MaxRetries p)) + 1"
    using assms(2) by (intro wrap_int64_id) (simp_all add: max_int64_def)
  then obtain strat where "logged_loop env strat zero (nat (po_MaxRetries p)) fn f 0 None (w, [], [])
      = ((v, err), (w', calls, retries))"
    using assms(1) m by (auto simp: Execute_def Let_def split: if_splits)
  then show ?thesis by (rule Execute_loop_promise) (simp_all add: retried_calls_def)
qed

section \<open>Execution: what callbacks preserve\<close>

text \<open>The rule for runs: \<open>I\<close> holds when an attempt begins, \<open>F\<close> after one that failed, and \<open>Q\<close> after one
  that succeeded. A callback is only called while the context is alive. If no call was made because the
  attempt count overflowed, the run ends without an error.\<close>

lemma Execute_loop_rule:
  assumes "Execute_loop env strat zero maxR tot fn onR a le w = ((v, err), w')" "I w"
    and fnF: "\<And>a w r e w'. I w \<Longrightarrow> ctx_Err env w = None \<Longrightarrow> fn a w = ((r, Some e), w') \<Longrightarrow> F w'"
    and fnQ: "\<And>a w r w'. I w \<Longrightarrow> ctx_Err env w = None \<Longrightarrow> fn a w = ((r, None), w') \<Longrightarrow> Q r w'"
    and retry: "\<And>a w. F w \<Longrightarrow> ctx_Err env w = None \<Longrightarrow> I (case onR of None \<Rightarrow> w | Some f \<Rightarrow> f a w)"
    and wait: "\<And>d w r w'. I w \<Longrightarrow> wait_timer env d w = (r, w') \<Longrightarrow> I w'"
    and IF: "\<And>w. I w \<Longrightarrow> F w"
  shows "(err = None \<longrightarrow> Q v w' \<or> (v = zero \<and> tot \<le> a \<and> le = None \<and> I w')) \<and> (err \<noteq> None \<longrightarrow> F w')"
  using assms(1,2)
proof (induction "nat (tot - a)" arbitrary: a le w rule: less_induct)
  case less
  obtain r er w1 where f: "fn a w = ((r, er), w1)" by (metis surj_pair)
  note step = less.prems(1)[unfolded Execute_loop.simps[of _ _ _ _ _ _ _ a]]
  show ?case
  proof (cases "a < tot \<and> ctx_Err env w = None")
    case False
    then show ?thesis using step less.prems(2) IF by (auto split: option.splits if_splits)
  next
    case go: True
    show ?thesis
    proof (cases er)
      case None
      then show ?thesis using step go f fnQ less.prems(2) by auto
    next
      case er: (Some e)
      let ?w2 = "case onR of None \<Rightarrow> w1 | Some g \<Rightarrow> g (a + 1) w1"
      let ?d = "Delay (pow_scaled env) strat a"
      have F1: "F w1" using fnF less.prems(2) go f er by blast
      obtain wr w3 where wt: "wait_timer env ?d ?w2 = (wr, w3)" by force
      show ?thesis
      proof (cases "isTerminal e \<or> maxR \<le> a \<or> ctx_Err env w1 \<noteq> None")
        case True
        then show ?thesis using step go f er F1 by (auto split: if_splits)
      next
        case cont: False
        then have I2: "I ?w2" using retry F1 by blast
        note I3 = wait[OF I2 wt]
        consider (stop) "F w'" "err \<noteq> None"
          | (again) w4 where "I w4" "Execute_loop env strat zero maxR tot fn onR (a + 1) (Some e) w4 = ((v, err), w')"
          using step go f er cont I2 I3 IF wt by (auto simp: Let_def split: if_splits option.splits)
        then show ?thesis
        proof cases
          case again
          then show ?thesis using less.hyps[OF _ again(2,1)] go by auto
        qed auto
      qed
    qed
  qed
qed

lemma Execute_rule:
  assumes "Execute env zero pol fn onR w = ((v, err), w')" "I w"
    and "\<And>a w r e w'. I w \<Longrightarrow> ctx_Err env w = None \<Longrightarrow> fn a w = ((r, Some e), w') \<Longrightarrow> F w'"
    and "\<And>a w r w'. I w \<Longrightarrow> ctx_Err env w = None \<Longrightarrow> fn a w = ((r, None), w') \<Longrightarrow> Q r w'"
    and "\<And>a w. F w \<Longrightarrow> ctx_Err env w = None \<Longrightarrow> I (case onR of None \<Rightarrow> w | Some f \<Rightarrow> f a w)"
    and "\<And>d w r w'. I w \<Longrightarrow> wait_timer env d w = (r, w') \<Longrightarrow> I w'"
    and "\<And>w. I w \<Longrightarrow> F w"
  shows "(err = None \<longrightarrow> Q v w' \<or> (v = zero \<and> I w' \<and> (\<exists>p. pol = Some p \<and> po_MaxRetries p \<ge> max_int64))) \<and>
    (err \<noteq> None \<longrightarrow> F w')"
proof (cases pol)
  case None
  then show ?thesis using assms(1-4,7) by (cases err) (auto simp: Execute_def split: option.splits)
next
  case (Some p)
  let ?m = "if po_MaxRetries p < 0 then 0 else po_MaxRetries p"
  have m: "po_MaxRetries (ResolveStrategy p) = po_MaxRetries p"
    by (simp add: ResolveStrategy_def split: option.split)
  obtain strat where l: "Execute_loop env strat zero ?m (wrap_int64 (?m + 1)) fn onR 0 None w = ((v, err), w')"
    using assms(1) unfolding Some Execute_def Let_def option.case m by blast
  have "wrap_int64 (?m + 1) \<le> 0 \<longrightarrow> po_MaxRetries p \<ge> max_int64"
  proof (rule impI, rule ccontr)
    assume a: "wrap_int64 (?m + 1) \<le> 0" and b: "\<not> max_int64 \<le> po_MaxRetries p"
    have "wrap_int64 (?m + 1) = ?m + 1" by (rule wrap_int64_id) (use b in \<open>simp_all add: max_int64_def\<close>)
    then show False using a by (simp split: if_splits)
  qed
  moreover have "(err = None \<longrightarrow> Q v w' \<or> (v = zero \<and> wrap_int64 (?m + 1) \<le> 0 \<and> None = (None :: go_error option) \<and> I w')) \<and>
      (err \<noteq> None \<longrightarrow> F w')"
    by (rule Execute_loop_rule[where I = I and F = F and Q = Q, OF l assms(2)]) (use assms in blast)+
  ultimately show ?thesis using Some by auto
qed

text \<open>What every step keeps holds at the end.\<close>

lemma Execute_invariant:
  assumes "Execute env zero pol fn onR w = ((v, err), w')" "I w"
    and "\<And>a w r er w'. I w \<Longrightarrow> fn a w = ((r, er), w') \<Longrightarrow> I w'"
    and "\<And>d w r w'. I w \<Longrightarrow> wait_timer env d w = (r, w') \<Longrightarrow> I w'"
    and "\<And>f a w. onR = Some f \<Longrightarrow> I w \<Longrightarrow> I (f a w)"
    and "\<And>a w r w'. I w \<Longrightarrow> fn a w = ((r, None), w') \<Longrightarrow> Q r w'"
  shows "I w' \<and> (err = None \<longrightarrow> Q v w' \<or> (v = zero \<and> (\<exists>p. pol = Some p \<and> po_MaxRetries p \<ge> max_int64)))"
proof -
  have "I (case onR of None \<Rightarrow> w | Some f \<Rightarrow> f a w)" if "I w" for a w
    using that assms(5) by (cases onR) simp_all
  then have "(err = None \<longrightarrow> (I w' \<and> Q v w') \<or> (v = zero \<and> I w' \<and> (\<exists>p. pol = Some p \<and> po_MaxRetries p \<ge> max_int64))) \<and>
    (err \<noteq> None \<longrightarrow> I w')"
    by (intro Execute_rule[where I = I and F = I and Q = "\<lambda>v w. I w \<and> Q v w", OF assms(1,2)])
      (use assms(3,4,6) in blast)+
  then show ?thesis by (cases err) auto
qed

text \<open>The attempt count overflows for the largest \<^verbatim>\<open>int\<close>: no call is made, and the error is nil.\<close>

lemma Execute_overflow:
  assumes "po_MaxRetries p = max_int64"
  shows "Execute env zero (Some p) fn onRetry w = ((zero, None), w)"
proof -
  have m: "po_MaxRetries (ResolveStrategy p) = max_int64"
    using assms by (simp add: ResolveStrategy_def split: option.split)
  have "wrap_int64 (max_int64 + 1) = - max_int64 - 1"
    by (simp add: wrap_int64_def max_int64_def)
  then show ?thesis using m by (simp add: Execute_def Let_def Execute_loop.simps max_int64_def)
qed

section \<open>Execution: the attempts that begin\<close>

definition max_retries :: "policy \<Rightarrow> int" where
  "max_retries p = (if po_MaxRetries p < 0 then 0 else po_MaxRetries p)"

definition total_attempts :: "policy \<Rightarrow> int" where
  "total_attempts p = wrap_int64 (max_retries p + 1)"

definition policy_strategy :: "policy \<Rightarrow> strategy" where
  "policy_strategy p = (case po_Strategy (ResolveStrategy p) of Some s \<Rightarrow> s | None \<Rightarrow> ConstantDelay DefaultDelayMs)"

text \<open>\<open>attempt_begins \<dots> w a u\<close>: a run from \<open>w\<close> comes to make attempt \<open>a\<close>, in the world \<open>u\<close>. Attempt 0 begins unless
  the context has ended or the attempt count has overflowed; the next one begins if an attempt fails with an error
  that is not terminal, a retry is left, \<^verbatim>\<open>onRetry\<close> has run and the delay has passed, the context alive throughout.\<close>

inductive attempt_begins ::
    "'w exec_env \<Rightarrow> policy option \<Rightarrow> ('a, 'w) attempt_fun \<Rightarrow> (int \<Rightarrow> 'w \<Rightarrow> 'w) option \<Rightarrow> 'w \<Rightarrow> int \<Rightarrow> 'w \<Rightarrow> bool"
  for env pol fn onR w where
  first: "ctx_Err env w = None \<Longrightarrow> (\<And>p. pol = Some p \<Longrightarrow> 0 < total_attempts p) \<Longrightarrow> attempt_begins env pol fn onR w 0 w"
| again: "attempt_begins env pol fn onR w a u \<Longrightarrow> fn a u = ((r, Some e), u1) \<Longrightarrow> \<not> isTerminal e \<Longrightarrow>
    pol = Some p \<Longrightarrow> a < max_retries p \<Longrightarrow> a + 1 < total_attempts p \<Longrightarrow> ctx_Err env u1 = None \<Longrightarrow>
    u2 = (case onR of None \<Rightarrow> u1 | Some f \<Rightarrow> f (a + 1) u1) \<Longrightarrow>
    delay = Delay (pow_scaled env) (policy_strategy p) a \<Longrightarrow>
    (if 0 < delay then wait_timer env delay u2 = (None, u3) else u3 = u2) \<Longrightarrow> ctx_Err env u3 = None \<Longrightarrow>
    attempt_begins env pol fn onR w (a + 1) u3"

lemma ResolveStrategy_MaxRetries: "po_MaxRetries (ResolveStrategy p) = po_MaxRetries p"
  by (simp add: ResolveStrategy_def split: option.split)

lemma Execute_policy:
  "Execute env zero (Some p) fn onR w =
     Execute_loop env (policy_strategy p) zero (max_retries p) (total_attempts p) fn onR 0 None w"
  by (simp add: Execute_def Let_def policy_strategy_def max_retries_def total_attempts_def ResolveStrategy_MaxRetries)

lemma overflow_count: "total_attempts p \<le> 0 \<Longrightarrow> max_int64 \<le> po_MaxRetries p"
proof (rule ccontr)
  assume a: "total_attempts p \<le> 0" and b: "\<not> max_int64 \<le> po_MaxRetries p"
  have "total_attempts p = max_retries p + 1" unfolding total_attempts_def
    by (rule wrap_int64_id) (use b in \<open>simp_all add: max_retries_def max_int64_def\<close>)
  then show False using a by (simp add: max_retries_def split: if_splits)
qed

text \<open>The run continues from an attempt that begins as if it had started there.\<close>

lemma attempt_begins_loop:
  assumes "attempt_begins env (Some p) fn onR w a u"
  shows "a < total_attempts p \<and> ctx_Err env u = None \<and>
    (\<exists>le. Execute env zero (Some p) fn onR w =
       Execute_loop env (policy_strategy p) zero (max_retries p) (total_attempts p) fn onR a le u)"
  using assms
proof (induction rule: attempt_begins.induct)
  case first
  then show ?case by (intro conjI exI[of _ None] Execute_policy) simp_all
next
  case (again a u r e u1 q u2 delay u3)
  then obtain le where le: "Execute env zero (Some p) fn onR w =
      Execute_loop env (policy_strategy p) zero (max_retries p) (total_attempts p) fn onR a le u"
    "a < total_attempts p" "ctx_Err env u = None" by blast
  have "Execute_loop env (policy_strategy p) zero (max_retries p) (total_attempts p) fn onR a le u =
      Execute_loop env (policy_strategy p) zero (max_retries p) (total_attempts p) fn onR (a + 1) (Some e) u3"
    using again le(2,3) by (subst Execute_loop.simps) (auto simp: Let_def split: if_splits)
  then have "Execute env zero (Some p) fn onR w =
      Execute_loop env (policy_strategy p) zero (max_retries p) (total_attempts p) fn onR (a + 1) (Some e) u3"
    unfolding le(1) .
  then show ?case using again.hyps(4,6,11) by auto
qed

lemma attempt_begins_nil:
  assumes "attempt_begins env None fn onR w a u"
  shows "a = 0 \<and> u = w \<and> ctx_Err env w = None"
  using assms by (induction rule: attempt_begins.induct) simp_all

text \<open>An attempt that succeeds or fails terminally ends the run with its result.\<close>

lemma attempt_ends:
  assumes "attempt_begins env pol fn onR w a u" "fn a u = ((r, er), u1)" "\<And>e. er = Some e \<Longrightarrow> isTerminal e"
  shows "\<exists>v. Execute env zero pol fn onR w = ((v, er), u1) \<and> (er = None \<longrightarrow> v = r)"
proof (cases pol)
  case None
  then show ?thesis using attempt_begins_nil[OF assms(1)[unfolded None]] assms(2) by (simp add: Execute_def)
next
  case (Some p)
  obtain le where le: "Execute env zero (Some p) fn onR w =
      Execute_loop env (policy_strategy p) zero (max_retries p) (total_attempts p) fn onR a le u"
    "a < total_attempts p" "ctx_Err env u = None"
    using attempt_begins_loop[OF assms(1)[unfolded Some]] by blast
  show ?thesis unfolding Some le(1) Execute_loop.simps[of _ _ _ _ _ _ _ a]
    using le(2,3) assms(2,3) by (cases er) simp_all
qed

text \<open>A run without an error returns what an attempt that began returned, unless no attempt began.\<close>

lemma Execute_loop_origin:
  assumes "Execute_loop env (policy_strategy p) zero (max_retries p) (total_attempts p) fn onR a le u = ((v, None), w')"
    and "a < total_attempts p \<Longrightarrow> ctx_Err env u = None \<Longrightarrow> attempt_begins env (Some p) fn onR w a u"
  shows "(\<exists>b t. attempt_begins env (Some p) fn onR w b t \<and> fn b t = ((v, None), w')) \<or>
    total_attempts p \<le> a \<and> le = None \<and> v = zero \<and> w' = u"
  using assms
proof (induction "nat (total_attempts p - a)" arbitrary: a le u rule: less_induct)
  case less
  obtain r er u1 where f: "fn a u = ((r, er), u1)" by (metis surj_pair)
  note step = less.prems(1)[unfolded Execute_loop.simps[of _ _ _ _ _ _ _ a]]
  show ?case
  proof (cases "a < total_attempts p \<and> ctx_Err env u = None")
    case False
    then show ?thesis using step by (auto split: option.splits if_splits)
  next
    case go: True
    then have beg: "attempt_begins env (Some p) fn onR w a u" using less.prems(2) by blast
    show ?thesis
    proof (cases er)
      case None
      then show ?thesis using step go f beg by auto
    next
      case er: (Some e)
      let ?u2 = "case onR of None \<Rightarrow> u1 | Some g \<Rightarrow> g (a + 1) u1"
      let ?d = "Delay (pow_scaled env) (policy_strategy p) a"
      have stop: "\<not> isTerminal e" "a < max_retries p" "ctx_Err env u1 = None"
        using step go f er by (auto split: if_splits option.splits)
      then obtain u3 where u3: "if 0 < ?d then wait_timer env ?d ?u2 = (None, u3) else u3 = ?u2"
        "Execute_loop env (policy_strategy p) zero (max_retries p) (total_attempts p) fn onR (a + 1) (Some e) u3 = ((v, None), w')"
        using step go f er by (auto simp: Let_def split: if_splits option.splits prod.splits)
      have "attempt_begins env (Some p) fn onR w (a + 1) u3"
        if "a + 1 < total_attempts p" "ctx_Err env u3 = None"
        by (rule attempt_begins.again[OF beg f[unfolded er] stop(1) refl stop(2) that(1) stop(3) refl refl u3(1) that(2)])
      moreover have "nat (total_attempts p - (a + 1)) < nat (total_attempts p - a)" using go by simp
      ultimately have "(\<exists>b t. attempt_begins env (Some p) fn onR w b t \<and> fn b t = ((v, None), w')) \<or>
          total_attempts p \<le> a + 1 \<and> Some e = None \<and> v = zero \<and> w' = u3"
        by (intro less.hyps[OF _ u3(2)])
      then show ?thesis by blast
    qed
  qed
qed

lemma Execute_origin:
  assumes "Execute env zero pol fn onR w = ((v, None), w')"
  shows "(\<exists>a u. attempt_begins env pol fn onR w a u \<and> fn a u = ((v, None), w')) \<or>
    v = zero \<and> w' = w \<and> (\<exists>p. pol = Some p \<and> max_int64 \<le> po_MaxRetries p)"
proof (cases pol)
  case None
  then show ?thesis using assms attempt_begins.first[of env w pol fn onR]
    by (auto simp: Execute_def split: option.splits)
next
  case (Some p)
  then show ?thesis
    using Execute_loop_origin[OF assms[unfolded Some Execute_policy], of w]
      attempt_begins.first[of env w pol fn onR] overflow_count[of p] by auto
qed

section \<open>Properties\<close>

definition demo_policy :: policy where
  "demo_policy = \<lparr>po_MaxRetries = 2, po_Strategy = None, po_StrategyConfig = None, po_resolved = False\<rparr>"

definition demo_env :: "unit exec_env" where
  "demo_env = \<lparr>ctx_Err = \<lambda>_. None, wait_timer = \<lambda>_ w. (None, w), pow_scaled = \<lambda>d _ _. FFin d 0\<rparr>"

definition demo_fn :: "(nat, unit) attempt_fun" where
  "demo_fn a w = ((if a = 1 then (7, None) else (0, Some (Err ''upstream''))), w)"

text \<open>C28: (invariant) \<^verbatim>\<open>Execute\<close> with a policy makes the attempts 0, 1, 2 and so on, at most one more
  than the allowed retries and at least one unless the context ended it; every attempt but the last
  failed with an error that is not terminal; \<^verbatim>\<open>onRetry\<close> runs with 1, 2 and so on between the attempts;
  and the outcome is that of the last attempt, which succeeded, failed terminally or was the last
  one allowed, or it is an error of the context. This holds for every callback, context and timer,
  when the retry count is below the largest \<^verbatim>\<open>int\<close>. The comment of \<^verbatim>\<open>Execute\<close> says that all errors are retried;
  a terminal error is not.\<close>

theorem Execute_trace:
  assumes "Execute (log_env env) zero (Some p) (log_fn fn) (Some (log_retry f)) (w, [], [])
      = ((v, err), (w', calls, retries))"
    and "po_MaxRetries p < max_int64"
  shows "exec_promise env zero (nat (po_MaxRetries p)) calls retries v err"
  using assms by (rule Execute_promise)

theorem Execute_trace_witness:
  "exec_promise demo_env 0 2 [(0, 0, Some (Err ''upstream'')), (1, 7, None)] [1] (7 :: nat) None"
proof -
  have "Execute (log_env demo_env) 0 (Some demo_policy) (log_fn demo_fn) (Some (log_retry (\<lambda>_ w. w))) ((), [], [])
      = ((7, None), ((), [(0, 0, Some (Err ''upstream'')), (1, 7, None)], [1]))"
    by code_simp
  from Execute_trace[OF this] show ?thesis by (simp add: demo_policy_def max_int64_def)
qed

text \<open>The delay of an exponential back-off that was configured through a policy lies
  between 0 and its maximum, for every attempt, as long as the maximum in nanoseconds fits an
  \<^verbatim>\<open>int64\<close>.\<close>

theorem ExponentialBackoff_bounded:
  assumes "configured_strategy (Some c) = ExponentialBackoff d m mx"
    and "scaled_lawful scaled" "m \<noteq> FNaN" "0 \<le> attempt" "mx * Millisecond \<le> max_int64"
  shows "0 \<le> Delay scaled (ExponentialBackoff d m mx) attempt \<and>
    Delay scaled (ExponentialBackoff d m mx) attempt \<le> mx * Millisecond"
proof -
  have pos: "0 < d" "0 < mx" "\<not> float_le_zero m"
    using assms(1)
    by (auto simp: configured_strategy_def DefaultDelayMs_def DefaultMaxDelayMs_def
        DefaultMultiplier_def float_le_zero_def split: if_splits)
  then have "case scaled d m attempt of FNaN \<Rightarrow> False | FInf s \<Rightarrow> \<not> s | FFin x e \<Rightarrow> 0 \<le> x"
    using assms(2,3,4) by (simp add: scaled_lawful_def)
  then show ?thesis
    using ExponentialBackoff_Delay_bounds[of mx scaled d m attempt] pos assms(5) by (simp add: Delay_def)
qed

theorem ExponentialBackoff_bounded_witness:
  "Delay (\<lambda>d _ k. FFin d k) (ExponentialBackoff 200 (FFin 3 (-1)) 10000) 9 \<le> 10000 * Millisecond"
  using ExponentialBackoff_bounded[of "\<lparr>sc_Type = ''exponential_backoff'', sc_DelayMs = 0,
      sc_Multiplier = FFin 0 0, sc_MaxDelayMs = 0\<rparr>" 200 "FFin 3 (-1)" 10000 "\<lambda>d _ k. FFin d k" 9]
  by (simp add: configured_strategy_def DefaultDelayMs_def DefaultMaxDelayMs_def DefaultMultiplier_def
      float_le_zero_def scaled_lawful_def max_int64_def Millisecond_def)

end
