(* ===== verification/Client_Resolution.thy ===== *)
theory Client_Resolution
  imports Round_Robin Retry_Execute
begin

text \<open>
  \<^verbatim>\<open>buildrequest/client_resolution.go\<close> and \<^verbatim>\<open>buildrequest/retry_policy.go\<close>: which client, provider
  and retry policy a request uses. The request adapter is the record \<open>adapter\<close> of the answers of its
  getters; a function of the package that shares its name with one of the \<^verbatim>\<open>roundrobin\<close> package has the
  prefix \<open>br_\<close>.
\<close>

section \<open>Reasons\<close>

definition PathReasonEmptyProvider :: string where
  "PathReasonEmptyProvider = ''empty-provider''"
definition PathReasonUnsupportedProvider :: string where
  "PathReasonUnsupportedProvider = ''unsupported-provider''"
definition PathReasonFallbackEmptyChain :: string where
  "PathReasonFallbackEmptyChain = ''fallback-empty-chain''"
definition PathReasonFallbackEmptyChildProvider :: string where
  "PathReasonFallbackEmptyChildProvider = ''fallback-empty-child-provider''"
definition PathReasonFallbackAllLegacy :: string where
  "PathReasonFallbackAllLegacy = ''fallback-all-legacy''"
definition PathReasonRoundRobin :: string where
  "PathReasonRoundRobin = ''roundrobin-legacy-only''"
definition PathReasonFallbackRoundRobinChildLegacy :: string where
  "PathReasonFallbackRoundRobinChildLegacy = ''fallback-roundrobin-child-legacy''"
definition PathReasonFallbackRoundRobinChildBuildRequest :: string where
  "PathReasonFallbackRoundRobinChildBuildRequest = ''fallback-roundrobin-child-buildrequest''"
definition PathReasonBuildRequestDisabled :: string where
  "PathReasonBuildRequestDisabled = ''buildrequest-disabled''"
definition PathReasonInvalidStrategyOverride :: string where
  "PathReasonInvalidStrategyOverride = ''invalid-strategy-override''"
definition PathReasonInvalidProviderOverride :: string where
  "PathReasonInvalidProviderOverride = ''invalid-provider-override''"
definition PathReasonInvalidRoundRobinStartOverride :: string where
  "PathReasonInvalidRoundRobinStartOverride = ''invalid-round-robin-start-override''"

lemmas PathReason_defs =
  PathReasonEmptyProvider_def PathReasonUnsupportedProvider_def PathReasonFallbackEmptyChain_def
  PathReasonFallbackEmptyChildProvider_def PathReasonFallbackAllLegacy_def PathReasonRoundRobin_def
  PathReasonFallbackRoundRobinChildLegacy_def PathReasonFallbackRoundRobinChildBuildRequest_def
  PathReasonBuildRequestDisabled_def PathReasonInvalidStrategyOverride_def
  PathReasonInvalidProviderOverride_def PathReasonInvalidRoundRobinStartOverride_def

section \<open>The adapter\<close>

record retry_config =
  rc_MaxRetries :: int
  rc_Strategy :: string
  rc_DelayMs :: int
  rc_Multiplier :: gofloat
  rc_MaxDelayMs :: int

record 'st adapter =
  ad_ClientRegistryProvider :: string
  ad_OriginalClientRegistry :: "client_registry option"
  ad_RoundRobinAdvancer :: "'st advancer option"
  ad_RetryConfig :: "retry_config option"

text \<open>The primary of the registry when there is one and it is not empty.\<close>

definition primary_name :: "client_registry option \<Rightarrow> string option" where
  "primary_name reg = (case reg of None \<Rightarrow> None
     | Some r \<Rightarrow> (case cr_Primary r of None \<Rightarrow> None | Some p \<Rightarrow> if p \<noteq> '''' then Some p else None))"

section \<open>Providers and clients\<close>

definition normalizeStrategyProvider :: "string \<Rightarrow> string" where
  "normalizeStrategyProvider provider =
     (let p = NormalizeProvider provider in if p = ''fallback'' then ''baml-fallback'' else p)"

text \<open>The scan for an entry of a name whose provider is present.\<close>

definition present_entry :: "client_registry \<Rightarrow> string \<Rightarrow> client_property option" where
  "present_entry r name =
     first_client (\<lambda>c. cp_Name c = name \<and> IsProviderPresent (Some c)) (cr_Clients r)"

definition ResolveProvider :: "'st adapter \<Rightarrow> string \<Rightarrow> string \<Rightarrow> string" where
  "ResolveProvider a defaultClientName introspectedProvider =
     (if ad_ClientRegistryProvider a \<noteq> ''''
      then normalizeStrategyProvider (ad_ClientRegistryProvider a)
      else (case ad_OriginalClientRegistry a of
              None \<Rightarrow> normalizeStrategyProvider introspectedProvider
            | Some r \<Rightarrow>
                (case (case primary_name (Some r) of None \<Rightarrow> None | Some p \<Rightarrow> present_entry r p) of
                   Some c \<Rightarrow> normalizeStrategyProvider (cp_Provider c)
                 | None \<Rightarrow>
                     (case (if defaultClientName \<noteq> '''' then present_entry r defaultClientName else None) of
                        Some c \<Rightarrow> normalizeStrategyProvider (cp_Provider c)
                      | None \<Rightarrow> normalizeStrategyProvider introspectedProvider))))"

definition ResolvePrimaryClient :: "'st adapter \<Rightarrow> string \<Rightarrow> string" where
  "ResolvePrimaryClient a defaultClientName =
     (case primary_name (ad_OriginalClientRegistry a) of None \<Rightarrow> defaultClientName | Some p \<Rightarrow> p)"

definition PreferAdvancer :: "'st adapter \<Rightarrow> 'st advancer option \<Rightarrow> 'st advancer option" where
  "PreferAdvancer a fallback =
     (case ad_RoundRobinAdvancer a of Some adv \<Rightarrow> Some adv | None \<Rightarrow> fallback)"

definition ResolveEffectiveClient ::
    "'st int_source \<Rightarrow> 'st adapter \<Rightarrow> string \<Rightarrow> string list gomap \<Rightarrow> string gomap \<Rightarrow> 'st advancer option \<Rightarrow>
     'st \<Rightarrow> (string \<times> round_robin_info option \<times> rr_error option) \<times> 'st" where
  "ResolveEffectiveClient intn a defaultClientName fallbackChains clientProviders advancer st =
     (let reg = ad_OriginalClientRegistry a;
          clientName = (case primary_name reg of None \<Rightarrow> defaultClientName | Some p \<Rightarrow> p);
          advancer = PreferAdvancer a advancer
      in case Resolve intn \<lparr>in_ClientName = clientName, in_Registry = reg,
                in_FallbackChains = fallbackChains, in_ClientProviders = clientProviders,
                in_Advancer = advancer\<rparr> st of
           (Inl err, st') \<Rightarrow>
             if errors_Is err ErrInvalidStrategyOverride \<or> errors_Is err ErrInvalidStartOverride
             then ((clientName, None, None), st')
             else (('''', None, Some err), st')
         | (Inr res, st') \<Rightarrow> ((rs_Selected res, rs_Info res, None), st'))"

definition ResolveClientProvider :: "client_registry option \<Rightarrow> string \<Rightarrow> string gomap \<Rightarrow> string" where
  "ResolveClientProvider reg clientName introspectedProviders =
     (case (case reg of None \<Rightarrow> None | Some r \<Rightarrow> present_entry r clientName) of
        Some c \<Rightarrow> if cp_Provider c = '''' then '''' else normalizeStrategyProvider (cp_Provider c)
      | None \<Rightarrow> normalizeStrategyProvider (gomap_str introspectedProviders clientName))"

definition br_findRuntimeClient :: "client_registry option \<Rightarrow> string \<Rightarrow> client_property option" where
  "br_findRuntimeClient reg clientName = (case reg of None \<Rightarrow> None
     | Some r \<Rightarrow> first_client (\<lambda>c. cp_Name c = clientName) (cr_Clients r))"

definition hasInvalidProviderOverride :: "client_registry option \<Rightarrow> string \<Rightarrow> bool" where
  "hasInvalidProviderOverride reg clientName =
     (case reg of None \<Rightarrow> False
      | Some r \<Rightarrow>
          if clientName = '''' then False
          else (case first_client (\<lambda>c. cp_Name c = clientName) (cr_Clients r) of
                  None \<Rightarrow> False
                | Some c \<Rightarrow> IsProviderPresent (Some c) \<and> cp_Provider c = ''''))"

definition hasInvalidStartOverride :: "client_registry option \<Rightarrow> string \<Rightarrow> bool" where
  "hasInvalidStartOverride reg clientName =
     (case br_findRuntimeClient reg clientName of None \<Rightarrow> False
      | Some rc \<Rightarrow> (let (start, present, valid) = InspectStartOverride (cp_Options rc)
                   in present \<and> \<not> valid))"

definition isInvalidOverrideReason :: "string \<Rightarrow> bool" where
  "isInvalidOverrideReason reason \<longleftrightarrow> reason = PathReasonInvalidProviderOverride \<or>
     reason = PathReasonInvalidStrategyOverride \<or> reason = PathReasonInvalidRoundRobinStartOverride"

definition isStrategyProvider :: "string \<Rightarrow> bool" where
  "isStrategyProvider p \<longleftrightarrow> IsRoundRobinProvider p \<or> normalizeStrategyProvider p = ''baml-fallback''"

definition hasExplicitStrategyProviderWithoutStrategy ::
    "client_registry option \<Rightarrow> string \<Rightarrow> bool" where
  "hasExplicitStrategyProviderWithoutStrategy reg clientName =
     (case br_findRuntimeClient reg clientName of None \<Rightarrow> False
      | Some rc \<Rightarrow>
          if \<not> IsProviderPresent (Some rc) then False
          else if \<not> isStrategyProvider (cp_Provider rc) then False
          else (let (chain, present, valid) = InspectStrategyOverride reg clientName in \<not> present))"

definition resolveFallbackStrategyChain ::
    "client_registry option \<Rightarrow> string \<Rightarrow> string list gomap \<Rightarrow> string list" where
  "resolveFallbackStrategyChain reg clientName introspectedChains =
     (let (chain, present, valid) = InspectStrategyOverride reg clientName
      in if present \<and> \<not> valid then []
         else (case chain of Some ch \<Rightarrow> ch | None \<Rightarrow> gomap_slice introspectedChains clientName))"

section \<open>Retry policies\<close>

type_synonym policy_map = "policy option gomap"

text \<open>Reading a map of pointers: an absent key and a nil value both give nil.\<close>

definition policy_at :: "policy_map \<Rightarrow> string \<Rightarrow> policy option" where
  "policy_at m k = (case map_of m k of None \<Rightarrow> None | Some p \<Rightarrow> p)"

text \<open>The scan for an entry of a name whose retry policy is named in the map; the value found may be
  nil, and the scan ends there.\<close>

fun scan_policy :: "policy_map \<Rightarrow> string \<Rightarrow> client_property option list \<Rightarrow> policy option option" where
  "scan_policy m name [] = None"
| "scan_policy m name (None # cs) = scan_policy m name cs"
| "scan_policy m name (Some c # cs) =
     (if cp_Name c = name then
        (case cp_RetryPolicy c of
           None \<Rightarrow> scan_policy m name cs
         | Some rp \<Rightarrow> (case map_of m rp of Some p \<Rightarrow> Some p | None \<Rightarrow> scan_policy m name cs))
      else scan_policy m name cs)"

definition RetryConfigToPolicy :: "retry_config option \<Rightarrow> policy option" where
  "RetryConfigToPolicy rc = (case rc of None \<Rightarrow> None
     | Some c \<Rightarrow> Some (ResolveStrategy
         \<lparr>po_MaxRetries = rc_MaxRetries c, po_Strategy = None,
          po_StrategyConfig = Some \<lparr>sc_Type = rc_Strategy c, sc_DelayMs = rc_DelayMs c,
            sc_Multiplier = rc_Multiplier c, sc_MaxDelayMs = rc_MaxDelayMs c\<rparr>,
          po_resolved = False\<rparr>))"

definition ResolveRetryPolicy ::
    "'st adapter \<Rightarrow> string \<Rightarrow> string \<Rightarrow> policy_map \<Rightarrow> policy option" where
  "ResolveRetryPolicy a defaultClientName introspectedPolicyName introspectedPolicies =
     (case ad_RetryConfig a of
        Some rc \<Rightarrow> RetryConfigToPolicy (Some rc)
      | None \<Rightarrow>
          (case (case ad_OriginalClientRegistry a of
                   None \<Rightarrow> None
                 | Some r \<Rightarrow>
                     (case primary_name (Some r) of
                        Some p \<Rightarrow> scan_policy introspectedPolicies p (cr_Clients r)
                      | None \<Rightarrow>
                          if defaultClientName \<noteq> ''''
                          then scan_policy introspectedPolicies defaultClientName (cr_Clients r)
                          else None)) of
             Some p \<Rightarrow> p
           | None \<Rightarrow>
               if introspectedPolicyName \<noteq> ''''
               then policy_at introspectedPolicies introspectedPolicyName else None))"

definition resolveRetryPolicyForClient ::
    "'st adapter \<Rightarrow> string \<Rightarrow> string \<Rightarrow> policy_map \<Rightarrow> policy option" where
  "resolveRetryPolicyForClient a clientName introspectedPolicyName introspectedPolicies =
     (case (case ad_OriginalClientRegistry a of
              None \<Rightarrow> None
            | Some r \<Rightarrow>
                if clientName \<noteq> '''' then scan_policy introspectedPolicies clientName (cr_Clients r)
                else None) of
        Some p \<Rightarrow> p
      | None \<Rightarrow>
          if introspectedPolicyName \<noteq> ''''
          then policy_at introspectedPolicies introspectedPolicyName else None)"

definition ResolveStrategyAwareRetryPolicy ::
    "'st adapter \<Rightarrow> string \<Rightarrow> string \<Rightarrow> string \<Rightarrow> string \<Rightarrow> policy_map \<Rightarrow> policy option" where
  "ResolveStrategyAwareRetryPolicy a strategyClient effectiveClient strategyPolicyName
       effectivePolicyName introspectedPolicies =
     (case ResolveRetryPolicy a strategyClient strategyPolicyName introspectedPolicies of
        Some p \<Rightarrow> Some p
      | None \<Rightarrow>
          if strategyClient \<noteq> effectiveClient
          then resolveRetryPolicyForClient a effectiveClient effectivePolicyName introspectedPolicies
          else None)"

text \<open>The header form of a policy.\<close>

definition EncodeRetryPolicy :: "policy option \<Rightarrow> string" where
  "EncodeRetryPolicy p =
     (case p of None \<Rightarrow> ''''
      | Some p \<Rightarrow>
          (case po_StrategyConfig p of None \<Rightarrow> ''''
           | Some cfg \<Rightarrow>
               if sc_Type cfg = ''constant_delay''
               then ''const:'' @ itoa (sc_DelayMs cfg) @ ''ms''
               else if sc_Type cfg = ''exponential_backoff''
               then ''exp:'' @ itoa (sc_DelayMs cfg) @ ''ms:'' @ ftoa2 (sc_Multiplier cfg) @ '':'' @
                    itoa (sc_MaxDelayMs cfg) @ ''ms''
               else sc_Type cfg))"

section \<open>Lemmas\<close>

lemma br_findRuntimeClient_eq: "br_findRuntimeClient = findRuntimeClient"
  by (intro ext) (simp add: br_findRuntimeClient_def findRuntimeClient_def)

lemma NormalizeProvider_idem: "NormalizeProvider (NormalizeProvider p) = NormalizeProvider p"
  by (simp add: NormalizeProvider_def CanonicalProvider_def IsRoundRobinProvider_def)

lemma normalizeStrategyProvider_idem [provider_simps]:
  "normalizeStrategyProvider (normalizeStrategyProvider p) = normalizeStrategyProvider p"
  by (simp add: normalizeStrategyProvider_def NormalizeProvider_def CanonicalProvider_def
      IsRoundRobinProvider_def Let_def)

lemma normalizeStrategyProvider_empty [provider_simps]:
  "normalizeStrategyProvider p = '''' \<longleftrightarrow> p = ''''"
  by (simp add: normalizeStrategyProvider_def NormalizeProvider_def CanonicalProvider_def
      IsRoundRobinProvider_def Let_def)

lemma isStrategyProvider_eq [provider_simps]: "isStrategyProvider p = isStrategyProviderName p"
  by (auto simp: isStrategyProvider_def isStrategyProviderName_def normalizeStrategyProvider_def
      NormalizeProvider_def CanonicalProvider_def IsRoundRobinProvider_def Let_def)

lemma IsRoundRobinProvider_normalize [provider_simps]:
  "IsRoundRobinProvider (normalizeStrategyProvider p) = IsRoundRobinProvider p"
  by (auto simp: normalizeStrategyProvider_def NormalizeProvider_def CanonicalProvider_def
      IsRoundRobinProvider_def Let_def)

lemma isStrategyProvider_normalize [provider_simps]:
  "isStrategyProvider (normalizeStrategyProvider p) = isStrategyProvider p"
  by (simp add: isStrategyProvider_def provider_simps)

lemma IsRoundRobin_isStrategy [provider_simps]: "IsRoundRobinProvider p \<Longrightarrow> isStrategyProvider p"
  by (simp add: isStrategyProvider_def)

lemma strategy_not_empty [simp]: "\<not> isStrategyProvider ''''" "\<not> IsRoundRobinProvider ''''"
  by (simp_all add: isStrategyProvider_eq isStrategyProviderName_def IsRoundRobinProvider_def)

lemma normalizeStrategyProvider_Nil [simp]: "normalizeStrategyProvider [] = []"
  by (simp add: provider_simps)

text \<open>The provider of the round-robin resolver and that of the planner differ by normalisation
  only.\<close>

lemma ResolveClientProvider_normalizes:
  "ResolveClientProvider reg n ip = normalizeStrategyProvider (resolveClientProvider reg n ip)"
  by (auto simp: ResolveClientProvider_def resolveClientProvider_def present_entry_def
      split: option.split)

lemma resolveFallbackStrategyChain_eq:
  "snd (snd (InspectStrategyOverride reg n)) \<or> \<not> fst (snd (InspectStrategyOverride reg n)) \<Longrightarrow>
     resolveFallbackStrategyChain reg n fcs = rr_chain reg fcs n"
  by (cases reg n rule: InspectStrategyOverride_cases)
    (auto simp: resolveFallbackStrategyChain_def rr_chain_def)

section \<open>The order of the policy sources\<close>

fun first_some :: "'a option list \<Rightarrow> 'a option" where
  "first_some [] = None"
| "first_some (Some x # xs) = Some x"
| "first_some (None # xs) = first_some xs"

text \<open>The policy that the registry entry of a client names, and the policy of a name.\<close>

definition entry_policy :: "client_registry option \<Rightarrow> policy_map \<Rightarrow> string \<Rightarrow> policy option" where
  "entry_policy reg m name =
     Option.bind (findRuntimeClient reg name) (\<lambda>c. Option.bind (cp_RetryPolicy c) (policy_at m))"

definition named_policy :: "policy_map \<Rightarrow> string \<Rightarrow> policy option" where
  "named_policy m n = (if n = '''' then None else policy_at m n)"

definition policies_present :: "policy_map \<Rightarrow> bool" where
  "policies_present m \<longleftrightarrow> list_all (\<lambda>(k, p). p \<noteq> None \<and> po_resolved (the p)) m"

lemma policies_presentD: "policies_present m \<Longrightarrow> map_of m k = Some p \<Longrightarrow> \<exists>q. p = Some q \<and> po_resolved q"
  by (auto simp: policies_present_def list_all_iff dest!: map_of_SomeD)

lemma policy_at_resolved: "policies_present m \<Longrightarrow> policy_at m k = Some q \<Longrightarrow> po_resolved q"
  by (auto simp: policy_at_def dest: policies_presentD split: option.splits)

lemma source_resolved:
  assumes "policies_present m"
  shows "Some p = RetryConfigToPolicy rc \<Longrightarrow> po_resolved p" "Some p = named_policy m n \<Longrightarrow> po_resolved p"
    "Some p = entry_policy reg m n \<Longrightarrow> po_resolved p"
  using policy_at_resolved[OF assms, of _ p]
  by (auto simp: RetryConfigToPolicy_def ResolveStrategy_def entry_policy_def named_policy_def
      bind_eq_Some_conv dest!: sym[of "Some p"] split: option.splits if_splits)

lemma scan_policy_absent: "name \<notin> set (client_names cs) \<Longrightarrow> scan_policy m name cs = None"
  by (induction m name cs rule: scan_policy.induct) auto

text \<open>With distinct names and no nil policy, the scan finds what the entry of the name names.\<close>

lemma scan_policy_entry:
  assumes "distinct (client_names cs)" "policies_present m"
  shows "scan_policy m name cs =
    map_option Some (Option.bind (first_client (\<lambda>c. cp_Name c = name) cs)
      (\<lambda>c. Option.bind (cp_RetryPolicy c) (policy_at m)))"
  using assms
proof (induction m name cs rule: scan_policy.induct)
  case (3 m name c cs)
  show ?case
  proof (cases "cp_Name c = name")
    case True
    then have "scan_policy m name cs = None" using 3(4) by (auto intro: scan_policy_absent)
    then show ?thesis using True 3(5)
      by (auto simp: policy_at_def split: option.split dest!: policies_presentD)
  qed (use 3 in auto)
qed auto

lemma scan_policy_Some:
  assumes "Validate (Some r) = None" "policies_present m"
  shows "scan_policy m name (cr_Clients r) = map_option Some (entry_policy (Some r) m name)"
  using assms scan_policy_entry[of "cr_Clients r" m name]
  by (simp add: Validate_def Validate_loop_None entry_policy_def findRuntimeClient_def)

lemma entry_policy_empty: "Validate reg = None \<Longrightarrow> entry_policy reg m [] = None"
proof (cases reg)
  case (Some r)
  moreover assume "Validate reg = None"
  ultimately have "first_client (\<lambda>c. cp_Name c = []) (cr_Clients r) = None"
    by (auto simp: Validate_def Validate_loop_None in_client_names first_client_None)
  then show ?thesis using Some by (simp add: entry_policy_def findRuntimeClient_def)
qed (simp add: entry_policy_def findRuntimeClient_def)

lemma resolveRetryPolicyForClient_order:
  assumes "Validate (ad_OriginalClientRegistry a) = None" "policies_present m"
  shows "resolveRetryPolicyForClient a c n m =
    first_some [entry_policy (ad_OriginalClientRegistry a) m c, named_policy m n]"
proof (cases "ad_OriginalClientRegistry a")
  case None
  then show ?thesis
    by (cases "named_policy m n")
      (auto simp: resolveRetryPolicyForClient_def entry_policy_def findRuntimeClient_def named_policy_def)
next
  case (Some r)
  have e: "entry_policy (Some r) m [] = None" using assms Some entry_policy_empty by metis
  show ?thesis using Some scan_policy_Some[of r m c] assms e
    by (cases "entry_policy (Some r) m c"; cases "named_policy m n")
      (auto simp: resolveRetryPolicyForClient_def named_policy_def)
qed

lemma ResolveRetryPolicy_order:
  assumes "Validate (ad_OriginalClientRegistry a) = None" "policies_present m"
  shows "ResolveRetryPolicy a c n m =
    first_some [RetryConfigToPolicy (ad_RetryConfig a),
      entry_policy (ad_OriginalClientRegistry a) m (ResolvePrimaryClient a c), named_policy m n]"
proof (cases "ad_RetryConfig a")
  case None
  then have "ResolveRetryPolicy a c n m = resolveRetryPolicyForClient a (ResolvePrimaryClient a c) n m"
    by (auto simp: ResolveRetryPolicy_def resolveRetryPolicyForClient_def ResolvePrimaryClient_def
        primary_name_def split: option.split)
  then show ?thesis
    using None resolveRetryPolicyForClient_order[OF assms] by (simp add: RetryConfigToPolicy_def)
qed (simp add: ResolveRetryPolicy_def RetryConfigToPolicy_def)

section \<open>Properties\<close>

text \<open>For a registry that validation accepts, and introspected policies that are
  resolved, the retry policy of a request is the first there is of: the request's own retry config;
  the policy that the registry entry of the primary client (or, without a primary, of the strategy
  client) names; the introspected policy of the strategy client; and, only when strategy resolution
  chose another client, the policy its registry entry names and its introspected policy. Whatever
  policy results, its strategy has been resolved, so running it does not have to write to it.\<close>

theorem retry_policy_priority:
  assumes "Validate (ad_OriginalClientRegistry a) = None" "policies_present ips"
  shows "ResolveStrategyAwareRetryPolicy a strat eff stratPolicy effPolicy ips =
      first_some ([RetryConfigToPolicy (ad_RetryConfig a),
          entry_policy (ad_OriginalClientRegistry a) ips (ResolvePrimaryClient a strat),
          named_policy ips stratPolicy] @
        (if strat = eff then []
         else [entry_policy (ad_OriginalClientRegistry a) ips eff, named_policy ips effPolicy])) \<and>
    (\<forall>p. ResolveStrategyAwareRetryPolicy a strat eff stratPolicy effPolicy ips = Some p \<longrightarrow> po_resolved p)"
    (is "?R = first_some ([?c1, ?c2, ?c3] @ ?rest) \<and> _")
proof -
  have 1: "ResolveRetryPolicy a strat stratPolicy ips = first_some [?c1, ?c2, ?c3]"
    by (rule ResolveRetryPolicy_order[OF assms])
  have 2: "resolveRetryPolicyForClient a eff effPolicy ips =
      first_some [entry_policy (ad_OriginalClientRegistry a) ips eff, named_policy ips effPolicy]"
    by (rule resolveRetryPolicyForClient_order[OF assms])
  have eq: "?R = first_some ([?c1, ?c2, ?c3] @ ?rest)"
    unfolding ResolveStrategyAwareRetryPolicy_def 1 2
    by (cases ?c1; cases ?c2; cases ?c3) simp_all
  have res: "po_resolved p" if "Some p \<in> set ([?c1, ?c2, ?c3] @ ?rest)" for p
    using that source_resolved[OF assms(2)] by (auto split: if_splits)
  have mem: "first_some cs = Some p \<Longrightarrow> Some p \<in> set cs" for cs :: "policy option list" and p
    by (induction cs rule: first_some.induct) auto
  show ?thesis using eq mem[of "[?c1, ?c2, ?c3] @ ?rest"] res by metis
qed

theorem retry_policy_priority_witness:
  "ResolveStrategyAwareRetryPolicy
     \<lparr>ad_ClientRegistryProvider = [], ad_OriginalClientRegistry = Some \<lparr>cr_Primary = None, cr_Clients =
        [Some \<lparr>cp_Name = ''B'', cp_Provider = [], cp_RetryPolicy = Some ''pol'', cp_Options = None, cp_ProviderSet = False\<rparr>]\<rparr>,
      ad_RoundRobinAdvancer = (None :: unit advancer option), ad_RetryConfig = None\<rparr>
     ''A'' ''B'' [] [] [(''pol'', Some (ResolveStrategy demo_policy))] = Some (ResolveStrategy demo_policy)"
proof -
  let ?a = "\<lparr>ad_ClientRegistryProvider = [], ad_OriginalClientRegistry = Some \<lparr>cr_Primary = None, cr_Clients =
        [Some \<lparr>cp_Name = ''B'', cp_Provider = [], cp_RetryPolicy = Some ''pol'', cp_Options = None, cp_ProviderSet = False\<rparr>]\<rparr>,
      ad_RoundRobinAdvancer = (None :: unit advancer option), ad_RetryConfig = None\<rparr>"
  let ?m = "[(''pol'', Some (ResolveStrategy demo_policy))]"
  have v: "Validate (ad_OriginalClientRegistry ?a) = None" by (simp add: Validate_def)
  have m: "policies_present ?m" by code_simp
  show ?thesis
    using retry_policy_priority[OF v m, of "''A''" "''B''" "[]" "[]"]
    by (simp add: RetryConfigToPolicy_def entry_policy_def findRuntimeClient_def named_policy_def
        policy_at_def ResolvePrimaryClient_def primary_name_def)
qed

end
