(* ===== verification/Strategy_Graph.thy ===== *)
theory Strategy_Graph
  imports Client_Resolution
begin

text \<open>
  \<^verbatim>\<open>buildrequest/legacy_child_registry.go\<close>: the walks over the strategy graph of a registry.

  Both walks are recursive closures over a shared visited map. The model keeps the pending calls of
  the enclosing loops as an explicit stack: visiting a client pushes its children in front of the
  siblings that are still to be visited, which is the order of the recursive calls; a non-empty
  reason is returned through every pending call at once. The locale \<open>graph_walk\<close> holds the laws of
  such a walk and what follows from them; both walks interpret it.
\<close>

section \<open>Walks over a finite graph\<close>

locale graph_walk =
  fixes check :: "string \<Rightarrow> 'e + string list"
    and walk :: "string list \<Rightarrow> string list \<Rightarrow> 'r"
    and finished :: "string list \<Rightarrow> 'r"
    and failed :: "'e \<Rightarrow> 'r"
    and U :: "string set"
  assumes finite_U: "finite U"
    and kids_U: "check n = Inr ch \<Longrightarrow> set ch \<subseteq> U"
    and walk_Nil: "walk v [] = finished v"
    and walk_Cons: "walk v (n # s) =
      (if n \<in> set v then walk v s
       else (case check n of Inl e \<Rightarrow> failed e | Inr ch \<Rightarrow> walk (n # v) (ch @ s)))"
begin

definition edges :: "(string \<times> string) set" where
  "edges = {(a, b). \<exists>ch. check a = Inr ch \<and> b \<in> set ch}"

definition settled :: "string set \<Rightarrow> string set \<Rightarrow> bool" where
  "settled V S \<longleftrightarrow> (\<forall>x \<in> V. \<exists>ch. check x = Inr ch \<and> set ch \<subseteq> V \<union> S)"

text \<open>The outcome of a walk: it finishes with a set of settled nodes that the stack reaches, or it
  fails with the error of a node that the stack reaches.\<close>

definition outcome :: "string list \<Rightarrow> string list \<Rightarrow> bool" where
  "outcome v s \<longleftrightarrow>
     (\<exists>v'. walk v s = finished v' \<and> set v \<union> set s \<subseteq> set v' \<and>
        set v' \<subseteq> set v \<union> edges\<^sup>* `` set s \<and> settled (set v') {})
   \<or> (\<exists>n e. n \<in> edges\<^sup>* `` set s \<and> check n = Inl e \<and> walk v s = failed e)"

lemma outcome_skip: "n \<in> set v \<Longrightarrow> outcome v s \<Longrightarrow> outcome v (n # s)"
  unfolding outcome_def walk_Cons by (auto; blast)

lemma outcome_visit:
  assumes "n \<notin> set v" "check n = Inr ch" "outcome (n # v) (ch @ s)"
  shows "outcome v (n # s)"
proof -
  have w: "walk v (n # s) = walk (n # v) (ch @ s)" using assms(1,2) by (simp add: walk_Cons)
  have "\<forall>b \<in> set ch. (n, b) \<in> edges" using assms(2) by (simp add: edges_def)
  then have reach: "edges\<^sup>* `` set (ch @ s) \<subseteq> edges\<^sup>* `` set (n # s)"
    by (auto intro: converse_rtrancl_into_rtrancl)
  have nr: "n \<in> edges\<^sup>* `` set (n # s)" by auto
  from assms(3) consider
      (fin) v' where "walk (n # v) (ch @ s) = finished v'" "set (n # v) \<union> set (ch @ s) \<subseteq> set v'"
        "set v' \<subseteq> set (n # v) \<union> edges\<^sup>* `` set (ch @ s)" "settled (set v') {}"
    | (bad) m e where "m \<in> edges\<^sup>* `` set (ch @ s)" "check m = Inl e" "walk (n # v) (ch @ s) = failed e"
    unfolding outcome_def by blast
  then show ?thesis
  proof cases
    case fin
    then show ?thesis unfolding outcome_def using w reach nr by (intro disjI1 exI[of _ v']) auto
  next
    case bad
    then show ?thesis unfolding outcome_def using w reach by (metis (no_types, lifting) subsetD)
  qed
qed

lemma settled_skip: "n \<in> set v \<Longrightarrow> settled (set v) (set (n # s)) = settled (set v) (set s)"
  unfolding settled_def by (simp add: insert_absorb)

lemma settled_visit:
  assumes "settled (set v) (set (n # s))" "check n = Inr ch"
  shows "settled (set (n # v)) (set (ch @ s))"
  unfolding settled_def
proof
  fix x assume "x \<in> set (n # v)"
  then consider "x = n" | "x \<in> set v" by auto
  then show "\<exists>c. check x = Inr c \<and> set c \<subseteq> set (n # v) \<union> set (ch @ s)"
  proof cases
    case 1
    then show ?thesis using assms(2) by auto
  next
    case 2
    then obtain c where "check x = Inr c" "set c \<subseteq> set v \<union> set (n # s)"
      using assms(1) by (auto simp: settled_def)
    then show ?thesis by (intro exI[of _ c]) auto
  qed
qed

lemma walk_outcome:
  assumes "settled (set v) (set s)"
  shows "outcome v s"
proof -
  define W where "W = U \<union> set s"
  have W: "finite W" "U \<subseteq> W" by (simp_all add: W_def finite_U)
  have "set s \<subseteq> W" by (simp add: W_def)
  with assms show ?thesis
  proof (induction "card (W - set v)" arbitrary: v s rule: less_induct)
    case less
    note outer = less.hyps
    from less.prems show ?case
    proof (induction s)
      case Nil
      then show ?case unfolding outcome_def by (intro disjI1 exI[of _ v]) (simp add: walk_Nil)
    next
      case (Cons n s)
      show ?case
      proof (cases "n \<in> set v")
        case True
        then show ?thesis using Cons settled_skip outcome_skip by simp
      next
        case new: False
        show ?thesis
        proof (cases "check n")
          case (Inl e)
          then show ?thesis unfolding outcome_def using new
            by (intro disjI2 exI[of _ n] exI[of _ e]) (auto simp: walk_Cons)
        next
          case (Inr ch)
          have "card (W - set (n # v)) < card (W - set v)"
            using new Cons.prems(2) W(1) by (intro psubset_card_mono) auto
          moreover have "set (ch @ s) \<subseteq> W" using kids_U[OF Inr] W(2) Cons.prems(2) by auto
          ultimately have "outcome (n # v) (ch @ s)"
            using outer settled_visit[OF Cons.prems(1) Inr] by blast
          then show ?thesis by (rule outcome_visit[OF new Inr])
        qed
      qed
    qed
  qed
qed

lemma settled_closed:
  assumes "settled V {}" "a \<in> V" "(a, b) \<in> edges\<^sup>*"
  shows "b \<in> V \<and> (\<exists>ch. check b = Inr ch)"
  using assms(3)
proof (induction rule: rtrancl_induct)
  case base
  then show ?case using assms(1,2) by (auto simp: settled_def)
next
  case (step y z)
  then obtain ch where "check y = Inr ch" "z \<in> set ch" by (auto simp: edges_def)
  then have "z \<in> V" using step.IH assms(1) by (fastforce simp: settled_def)
  then show ?case using assms(1) by (auto simp: settled_def)
qed

text \<open>From one root: either the walk finishes with exactly the reachable nodes, none of which fails
  its check, or it fails with the error of a reachable node.\<close>

lemma walk_root:
  obtains (ok) v where "walk [] [r] = finished v" "set v = edges\<^sup>* `` {r}"
      "\<forall>n \<in> edges\<^sup>* `` {r}. \<exists>ch. check n = Inr ch"
  | (bad) n e where "walk [] [r] = failed e" "n \<in> edges\<^sup>* `` {r}" "check n = Inl e"
proof -
  have "outcome [] [r]" by (rule walk_outcome) (simp add: settled_def)
  then consider
      (f) v where "walk [] [r] = finished v" "r \<in> set v" "set v \<subseteq> edges\<^sup>* `` {r}" "settled (set v) {}"
    | (b) n e where "n \<in> edges\<^sup>* `` {r}" "check n = Inl e" "walk [] [r] = failed e"
    unfolding outcome_def by auto
  then show ?thesis
  proof cases
    case f
    then show ?thesis using settled_closed[OF f(4,2)] by (intro ok[OF f(1)]) auto
  next
    case b
    then show ?thesis using bad by blast
  qed
qed

end

text \<open>The order in which such walks terminate: fewer unvisited nodes, or a shorter stack.\<close>

definition graph_order ::
    "('x \<Rightarrow> string set) \<Rightarrow> ('x \<Rightarrow> string list) \<Rightarrow> ('x \<Rightarrow> string list) \<Rightarrow> ('x \<times> 'x) set" where
  "graph_order U visited stack = inv_image (finite_psubset <*lex*> less_than)
     (\<lambda>x. (U x \<union> set (stack x) - set (visited x), length (stack x)))"

lemma wf_graph_order: "wf (graph_order U visited stack)"
  unfolding graph_order_def by (intro wf_inv_image wf_lex_prod wf_finite_psubset wf_less_than)

lemma graph_order_skip:
  assumes "U y = U x" "visited y = visited x" "stack x = n # stack y" "n \<in> set (visited x)"
  shows "(y, x) \<in> graph_order U visited stack"
proof -
  have "U x \<union> set (stack x) - set (visited x) = U y \<union> set (stack y) - set (visited y)"
    using assms by auto
  then show ?thesis using assms by (simp add: graph_order_def)
qed

lemma graph_order_visit:
  assumes "U y = U x" "visited y = n # visited x" "stack x = n # s" "stack y = ch @ s"
    and "n \<notin> set (visited x)" "finite (U x)" "set ch \<subseteq> U x"
  shows "(y, x) \<in> graph_order U visited stack"
proof -
  have "U y \<union> set (stack y) - set (visited y) \<subset> U x \<union> set (stack x) - set (visited x)"
    using assms by auto
  then show ?thesis using assms by (simp add: graph_order_def finite_psubset_def)
qed

section \<open>The model of the walks\<close>

definition lookupRuntimeClient :: "client_registry option \<Rightarrow> string \<Rightarrow> client_property option" where
  "lookupRuntimeClient reg name = (case reg of None \<Rightarrow> None
     | Some r \<Rightarrow> first_client (\<lambda>c. cp_Name c = name) (cr_Clients r))"

lemma lookupRuntimeClient_eq: "lookupRuntimeClient = findRuntimeClient"
  by (intro ext) (simp add: lookupRuntimeClient_def findRuntimeClient_def)

text \<open>The children that the first walk descends into.\<close>

definition subgraph_children ::
    "client_registry option \<Rightarrow> string gomap \<Rightarrow> string list gomap \<Rightarrow> string \<Rightarrow> string list" where
  "subgraph_children reg introspectedProviders introspectedChains name =
     (let probe = (case lookupRuntimeClient reg name of
            Some c \<Rightarrow> c
          | None \<Rightarrow> \<lparr>cp_Name = name, cp_Provider = [], cp_RetryPolicy = None, cp_Options = None,
                     cp_ProviderSet = False\<rparr>)
      in if \<not> IsResolvedStrategyParent (Some probe) introspectedProviders then []
         else (let (chain, present, valid) = InspectStrategyOverride reg name
               in if present \<and> valid then (case chain of Some ch \<Rightarrow> ch | None \<Rightarrow> [])
                  else if present \<and> \<not> valid then []
                  else gomap_slice introspectedChains name))"

lemma subgraph_children_bound: "set (subgraph_children reg ip ic n) \<subseteq> strategy_children reg ic"
  using gomap_slice_subset[of ic n]
  by (cases reg n rule: InspectStrategyOverride_cases)
    (auto simp: subgraph_children_def strategy_children_def Let_def)

text \<open>The walk of \<^verbatim>\<open>computeReachableSubgraph\<close>: visited map, output map and stack of pending calls.\<close>

function subgraph_walk ::
    "client_registry option \<Rightarrow> string gomap \<Rightarrow> string list gomap \<Rightarrow> string list \<Rightarrow> string list \<Rightarrow>
     string list \<Rightarrow> string list" where
  "subgraph_walk reg ip ic visited out [] = out"
| "subgraph_walk reg ip ic visited out (name # pending) =
     (if name \<in> set visited then subgraph_walk reg ip ic visited out pending
      else subgraph_walk reg ip ic (name # visited) (name # out)
             (subgraph_children reg ip ic name @ pending))"
  by pat_completeness auto

termination
proof (relation "graph_order (\<lambda>(reg, ip, ic, visited, out, s). strategy_children reg ic)
    (\<lambda>(reg, ip, ic, visited, out, s). visited) (\<lambda>(reg, ip, ic, visited, out, s). s)", goal_cases)
  case (3 reg ip ic visited out name pending)
  then show ?case
    by (intro graph_order_visit[where n = name and ch = "subgraph_children reg ip ic name" and s = pending])
      (simp_all add: subgraph_children_bound)
qed (auto intro: wf_graph_order graph_order_skip)

definition computeReachableSubgraph ::
    "client_registry option \<Rightarrow> string \<Rightarrow> string gomap \<Rightarrow> string list gomap \<Rightarrow> string list" where
  "computeReachableSubgraph reg rootName introspectedProviders introspectedChains =
     subgraph_walk reg introspectedProviders introspectedChains [] [] [rootName]"

record legacy_entry =
  le_Name :: string
  le_Provider :: string
  le_Options :: "goval gomap option"

definition entry_of :: "client_property \<Rightarrow> string gomap \<Rightarrow> legacy_entry" where
  "entry_of client introspectedProviders =
     \<lparr>le_Name = cp_Name client,
      le_Provider = UpstreamClientRegistryProvider (Some client) introspectedProviders,
      le_Options = cp_Options client\<rparr>"

fun legacy_entries ::
    "string list \<Rightarrow> string gomap \<Rightarrow> client_property option list \<Rightarrow> legacy_entry list" where
  "legacy_entries reachable ip [] = []"
| "legacy_entries reachable ip (None # clients) = legacy_entries reachable ip clients"
| "legacy_entries reachable ip (Some client # clients) =
     (if cp_Name client \<notin> set reachable then legacy_entries reachable ip clients
      else if \<not> IsResolvedStrategyParent (Some client) ip
      then entry_of client ip # legacy_entries reachable ip clients
      else if ShouldDropStrategyParentForTopLevelLegacy (Some client) ip
      then legacy_entries reachable ip clients
      else entry_of client ip # legacy_entries reachable ip clients)"

definition BuildLegacyChildRegistryEntries ::
    "client_registry option \<Rightarrow> string \<Rightarrow> string gomap \<Rightarrow> string list gomap \<Rightarrow> legacy_entry list option" where
  "BuildLegacyChildRegistryEntries reg clientOverride introspectedProviders introspectedChains =
     (case reg of None \<Rightarrow> None
      | Some r \<Rightarrow>
          (let reachable = computeReachableSubgraph reg clientOverride introspectedProviders introspectedChains
           in Some (legacy_entries reachable introspectedProviders (cr_Clients r))))"

subsection \<open>The search for an invalid override\<close>

definition resolveEffectiveProvider :: "client_registry option \<Rightarrow> string gomap \<Rightarrow> string \<Rightarrow> string" where
  "resolveEffectiveProvider reg introspectedProviders name =
     (case lookupRuntimeClient reg name of
        Some rc \<Rightarrow>
          if IsProviderPresent (Some rc) \<and> cp_Provider rc \<noteq> [] then cp_Provider rc
          else gomap_str introspectedProviders name
      | None \<Rightarrow> gomap_str introspectedProviders name)"

definition inStrategyGraph :: "client_registry option \<Rightarrow> string gomap \<Rightarrow> string \<Rightarrow> bool" where
  "inStrategyGraph reg ip name \<longleftrightarrow> isStrategyProvider (resolveEffectiveProvider reg ip name)"

text \<open>The body of the walk up to its loop: the reason it returns, or the children it visits.\<close>

definition override_check ::
    "client_registry option \<Rightarrow> string gomap \<Rightarrow> string list gomap \<Rightarrow> string \<Rightarrow> string + string list" where
  "override_check reg ip ic name =
     (if hasInvalidProviderOverride reg name then Inl PathReasonInvalidProviderOverride
      else if \<not> inStrategyGraph reg ip name then Inr []
      else (let (chain, present, valid) = InspectStrategyOverride reg name
      in if present \<and> \<not> valid then Inl PathReasonInvalidStrategyOverride
      else if (case lookupRuntimeClient reg name of None \<Rightarrow> False
               | Some rc \<Rightarrow> IsProviderPresent (Some rc) \<and> isStrategyProvider (cp_Provider rc) \<and> \<not> present)
      then Inl PathReasonInvalidStrategyOverride
      else if IsRoundRobinProvider (resolveEffectiveProvider reg ip name) \<and> hasInvalidStartOverride reg name
      then Inl PathReasonInvalidRoundRobinStartOverride
      else Inr (if present \<and> valid then (case chain of Some ch \<Rightarrow> ch | None \<Rightarrow> [])
                else gomap_slice ic name)))"

lemma override_check_bound: "override_check reg ip ic n = Inr ch \<Longrightarrow> set ch \<subseteq> strategy_children reg ic"
  using gomap_slice_subset[of ic n]
  by (cases reg n rule: InspectStrategyOverride_cases)
    (auto simp: override_check_def strategy_children_def split: if_splits)

function override_walk ::
    "client_registry option \<Rightarrow> string gomap \<Rightarrow> string list gomap \<Rightarrow> string list \<Rightarrow> string list \<Rightarrow> string" where
  "override_walk reg ip ic visited [] = []"
| "override_walk reg ip ic visited (name # pending) =
     (if name \<in> set visited then override_walk reg ip ic visited pending
      else (case override_check reg ip ic name of
              Inl reason \<Rightarrow> reason
            | Inr chain \<Rightarrow> override_walk reg ip ic (name # visited) (chain @ pending)))"
  by pat_completeness auto

termination
proof (relation "graph_order (\<lambda>(reg, ip, ic, visited, s). strategy_children reg ic)
    (\<lambda>(reg, ip, ic, visited, s). visited) (\<lambda>(reg, ip, ic, visited, s). s)", goal_cases)
  case (3 reg ip ic visited name pending ch)
  then show ?case
    by (intro graph_order_visit[where n = name and ch = ch and s = pending])
      (simp_all add: override_check_bound)
qed (auto intro: wf_graph_order graph_order_skip)

definition FindInvalidReachableStrategyOverride ::
    "client_registry option \<Rightarrow> string \<Rightarrow> string gomap \<Rightarrow> string list gomap \<Rightarrow> string" where
  "FindInvalidReachableStrategyOverride reg rootName introspectedProviders introspectedChains =
     override_walk reg introspectedProviders introspectedChains [] [rootName]"

section \<open>The walks satisfy the contract\<close>

text \<open>The first walk keeps its two maps equal, so it is a walk in which no node fails.\<close>

interpretation subgraph: graph_walk
  "\<lambda>n. Inr (subgraph_children reg ip ic n) :: unit + string list"
  "\<lambda>v s. subgraph_walk reg ip ic v v s" "\<lambda>v. v" "\<lambda>_. []" "strategy_children reg ic"
  for reg ip ic
  by unfold_locales (auto dest: subsetD[OF subgraph_children_bound])

interpretation override: graph_walk
  "override_check reg ip ic" "override_walk reg ip ic" "\<lambda>_. []" "\<lambda>r. r" "strategy_children reg ic"
  for reg ip ic
  by unfold_locales (auto dest: subsetD[OF override_check_bound])

section \<open>The preflight search and the resolver\<close>

text \<open>A client at which the resolver raises neither of its two override errors.\<close>

definition clean_node :: "'st resolve_input \<Rightarrow> string \<Rightarrow> bool" where
  "clean_node inp c \<longleftrightarrow>
     (case InspectStrategyOverride (in_Registry inp) c of (ch, present, valid) \<Rightarrow>
        \<not> (present \<and> \<not> valid) \<and>
        (case findRuntimeClient (in_Registry inp) c of None \<Rightarrow> True
         | Some rc \<Rightarrow> \<not> (IsProviderPresent (Some rc) \<and> IsRoundRobinProvider (cp_Provider rc) \<and> \<not> present)) \<and>
        \<not> hasInvalidStartOverride (in_Registry inp) c)"

definition override_error :: "rr_error \<Rightarrow> bool" where
  "override_error e \<longleftrightarrow> errors_Is e ErrInvalidStrategyOverride \<or> errors_Is e ErrInvalidStartOverride"

lemma clean_node_body:
  assumes "clean_node inp c"
  shows "Resolve_body intn inp c info st \<noteq> (Inl (Inl ErrInvalidStrategyOverride), st')"
  using assms
  by (auto simp: clean_node_def Resolve_body_def Let_def split: prod.splits option.splits sum.splits if_splits)

context rr_advancer
begin

lemma clean_node_select:
  assumes "\<not> hasInvalidStartOverride reg c" "inv st" "a = None \<or> a = Some adv"
    and "selectIndex intn a reg c n st = (Inl e, st')"
  shows "\<exists>x. e = RRAdvance x"
proof -
  consider "adv st c n = (Inl e, st')" |
    "findRuntimeClient reg c \<noteq> None"
    "case inspectStartOverride (cp_Options (the (findRuntimeClient reg c))) of (s, p, v) \<Rightarrow> p \<and> \<not> v"
    using assms(3,4)
    by (auto simp: selectIndex_def isDynamicRRClient_def split: if_splits option.splits prod.splits)
  then show ?thesis
  proof cases
    case 1
    then show ?thesis using assms(2) adv_error by blast
  next
    case 2
    then show ?thesis using assms(1)
      by (auto simp: hasInvalidStartOverride_def br_findRuntimeClient_eq InspectStartOverride_def)
  qed
qed

lemma clean_node_error:
  assumes "clean_node inp c" "inv st" "uses_adv inp"
    and "Resolve_body intn inp c info st = (Inl (Inl e), st')"
  shows "\<not> override_error e"
proof -
  have st: "\<not> hasInvalidStartOverride (in_Registry inp) c"
    using assms(1) by (auto simp: clean_node_def split: prod.splits)
  have a: "in_Advancer inp = None \<or> in_Advancer inp = Some adv" using assms(3) by (simp add: uses_adv_def)
  have "e \<noteq> ErrInvalidStrategyOverride" using assms(4) clean_node_body[OF assms(1)] by auto
  moreover have "\<exists>x. err = RRAdvance x"
    if "selectIndex intn (in_Advancer inp) (in_Registry inp) c k st = (Inl err, st')" for err k
    using clean_node_select[OF st assms(2) a that] .
  moreover have "e = ErrInvalidStrategyOverride \<or> e = RRNoChildren c \<or> (\<exists>i k. e = RROutOfRange i k c) \<or>
      (\<exists>err k. e = RRSelect c err \<and>
        selectIndex intn (in_Advancer inp) (in_Registry inp) c k st = (Inl err, st'))"
    using Resolve_body_error[OF assms(4)]
    by (elim disjE conjE exE) (auto split: sum.split_asm)
  ultimately show ?thesis by (fastforce simp: override_error_def)
qed

text \<open>If every client that the resolver can reach is clean, it raises no override error.\<close>

lemma clean_loop_error:
  assumes "Resolve_loop intn0 inp seen current info st = (Inl e, st')"
    and "intn0 = intn" "inv st" "uses_adv inp" "chains_fit inp"
    and "\<forall>c. (current, c) \<in> (rr_edges inp)\<^sup>* \<longrightarrow> IsRoundRobinProvider (rr_provider inp c) \<longrightarrow> clean_node inp c"
  shows "\<not> override_error e"
  using assms
proof (induction intn0 inp seen current info st rule: Resolve_loop.induct)
  case (1 intn0 inp seen current info st)
  obtain y st1 where b: "Resolve_body intn0 inp current info st = (y, st1)" by force
  show ?case
  proof (cases "current \<in> set seen")
    case True
    then show ?thesis using "1.prems" by (auto simp: Resolve_loop.simps override_error_def)
  next
    case ns: False
    show ?thesis
    proof (cases y)
      case (Inl r)
      then have e: "Resolve_body intn inp current info st = (Inl (Inl e), st')"
        using "1.prems" ns b by (auto simp: Resolve_loop.simps)
      then have "IsRoundRobinProvider (rr_provider inp current)"
        by (auto simp: Resolve_body_def Let_def split: if_splits)
      then have "clean_node inp current" using "1.prems"(6) by blast
      then show ?thesis using e clean_node_error "1.prems" by blast
    next
      case (Inr p)
      obtain selected info' where p: "p = (selected, info')" by force
      have b': "Resolve_body intn inp current info st = (Inr (selected, info'), st1)"
        using b Inr p "1.prems"(2) by simp
      have "Resolve_loop intn0 inp (current # seen) selected info' st1 = (Inl e, st')"
        using "1.prems" ns b Inr p by (simp add: Resolve_loop.simps[of _ _ seen])
      moreover have "inv st1" using Resolve_body_inv[OF _ _ _ b'] "1.prems" by blast
      moreover have "(current, selected) \<in> rr_edges inp" by (rule Resolve_body_edge[OF b'])
      ultimately show ?thesis
        using "1.IH"[OF ns b[symmetric] Inr p[symmetric]] "1.prems"
        by (meson converse_rtrancl_into_rtrancl)
    qed
  qed
qed

lemma clean_resolve:
  assumes "inv st" "uses_adv inp" "chains_fit inp"
    and "\<forall>c. (in_ClientName inp, c) \<in> (rr_edges inp)\<^sup>* \<longrightarrow> IsRoundRobinProvider (rr_provider inp c) \<longrightarrow>
      clean_node inp c"
    and "Resolve intn inp st = (Inl e, st')"
  shows "\<not> override_error e"
  using assms clean_loop_error[of intn inp "[]" "in_ClientName inp" None st e st']
  by (auto simp: Resolve_def split: if_splits)

end

text \<open>In a validated registry the walk and the resolver agree on the provider of every client that
  the walk accepts, and the walk visits every child of the resolver.\<close>

lemma validated_provider:
  assumes "Validate reg = None" "\<not> hasInvalidProviderOverride reg n"
  shows "resolveClientProvider reg n ip = resolveEffectiveProvider reg ip n"
proof (cases reg)
  case None
  then show ?thesis by (simp add: resolveClientProvider_def resolveEffectiveProvider_def lookupRuntimeClient_def)
next
  case (Some r)
  have d: "distinct (client_names (cr_Clients r))" "[] \<notin> set (client_names (cr_Clients r))"
    using assms(1) Some by (simp_all add: Validate_def Validate_loop_None)
  have ne: "n \<noteq> []" if "first_client (\<lambda>c. cp_Name c = n) (cr_Clients r) = Some c" for c
    using first_client_SomeD[OF that] d(2) by (auto simp: in_client_names)
  show ?thesis
    using Some assms(2) ne first_client_guard[OF d(1), of n "\<lambda>c. IsProviderPresent (Some c)"]
    by (auto simp: resolveClientProvider_def resolveEffectiveProvider_def lookupRuntimeClient_def
        hasInvalidProviderOverride_def split: option.splits if_splits)
qed

lemma checked_clean:
  assumes "Validate (in_Registry inp) = None"
    and "override_check (in_Registry inp) (in_ClientProviders inp) (in_FallbackChains inp) c = Inr ch"
    and "IsRoundRobinProvider (rr_provider inp c)"
  shows "clean_node inp c \<and> ch = chain_of inp c"
proof -
  have p: "\<not> hasInvalidProviderOverride (in_Registry inp) c"
    using assms(2) by (auto simp: override_check_def)
  have rr: "IsRoundRobinProvider (resolveEffectiveProvider (in_Registry inp) (in_ClientProviders inp) c)"
    using assms(3) validated_provider[OF assms(1) p] by simp
  then have g: "inStrategyGraph (in_Registry inp) (in_ClientProviders inp) c"
    by (simp add: inStrategyGraph_def IsRoundRobin_isStrategy)
  show ?thesis
    using assms(2) p g rr
    by (cases "in_Registry inp" c rule: InspectStrategyOverride_cases)
      (auto simp: override_check_def clean_node_def lookupRuntimeClient_eq rr_chain_def IsRoundRobin_isStrategy
        split: if_splits option.splits)
qed

lemma preflight_clean:
  assumes "Validate (in_Registry inp) = None"
    and "FindInvalidReachableStrategyOverride (in_Registry inp) root (in_ClientProviders inp)
      (in_FallbackChains inp) = []"
    and "(root, c) \<in> (rr_edges inp)\<^sup>*" "IsRoundRobinProvider (rr_provider inp c)"
  shows "clean_node inp c"
proof -
  let ?chk = "override_check (in_Registry inp) (in_ClientProviders inp) (in_FallbackChains inp)"
  let ?E = "override.edges (in_Registry inp) (in_ClientProviders inp) (in_FallbackChains inp)"
  have fails: "?chk n = Inl e \<Longrightarrow> e \<noteq> []" for n e
    by (auto simp: override_check_def PathReason_defs Let_def split: if_splits prod.splits)
  have ok: "\<forall>n \<in> ?E\<^sup>* `` {root}. \<exists>ch. ?chk n = Inr ch"
    using assms(2) fails
    by (cases rule: override.walk_root[of "in_Registry inp" "in_ClientProviders inp" "in_FallbackChains inp" root])
      (auto simp: FindInvalidReachableStrategyOverride_def)
  have "(root, c) \<in> ?E\<^sup>*"
    using assms(3)
  proof (induction rule: rtrancl_induct)
    case (step y z)
    then obtain ch where "?chk y = Inr ch" using ok by blast
    moreover from this have "ch = chain_of inp y"
      using checked_clean[OF assms(1)] step(2) by (auto simp: rr_edges_def)
    ultimately have "(y, z) \<in> ?E" using step(2) by (simp add: override.edges_def rr_edges_def)
    then show ?case using step(3) by (rule rtrancl_into_rtrancl[rotated])
  qed simp
  then show ?thesis using ok checked_clean[OF assms(1) _ assms(4)] by blast
qed

section \<open>Properties\<close>

lemma legacy_entries_eq:
  "legacy_entries reachable ip clients =
     map (\<lambda>c. entry_of c ip)
       (filter (\<lambda>c. cp_Name c \<in> set reachable \<and> \<not> ShouldDropStrategyParentForTopLevelLegacy (Some c) ip)
         (List.map_filter id clients))"
  by (induction reachable ip clients rule: legacy_entries.induct)
    (auto simp: ShouldDropStrategyParentForTopLevelLegacy_def List.map_filter_def)

text \<open>A registry with a runtime round-robin client whose strategy is overridden, and one whose inner
  client has an empty override.\<close>

definition demo_rr_client :: "string \<Rightarrow> goval gomap \<Rightarrow> client_property" where
  "demo_rr_client name opts = \<lparr>cp_Name = name, cp_Provider = ''round-robin'', cp_RetryPolicy = None,
     cp_Options = Some opts, cp_ProviderSet = True\<rparr>"

definition demo_registry :: client_registry where
  "demo_registry = \<lparr>cr_Primary = None, cr_Clients =
     [None, Some (demo_rr_client ''Outer'' [(''strategy'', VStrs [''A'', ''Inner'']), (''start'', VInt KInt 1)])]\<rparr>"

definition demo_bad_registry :: client_registry where
  "demo_bad_registry = demo_registry\<lparr>cr_Clients := cr_Clients demo_registry @
     [Some (demo_rr_client ''Inner'' [(''strategy'', VStr ''[]'')])]\<rparr>"

definition demo_providers :: "string gomap" where
  "demo_providers = [(''Inner'', ''baml-roundrobin''), (''A'', ''openai''), (''B'', ''openai'')]"

definition demo_chains :: "string list gomap" where
  "demo_chains = [(''Inner'', [''B'', ''A''])]"

definition demo_graph_input :: "world resolve_input" where
  "demo_graph_input = \<lparr>in_ClientName = ''Outer'', in_Registry = Some demo_registry,
     in_FallbackChains = demo_chains, in_ClientProviders = demo_providers,
     in_Advancer = Some world_advance\<rparr>"

text \<open>C26: (safety) The preflight search is sound for the resolver: if the registry is valid and
  \<^verbatim>\<open>FindInvalidReachableStrategyOverride\<close> reports nothing from a client, then \<^verbatim>\<open>roundrobin.Resolve\<close>
  from that client, with the in-process coordinator as the advancer, never raises (or wraps)
  \<^verbatim>\<open>ErrInvalidStrategyOverride\<close> or \<^verbatim>\<open>ErrInvalidStartOverride\<close>.\<close>

theorem preflight_sound:
  assumes "Validate (in_Registry inp) = None"
    and "FindInvalidReachableStrategyOverride (in_Registry inp) (in_ClientName inp)
      (in_ClientProviders inp) (in_FallbackChains inp) = []"
    and "intn_lawful w" "chains_fit inp"
    and "in_Advancer inp = Some world_advance \<or> in_Advancer inp = None"
    and "Resolve world_intn inp w = (Inl e, w')"
  shows "\<not> errors_Is e ErrInvalidStrategyOverride \<and> \<not> errors_Is e ErrInvalidStartOverride"
proof -
  have "coord.uses_adv inp" using assms(5) by (auto simp: coord.uses_adv_def)
  then have "\<not> override_error e"
    using coord.clean_resolve[OF assms(3) _ assms(4) _ assms(6)] preflight_clean[OF assms(1,2)] by blast
  then show ?thesis by (simp add: override_error_def)
qed

definition demo_cyclic_input :: "world resolve_input" where
  "demo_cyclic_input = demo_graph_input\<lparr>in_FallbackChains := [(''Inner'', [''Outer''])]\<rparr>"

theorem preflight_sound_witness:
  "\<not> errors_Is (RRCycle ''Outer'') ErrInvalidStrategyOverride \<and>
   fst (Resolve world_intn demo_cyclic_input demo_world) = Inl (RRCycle ''Outer'')"
proof -
  have r: "fst (Resolve world_intn demo_cyclic_input demo_world) = Inl (RRCycle ''Outer'')" by code_simp
  then obtain w' where w: "Resolve world_intn demo_cyclic_input demo_world = (Inl (RRCycle ''Outer''), w')"
    by (metis prod.collapse)
  have f: "FindInvalidReachableStrategyOverride (in_Registry demo_cyclic_input) (in_ClientName demo_cyclic_input)
      (in_ClientProviders demo_cyclic_input) (in_FallbackChains demo_cyclic_input) = []" by code_simp
  have v: "Validate (in_Registry demo_cyclic_input) = None" by code_simp
  have c: "chains_fit_check demo_cyclic_input" by code_simp
  show ?thesis
    using r preflight_sound[OF v f _ chains_fit_check[OF c] _ w]
    by (simp add: demo_world_def intn_lawful_def demo_cyclic_input_def demo_graph_input_def)
qed

text \<open>C27: (functional) \<^verbatim>\<open>FindInvalidReachableStrategyOverride\<close> returns the empty reason exactly when no
  client that its own edges reach from the root has an invalid override, and otherwise one of the
  three invalid-override reasons, that of a reachable client. A present but empty provider is reported on any
  client reached, a leaf or the root included, although the comment of the function speaks of strategy parents only.\<close>

theorem FindInvalid_exact:
  fixes reg ip ic root
  defines "E \<equiv> {(a, b). \<exists>ch. override_check reg ip ic a = Inr ch \<and> b \<in> set ch}"
  shows "if (\<forall>n. (root, n) \<in> E\<^sup>* \<longrightarrow> (\<exists>ch. override_check reg ip ic n = Inr ch))
    then FindInvalidReachableStrategyOverride reg root ip ic = []
    else (\<exists>n reason. (root, n) \<in> E\<^sup>* \<and> override_check reg ip ic n = Inl reason \<and>
      isInvalidOverrideReason reason \<and> FindInvalidReachableStrategyOverride reg root ip ic = reason)"
proof -
  have E: "E = override.edges reg ip ic" by (simp add: E_def override.edges_def)
  have "override_check reg ip ic n = Inl e \<Longrightarrow> isInvalidOverrideReason e" for n e
    by (auto simp: override_check_def isInvalidOverrideReason_def Let_def split: if_splits prod.splits)
  then show ?thesis
    by (cases rule: override.walk_root[of reg ip ic root])
      (auto simp: E FindInvalidReachableStrategyOverride_def)
qed

theorem FindInvalid_exact_witness:
  "isInvalidOverrideReason
     (FindInvalidReachableStrategyOverride (Some demo_bad_registry) ''Outer'' demo_providers demo_chains)"
proof -
  have "FindInvalidReachableStrategyOverride (Some demo_bad_registry) ''Outer'' demo_providers demo_chains \<noteq> []"
    by code_simp
  then show ?thesis
    using FindInvalid_exact[of "''Outer''" "Some demo_bad_registry" demo_providers demo_chains]
    by (auto split: if_splits)
qed

text \<open>\<^verbatim>\<open>computeReachableSubgraph\<close> terminates on every graph, cyclic ones included, and
  returns exactly the clients reachable from the root along strategy edges.\<close>

theorem computeReachableSubgraph_reachable:
  "set (computeReachableSubgraph reg root ip ic) =
     {n. (root, n) \<in> {(a, b). b \<in> set (subgraph_children reg ip ic a)}\<^sup>*}"
  by (cases rule: subgraph.walk_root[of reg ip ic root])
    (auto simp: computeReachableSubgraph_def subgraph.edges_def)

text \<open>The entries of a scoped legacy registry are, in registry order, those of the
  reachable clients of the registry except the inert static strategy parents, and none of them
  carries the provider spelling \<^verbatim>\<open>baml-roundrobin\<close> that the BAML runtime rejects.\<close>

theorem BuildLegacyChildRegistryEntries_spec:
  assumes "BuildLegacyChildRegistryEntries (Some r) root ip ic = Some entries"
  shows "entries = map (\<lambda>c. entry_of c ip) (filter
      (\<lambda>c. (root, cp_Name c) \<in> {(a, b). b \<in> set (subgraph_children (Some r) ip ic a)}\<^sup>* \<and>
        \<not> ShouldDropStrategyParentForTopLevelLegacy (Some c) ip)
      (List.map_filter id (cr_Clients r))) \<and>
    (\<forall>e \<in> set entries. le_Provider e \<noteq> ''baml-roundrobin'')"
proof -
  have r: "set (computeReachableSubgraph (Some r) root ip ic) =
     {n. (root, n) \<in> {(a, b). b \<in> set (subgraph_children (Some r) ip ic a)}\<^sup>*}"
    by (cases rule: subgraph.walk_root[of "Some r" ip ic root])
      (auto simp: computeReachableSubgraph_def subgraph.edges_def)
  then have "entries = map (\<lambda>c. entry_of c ip) (filter
      (\<lambda>c. (root, cp_Name c) \<in> {(a, b). b \<in> set (subgraph_children (Some r) ip ic a)}\<^sup>* \<and>
        \<not> ShouldDropStrategyParentForTopLevelLegacy (Some c) ip)
      (List.map_filter id (cr_Clients r)))"
    using assms by (simp add: BuildLegacyChildRegistryEntries_def legacy_entries_eq r)
  then show ?thesis by (auto simp: entry_of_def UpstreamClientRegistryProvider_neq)
qed

theorem BuildLegacyChildRegistryEntries_spec_witness:
  "\<exists>entries. BuildLegacyChildRegistryEntries (Some demo_registry) ''Outer'' demo_providers demo_chains = Some entries \<and>
     length entries = 1 \<and> (\<forall>e \<in> set entries. le_Provider e \<noteq> ''baml-roundrobin'')"
proof -
  have e: "BuildLegacyChildRegistryEntries (Some demo_registry) ''Outer'' demo_providers demo_chains =
      Some [entry_of (demo_rr_client ''Outer'' [(''strategy'', VStrs [''A'', ''Inner'']), (''start'', VInt KInt 1)])
        demo_providers]" by code_simp
  show ?thesis unfolding e using conjunct2[OF BuildLegacyChildRegistryEntries_spec[OF e]] by simp
qed

end
