(* ===== verification/Fallback_Plan.thy ===== *)
theory Fallback_Plan
  imports Strategy_Graph
begin

text \<open>
  \<^verbatim>\<open>buildrequest/fallback_resolve.go\<close>: resolution of a fallback chain into a plan. The maps of a
  resolution that the code leaves nil are empty here, and so is the chain of a resolution that only
  carries a reason. \<open>isProviderSupported\<close> is \<^const>\<open>None\<close> when the function value is nil.
\<close>

section \<open>Definitions\<close>

type_synonym support_fun = "(string \<Rightarrow> bool) option"

record fallback_resolution =
  fr_Chain :: "string list"
  fr_Providers :: "string gomap"
  fr_LegacyChildren :: "bool gomap"
  fr_Targets :: "string gomap"
  fr_NestedRoundRobin :: "round_robin_info gomap"
  fr_Reason :: string

definition reason_only :: "string \<Rightarrow> fallback_resolution" where
  "reason_only reason = \<lparr>fr_Chain = [], fr_Providers = [], fr_LegacyChildren = [], fr_Targets = [],
     fr_NestedRoundRobin = [], fr_Reason = reason\<rparr>"

datatype plan_error = FbDuplicateRR string string nat nat | FbResolve rr_error

definition resolveImmediateRRChild ::
    "'st int_source \<Rightarrow> client_registry option \<Rightarrow> string \<Rightarrow> string list gomap \<Rightarrow> string gomap \<Rightarrow>
     'st advancer option \<Rightarrow> 'st \<Rightarrow> (rr_error + string \<times> string \<times> round_robin_info option) \<times> 'st" where
  "resolveImmediateRRChild intn reg rrChildName fallbackChains clientProviders advancer st =
     (case Resolve intn \<lparr>in_ClientName = rrChildName, in_Registry = reg,
             in_FallbackChains = fallbackChains, in_ClientProviders = clientProviders,
             in_Advancer = advancer\<rparr> st of
        (Inl err, st') \<Rightarrow> (Inl err, st')
      | (Inr res, st') \<Rightarrow>
          (Inr (rs_Selected res, ResolveClientProvider reg (rs_Selected res) clientProviders,
                rs_Info res), st'))"

definition isCentralizationEligible :: "string \<Rightarrow> string \<Rightarrow> support_fun \<Rightarrow> bool" where
  "isCentralizationEligible leaf leafProvider isProviderSupported =
     (if leaf = [] \<or> leafProvider = [] then False
      else if isStrategyProvider leafProvider then False
      else (case isProviderSupported of None \<Rightarrow> False | Some f \<Rightarrow> f leafProvider))"

text \<open>The variables of the loop over the chain.\<close>

record chain_state =
  cs_providers :: "string gomap"
  cs_legacy :: "bool gomap"
  cs_targets :: "string gomap"
  cs_nested :: "round_robin_info gomap"
  cs_positions :: "nat gomap"
  cs_legacyPositions :: nat
  cs_rrLegacy :: bool
  cs_rrCentral :: bool

definition chain_init :: chain_state where
  "chain_init = \<lparr>cs_providers = [], cs_legacy = [], cs_targets = [], cs_nested = [], cs_positions = [],
     cs_legacyPositions = 0, cs_rrLegacy = False, cs_rrCentral = False\<rparr>"

definition unsupported :: "support_fun \<Rightarrow> string \<Rightarrow> bool" where
  "unsupported supf p = (case supf of None \<Rightarrow> False | Some f \<Rightarrow> \<not> f p)"

text \<open>The end of the loop body, where a child is marked legacy.\<close>

definition mark_legacy :: "support_fun \<Rightarrow> string \<Rightarrow> string \<Rightarrow> chain_state \<Rightarrow> chain_state" where
  "mark_legacy supf child p s =
     (if isStrategyProvider p \<or> unsupported supf p
      then s\<lparr>cs_legacy := gomap_put child True (cs_legacy s),
             cs_legacyPositions := Suc (cs_legacyPositions s)\<rparr>
      else s)"

text \<open>One turn of the loop: \<open>Inl\<close> is a return, \<open>Inr\<close> the state for the next child.\<close>

definition plan_step ::
    "'st int_source \<Rightarrow> client_registry option \<Rightarrow> string \<Rightarrow> string list gomap \<Rightarrow> string gomap \<Rightarrow> support_fun \<Rightarrow>
     'st advancer option \<Rightarrow> nat \<Rightarrow> string \<Rightarrow> chain_state \<Rightarrow> 'st \<Rightarrow>
     ((plan_error + fallback_resolution) + chain_state) \<times> 'st" where
  "plan_step intn reg clientName fallbackChains clientProviders supf advancer i child s st =
     (if hasInvalidProviderOverride reg child
      then (Inl (Inr (reason_only PathReasonInvalidProviderOverride)), st)
      else (let p = ResolveClientProvider reg child clientProviders
      in if p = [] then (Inl (Inr (reason_only PathReasonFallbackEmptyChildProvider)), st)
      else (let s = s\<lparr>cs_providers := gomap_put child p (cs_providers s)\<rparr>;
                isStrategyChild = isStrategyProvider p;
                reason = (if isStrategyChild
                          then FindInvalidReachableStrategyOverride reg child clientProviders fallbackChains
                          else [])
      in if reason \<noteq> [] then (Inl (Inr (reason_only reason)), st)
      else if IsRoundRobinProvider p then
        (case map_of (cs_positions s) child of
           Some prev \<Rightarrow> (Inl (Inl (FbDuplicateRR clientName child prev i)), st)
         | None \<Rightarrow>
             (let s = s\<lparr>cs_positions := gomap_put child i (cs_positions s)\<rparr>
              in case supf of
                   None \<Rightarrow> (Inr (mark_legacy supf child p (s\<lparr>cs_rrLegacy := True\<rparr>)), st)
                 | Some _ \<Rightarrow>
                     (case resolveImmediateRRChild intn reg child fallbackChains clientProviders advancer st of
                        (Inl err, st') \<Rightarrow>
                          if errors_Is err ErrInvalidStrategyOverride
                          then (Inl (Inr (reason_only PathReasonInvalidStrategyOverride)), st')
                          else if errors_Is err ErrInvalidStartOverride
                          then (Inl (Inr (reason_only PathReasonInvalidRoundRobinStartOverride)), st')
                          else (Inl (Inl (FbResolve err)), st')
                      | (Inr (leaf, leafProvider, info), st') \<Rightarrow>
                          if isCentralizationEligible leaf leafProvider supf
                          then (Inr (s\<lparr>cs_providers := gomap_put child leafProvider (cs_providers s),
                                      cs_targets := (if leaf \<noteq> child then gomap_put child leaf (cs_targets s)
                                                     else cs_targets s),
                                      cs_nested := (case info of None \<Rightarrow> cs_nested s
                                                    | Some rri \<Rightarrow> gomap_put child rri (cs_nested s)),
                                      cs_rrCentral := True\<rparr>), st')
                          else (Inr (mark_legacy supf child p
                                  (s\<lparr>cs_providers := gomap_put child p (cs_providers s),
                                     cs_rrLegacy := True\<rparr>)), st'))))
      else (Inr (mark_legacy supf child p s), st))))"

fun plan_loop ::
    "'st int_source \<Rightarrow> client_registry option \<Rightarrow> string \<Rightarrow> string list gomap \<Rightarrow> string gomap \<Rightarrow> support_fun \<Rightarrow>
     'st advancer option \<Rightarrow> nat \<Rightarrow> string list \<Rightarrow> chain_state \<Rightarrow> 'st \<Rightarrow>
     ((plan_error + fallback_resolution) + chain_state) \<times> 'st" where
  "plan_loop intn reg clientName fcs cps supf adv i [] s st = (Inr s, st)"
| "plan_loop intn reg clientName fcs cps supf adv i (child # rest) s st =
     (case plan_step intn reg clientName fcs cps supf adv i child s st of
        (Inl r, st') \<Rightarrow> (Inl r, st')
      | (Inr s', st') \<Rightarrow> plan_loop intn reg clientName fcs cps supf adv (Suc i) rest s' st')"

definition ResolveFallbackChainPlanForClient ::
    "'st int_source \<Rightarrow> client_registry option \<Rightarrow> string \<Rightarrow> string list gomap \<Rightarrow> string gomap \<Rightarrow> support_fun \<Rightarrow>
     'st advancer option \<Rightarrow> 'st \<Rightarrow> (plan_error + fallback_resolution option) \<times> 'st" where
  "ResolveFallbackChainPlanForClient intn reg clientName fallbackChains clientProviders supf advancer st =
     (if ResolveClientProvider reg clientName clientProviders \<noteq> ''baml-fallback'' then (Inr None, st)
      else if (case InspectStrategyOverride reg clientName of (_, present, valid) \<Rightarrow> present \<and> \<not> valid)
      then (Inr (Some (reason_only PathReasonInvalidStrategyOverride)), st)
      else if hasExplicitStrategyProviderWithoutStrategy reg clientName
      then (Inr (Some (reason_only PathReasonInvalidStrategyOverride)), st)
      else (let resolvedChain = resolveFallbackStrategyChain reg clientName fallbackChains
      in if length resolvedChain = 0 then (Inr (Some (reason_only PathReasonFallbackEmptyChain)), st)
      else (case plan_loop intn reg clientName fallbackChains clientProviders supf advancer 0 resolvedChain
                   chain_init st of
              (Inl (Inl err), st') \<Rightarrow> (Inl err, st')
            | (Inl (Inr res), st') \<Rightarrow> (Inr (Some res), st')
            | (Inr s, st') \<Rightarrow>
                if cs_legacyPositions s = length resolvedChain
                then (Inr (Some (reason_only PathReasonFallbackAllLegacy)), st')
                else (Inr (Some \<lparr>fr_Chain = resolvedChain, fr_Providers = cs_providers s,
                       fr_LegacyChildren = cs_legacy s, fr_Targets = cs_targets s,
                       fr_NestedRoundRobin = cs_nested s,
                       fr_Reason = (if cs_rrCentral s then PathReasonFallbackRoundRobinChildBuildRequest
                                    else if cs_rrLegacy s then PathReasonFallbackRoundRobinChildLegacy
                                    else [])\<rparr>), st'))))"

definition ResolveFallbackChainPlan ::
    "'st int_source \<Rightarrow> 'st adapter \<Rightarrow> string \<Rightarrow> string list gomap \<Rightarrow> string gomap \<Rightarrow> support_fun \<Rightarrow> 'st \<Rightarrow>
     (plan_error + fallback_resolution option) \<times> 'st" where
  "ResolveFallbackChainPlan intn a defaultClientName fallbackChains clientProviders supf st =
     (let reg = ad_OriginalClientRegistry a;
          clientName = (case primary_name reg of None \<Rightarrow> defaultClientName | Some p \<Rightarrow> p)
      in ResolveFallbackChainPlanForClient intn reg clientName fallbackChains clientProviders supf
           (ad_RoundRobinAdvancer a) st)"

subsection \<open>The four-value classification\<close>

type_synonym chain_class = "string list \<times> string gomap \<times> bool gomap \<times> string"

text \<open>The loop of the classification: the reason it returns, or its maps, the number of legacy
  positions and whether a round-robin child occurred.\<close>

fun classify_loop ::
    "client_registry option \<Rightarrow> string list gomap \<Rightarrow> string gomap \<Rightarrow> support_fun \<Rightarrow> string list \<Rightarrow>
     string gomap \<Rightarrow> bool gomap \<Rightarrow> nat \<Rightarrow> bool \<Rightarrow> string + (string gomap \<times> bool gomap \<times> nat \<times> bool)" where
  "classify_loop reg fcs cps supf [] prov leg pos rr = Inr (prov, leg, pos, rr)"
| "classify_loop reg fcs cps supf (child # rest) prov leg pos rr =
     (if hasInvalidProviderOverride reg child then Inl PathReasonInvalidProviderOverride
      else (let p = ResolveClientProvider reg child cps
      in if p = [] then Inl PathReasonFallbackEmptyChildProvider
      else (let prov = gomap_put child p prov;
                isStrategyChild = isStrategyProvider p;
                r = (if isStrategyChild then FindInvalidReachableStrategyOverride reg child cps fcs else [])
      in if r \<noteq> [] then Inl r
      else if isStrategyChild \<or> unsupported supf p
      then classify_loop reg fcs cps supf rest prov (gomap_put child True leg) (Suc pos)
             (rr \<or> IsRoundRobinProvider p)
      else classify_loop reg fcs cps supf rest prov leg pos (rr \<or> IsRoundRobinProvider p))))"

definition resolveFallbackChainLegacyClassification ::
    "client_registry option \<Rightarrow> string \<Rightarrow> string list gomap \<Rightarrow> string gomap \<Rightarrow> support_fun \<Rightarrow> chain_class" where
  "resolveFallbackChainLegacyClassification reg clientName fallbackChains clientProviders supf =
     (if ResolveClientProvider reg clientName clientProviders \<noteq> ''baml-fallback'' then ([], [], [], [])
      else if (case InspectStrategyOverride reg clientName of (_, present, valid) \<Rightarrow> present \<and> \<not> valid)
      then ([], [], [], PathReasonInvalidStrategyOverride)
      else if hasExplicitStrategyProviderWithoutStrategy reg clientName
      then ([], [], [], PathReasonInvalidStrategyOverride)
      else (let resolvedChain = resolveFallbackStrategyChain reg clientName fallbackChains
      in if length resolvedChain = 0 then ([], [], [], PathReasonFallbackEmptyChain)
      else (case classify_loop reg fallbackChains clientProviders supf resolvedChain [] [] 0 False of
              Inl r \<Rightarrow> ([], [], [], r)
            | Inr (prov, leg, pos, rr) \<Rightarrow>
                if pos = length resolvedChain then ([], [], [], PathReasonFallbackAllLegacy)
                else if rr then (resolvedChain, prov, leg, PathReasonFallbackRoundRobinChildLegacy)
                else (resolvedChain, prov, leg, []))))"

definition resolveFallbackChainForClientWithAdvancer ::
    "'st int_source \<Rightarrow> client_registry option \<Rightarrow> string \<Rightarrow> string list gomap \<Rightarrow> string gomap \<Rightarrow> support_fun \<Rightarrow>
     'st advancer option \<Rightarrow> 'st \<Rightarrow> chain_class \<times> 'st" where
  "resolveFallbackChainForClientWithAdvancer intn reg clientName fallbackChains clientProviders supf advancer st =
     (case ResolveFallbackChainPlanForClient intn reg clientName fallbackChains clientProviders supf advancer st of
        (Inl err, st') \<Rightarrow>
          (resolveFallbackChainLegacyClassification reg clientName fallbackChains clientProviders supf, st')
      | (Inr None, st') \<Rightarrow> (([], [], [], []), st')
      | (Inr (Some res), st') \<Rightarrow>
          if 0 < length (fr_Targets res) \<or> 0 < length (fr_NestedRoundRobin res)
          then (resolveFallbackChainLegacyClassification reg clientName fallbackChains clientProviders supf, st')
          else ((fr_Chain res, fr_Providers res, fr_LegacyChildren res, fr_Reason res), st'))"

definition ResolveFallbackChainWithReason ::
    "'st int_source \<Rightarrow> 'st adapter \<Rightarrow> string \<Rightarrow> string list gomap \<Rightarrow> string gomap \<Rightarrow> support_fun \<Rightarrow> 'st \<Rightarrow>
     chain_class \<times> 'st" where
  "ResolveFallbackChainWithReason intn a defaultClientName fallbackChains clientProviders supf st =
     (let reg = ad_OriginalClientRegistry a;
          clientName = (case primary_name reg of None \<Rightarrow> defaultClientName | Some p \<Rightarrow> p)
      in resolveFallbackChainForClientWithAdvancer intn reg clientName fallbackChains clientProviders supf
           (ad_RoundRobinAdvancer a) st)"

definition ResolveFallbackChainForClientWithReason ::
    "'st int_source \<Rightarrow> client_registry option \<Rightarrow> string \<Rightarrow> string list gomap \<Rightarrow> string gomap \<Rightarrow> support_fun \<Rightarrow>
     'st \<Rightarrow> chain_class \<times> 'st" where
  "ResolveFallbackChainForClientWithReason intn reg clientName fallbackChains clientProviders supf st =
     resolveFallbackChainForClientWithAdvancer intn reg clientName fallbackChains clientProviders supf None st"

definition drop_reason :: "chain_class \<times> 'st \<Rightarrow> (string list \<times> string gomap \<times> bool gomap) \<times> 'st" where
  "drop_reason r = (case r of ((chain, prov, leg, _), st) \<Rightarrow> ((chain, prov, leg), st))"

definition ResolveFallbackChain ::
    "'st int_source \<Rightarrow> 'st adapter \<Rightarrow> string \<Rightarrow> string list gomap \<Rightarrow> string gomap \<Rightarrow> support_fun \<Rightarrow> 'st \<Rightarrow>
     (string list \<times> string gomap \<times> bool gomap) \<times> 'st" where
  "ResolveFallbackChain intn a defaultClientName fallbackChains clientProviders supf st =
     drop_reason (ResolveFallbackChainWithReason intn a defaultClientName fallbackChains clientProviders supf st)"

definition ResolveFallbackChainForClient ::
    "'st int_source \<Rightarrow> client_registry option \<Rightarrow> string \<Rightarrow> string list gomap \<Rightarrow> string gomap \<Rightarrow> support_fun \<Rightarrow>
     'st \<Rightarrow> (string list \<times> string gomap \<times> bool gomap) \<times> 'st" where
  "ResolveFallbackChainForClient intn reg clientName fallbackChains clientProviders supf st =
     drop_reason (ResolveFallbackChainForClientWithReason intn reg clientName fallbackChains clientProviders supf st)"

section \<open>One child\<close>

text \<open>The reason with which both loops reject a child.\<close>

definition child_reason ::
    "client_registry option \<Rightarrow> string list gomap \<Rightarrow> string gomap \<Rightarrow> string \<Rightarrow> string" where
  "child_reason reg fcs cps child =
     (if hasInvalidProviderOverride reg child then PathReasonInvalidProviderOverride
      else if ResolveClientProvider reg child cps = [] then PathReasonFallbackEmptyChildProvider
      else if isStrategyProvider (ResolveClientProvider reg child cps)
      then FindInvalidReachableStrategyOverride reg child cps fcs else [])"

lemma classify_loop_Cons:
  "classify_loop reg fcs cps supf (child # rest) prov leg pos rr =
     (let p = ResolveClientProvider reg child cps
      in if child_reason reg fcs cps child \<noteq> [] then Inl (child_reason reg fcs cps child)
         else if isStrategyProvider p \<or> unsupported supf p
         then classify_loop reg fcs cps supf rest (gomap_put child p prov) (gomap_put child True leg) (Suc pos)
                (rr \<or> IsRoundRobinProvider p)
         else classify_loop reg fcs cps supf rest (gomap_put child p prov) leg pos (rr \<or> IsRoundRobinProvider p))"
  by (simp add: child_reason_def Let_def PathReason_defs)

lemma plan_step_reason:
  "child_reason reg fcs cps child \<noteq> [] \<Longrightarrow>
     plan_step intn reg cn fcs cps supf adv i child s st =
       (Inl (Inr (reason_only (child_reason reg fcs cps child))), st)"
  by (simp add: child_reason_def plan_step_def Let_def split: if_splits)

text \<open>The leaf of an immediate round-robin child differs from the child, and there is info on the
  choice.\<close>

lemma resolveImmediateRRChild_leaf:
  assumes "resolveImmediateRRChild intn reg child fcs cps adv st = (Inr (leaf, lp, info), st')"
    and "IsRoundRobinProvider (ResolveClientProvider reg child cps)" "leaf \<noteq> []"
  shows "leaf \<noteq> child \<and> lp = ResolveClientProvider reg leaf cps \<and> (\<exists>i. info = Some i)"
proof -
  let ?inp = "\<lparr>in_ClientName = child, in_Registry = reg, in_FallbackChains = fcs,
    in_ClientProviders = cps, in_Advancer = adv\<rparr>"
  obtain res where r: "Resolve intn ?inp st = (Inr res, st')" "leaf = rs_Selected res" "info = rs_Info res"
      "lp = ResolveClientProvider reg leaf cps"
    using assms(1) by (auto simp: resolveImmediateRRChild_def split: prod.splits sum.splits)
  have "child \<noteq> []" using r assms(3) by (auto simp: Resolve_def)
  then have "Resolve_loop intn ?inp [] child None st = (Inr res, st')" using r by (simp add: Resolve_def)
  from Resolve_loop_Inr[OF this] show ?thesis
    using assms(2) r by (auto simp: ResolveClientProvider_normalizes IsRoundRobinProvider_normalize)
qed

text \<open>The two ways in which the loop goes on after a child.\<close>

abbreviation marked_state where
  "marked_state supf i child p s \<equiv> mark_legacy supf child p
     (s\<lparr>cs_providers := gomap_put child p (cs_providers s),
        cs_positions := (if IsRoundRobinProvider p then gomap_put child i (cs_positions s) else cs_positions s),
        cs_rrLegacy := (IsRoundRobinProvider p \<or> cs_rrLegacy s)\<rparr>)"

abbreviation central_state where
  "central_state i child lp leaf info s \<equiv>
     s\<lparr>cs_providers := gomap_put child lp (cs_providers s), cs_positions := gomap_put child i (cs_positions s),
       cs_targets := gomap_put child leaf (cs_targets s), cs_nested := gomap_put child info (cs_nested s),
       cs_rrCentral := True\<rparr>"

lemma update_order: "s\<lparr>cs_positions := a, cs_providers := b\<rparr> = s\<lparr>cs_providers := b, cs_positions := a\<rparr>"
  by (cases s) simp

lemma plan_step_cont:
  assumes "plan_step intn reg cn fcs cps supf adv i child s st = (Inr s', st')"
  defines "p \<equiv> ResolveClientProvider reg child cps"
  obtains (central) leaf info where
      "IsRoundRobinProvider p" "map_of (cs_positions s) child = None" "leaf \<noteq> child"
      "isCentralizationEligible leaf (ResolveClientProvider reg leaf cps) supf"
      "s' = central_state i child (ResolveClientProvider reg leaf cps) leaf info s"
  | (marked) "p \<noteq> []" "IsRoundRobinProvider p \<Longrightarrow> map_of (cs_positions s) child = None"
      "s' = marked_state supf i child p s"
proof -
  have p: "p \<noteq> []" using assms by (auto simp: plan_step_def split: if_splits)
  show thesis
  proof (cases "IsRoundRobinProvider p")
    case False
    then show thesis using assms p
      by (intro marked) (auto simp: plan_step_def Let_def split: if_splits)
  next
    case rr: True
    then have pos: "map_of (cs_positions s) child = None"
      using assms p by (auto simp: plan_step_def Let_def split: if_splits option.splits)
    show thesis
    proof (cases supf)
      case None
      then show thesis using assms p rr pos
        by (intro marked) (auto simp: plan_step_def Let_def split: if_splits)
    next
      case (Some f)
      obtain r st1 where im: "resolveImmediateRRChild intn reg child fcs cps adv st = (r, st1)" by force
      then obtain leaf lp info where r: "r = Inr (leaf, lp, info)"
        using assms p rr pos Some
        by (cases r) (auto simp: plan_step_def Let_def split: if_splits)
      show thesis
      proof (cases "isCentralizationEligible leaf lp supf")
        case True
        then have "leaf \<noteq> []" by (auto simp: isCentralizationEligible_def)
        then obtain rri where l: "leaf \<noteq> child" "lp = ResolveClientProvider reg leaf cps" "info = Some rri"
          using resolveImmediateRRChild_leaf im r rr p_def by metis
        show thesis using assms p rr pos Some im r True l
          by (intro central[of leaf rri]) (auto simp: plan_step_def Let_def update_order split: if_splits)
      next
        case False
        then show thesis using assms p rr pos Some im r
          by (intro marked) (auto simp: plan_step_def Let_def update_order split: if_splits)
      qed
    qed
  qed
qed

section \<open>The invariant of the loop\<close>

text \<open>What the maps say of a child that has been processed: it is centralised on a supported leaf
  that is no strategy client and whose provider is recorded for it, or its own provider is recorded
  and it is legacy exactly when that provider is a strategy or unsupported.\<close>

definition child_ok ::
    "client_registry option \<Rightarrow> string gomap \<Rightarrow> support_fun \<Rightarrow> string gomap \<Rightarrow> bool gomap \<Rightarrow> string gomap \<Rightarrow> string \<Rightarrow> bool"
  where
  "child_ok reg cps supf prov leg targets c =
     (case map_of targets c of
        Some leaf \<Rightarrow> IsRoundRobinProvider (ResolveClientProvider reg c cps) \<and> leaf \<noteq> c \<and>
          map_of prov c = Some (ResolveClientProvider reg leaf cps) \<and>
          isCentralizationEligible leaf (ResolveClientProvider reg leaf cps) supf \<and> \<not> gomap_flag leg c
      | None \<Rightarrow> ResolveClientProvider reg c cps \<noteq> [] \<and>
          map_of prov c = Some (ResolveClientProvider reg c cps) \<and>
          gomap_flag leg c = (isStrategyProvider (ResolveClientProvider reg c cps) \<or>
            unsupported supf (ResolveClientProvider reg c cps)))"

definition plan_inv ::
    "client_registry option \<Rightarrow> string gomap \<Rightarrow> support_fun \<Rightarrow> string list \<Rightarrow> chain_state \<Rightarrow> bool" where
  "plan_inv reg cps supf dn s \<longleftrightarrow>
     (\<forall>c \<in> set dn. child_ok reg cps supf (cs_providers s) (cs_legacy s) (cs_targets s) c) \<and>
     gomap_keys (cs_targets s) \<subseteq> set dn \<and> gomap_keys (cs_legacy s) \<subseteq> set dn \<and>
     (\<forall>c \<in> set dn. IsRoundRobinProvider (ResolveClientProvider reg c cps) \<longrightarrow> map_of (cs_positions s) c \<noteq> None) \<and>
     (cs_rrCentral s \<longleftrightarrow> cs_targets s \<noteq> []) \<and> (cs_targets s = [] \<longrightarrow> cs_nested s = []) \<and>
     cs_legacyPositions s = length (filter (gomap_flag (cs_legacy s)) dn)"

lemma plan_inv_init: "plan_inv reg cps supf [] chain_init"
  by (simp add: plan_inv_def chain_init_def)

lemma filter_flag_cong:
  "\<forall>d \<in> set dn. P d = Q d \<Longrightarrow> length (filter P dn) = length (filter Q dn)"
  by (metis filter_cong)

lemma not_target: "gomap_keys t \<subseteq> S \<Longrightarrow> c \<notin> S \<Longrightarrow> map_of t c = None"
  by (auto simp: map_of_eq_None_iff)

lemma not_flag: "gomap_keys l \<subseteq> S \<Longrightarrow> c \<notin> S \<Longrightarrow> \<not> gomap_flag l c"
  using gomap_flag_keys by blast

lemma plan_inv_central:
  assumes "plan_inv reg cps supf dn s" "IsRoundRobinProvider (ResolveClientProvider reg child cps)"
    "map_of (cs_positions s) child = None" "leaf \<noteq> child"
    "isCentralizationEligible leaf (ResolveClientProvider reg leaf cps) supf"
  shows "plan_inv reg cps supf (dn @ [child])
    (central_state i child (ResolveClientProvider reg leaf cps) leaf info s)"
proof -
  have new: "child \<notin> set dn" using assms(1,2,3) by (auto simp: plan_inv_def)
  have "\<not> gomap_flag (cs_legacy s) child"
    using assms(1) new not_flag[of "cs_legacy s" "set dn"] by (simp add: plan_inv_def)
  then show ?thesis using assms new
    by (auto simp: plan_inv_def child_ok_def split: option.split)
qed

lemma plan_inv_marked:
  assumes inv: "plan_inv reg cps supf dn s" and p: "p = ResolveClientProvider reg child cps" "p \<noteq> []"
    and pos: "IsRoundRobinProvider p \<Longrightarrow> map_of (cs_positions s) child = None"
  shows "plan_inv reg cps supf (dn @ [child]) (marked_state supf i child p s)"
proof -
  have nt: "map_of (cs_targets s) child = None"
  proof (cases "child \<in> set dn")
    case True
    then have "\<not> IsRoundRobinProvider p" using inv p pos by (auto simp: plan_inv_def)
    then show ?thesis using inv True p by (auto simp: plan_inv_def child_ok_def split: option.splits)
  next
    case False
    then show ?thesis using inv not_target[of "cs_targets s" "set dn"] by (simp add: plan_inv_def)
  qed
  have fl: "child \<in> set dn \<Longrightarrow> gomap_flag (cs_legacy s) child = (isStrategyProvider p \<or> unsupported supf p)"
    using inv p nt by (auto simp: plan_inv_def child_ok_def split: option.splits)
  have nf: "child \<notin> set dn \<Longrightarrow> \<not> gomap_flag (cs_legacy s) child"
    using inv not_flag[of "cs_legacy s" "set dn"] by (simp add: plan_inv_def)
  show ?thesis
  proof (cases "isStrategyProvider p \<or> unsupported supf p")
    case True
    have "length (filter (gomap_flag (gomap_put child True (cs_legacy s))) dn) =
        length (filter (gomap_flag (cs_legacy s)) dn)"
      using fl True by (intro filter_flag_cong) auto
    then show ?thesis using inv p nt True
      by (auto simp: plan_inv_def child_ok_def mark_legacy_def split: option.split)
  next
    case False
    then have "\<not> gomap_flag (cs_legacy s) child" using fl nf by blast
    then show ?thesis using inv p nt False
      by (auto simp: plan_inv_def child_ok_def mark_legacy_def split: option.split)
  qed
qed

lemma plan_step_inv:
  assumes "plan_inv reg cps supf dn s"
    and "plan_step intn reg cn fcs cps supf adv i child s st = (Inr s', st')"
  shows "plan_inv reg cps supf (dn @ [child]) s'"
  using assms(2)
proof (cases rule: plan_step_cont)
  case (central leaf info)
  then show ?thesis using plan_inv_central[OF assms(1)] by blast
next
  case marked
  then show ?thesis using plan_inv_marked[OF assms(1) refl] by blast
qed

lemma plan_loop_inv:
  assumes "plan_inv reg cps supf dn s"
    and "plan_loop intn reg cn fcs cps supf adv i chain s st = (Inr s', st')"
  shows "plan_inv reg cps supf (dn @ chain) s'"
  using assms
proof (induction chain arbitrary: i dn s st)
  case (Cons child rest)
  obtain s1 st1 where st: "plan_step intn reg cn fcs cps supf adv i child s st = (Inr s1, st1)"
      "plan_loop intn reg cn fcs cps supf adv (Suc i) rest s1 st1 = (Inr s', st')"
    using Cons.prems(2) by (auto split: prod.splits sum.splits)
  show ?case using Cons.IH[OF plan_step_inv[OF Cons.prems(1) st(1)] st(2)] by simp
qed simp

text \<open>A return from inside the loop carries no chain.\<close>

lemma plan_step_return:
  "plan_step intn reg cn fcs cps supf adv i child s st = (Inl (Inr res), st') \<Longrightarrow> \<exists>r. res = reason_only r"
  by (auto simp: plan_step_def Let_def split: if_splits option.splits prod.splits sum.splits)

lemma plan_loop_return:
  "plan_loop intn reg cn fcs cps supf adv i chain s st = (Inl (Inr res), st') \<Longrightarrow> \<exists>r. res = reason_only r"
proof (induction chain arbitrary: i s st)
  case (Cons child rest)
  then show ?case
    by (auto split: prod.splits sum.splits dest: plan_step_return)
qed simp

text \<open>A centralised child is not legacy, so not every position is.\<close>

lemma plan_inv_central_count:
  assumes "plan_inv reg cps supf dn s" "cs_targets s \<noteq> []"
  shows "cs_legacyPositions s < length dn"
proof -
  obtain c leaf t where t: "cs_targets s = (c, leaf) # t" using assms(2) by (cases "cs_targets s") auto
  then have c: "c \<in> set dn" "map_of (cs_targets s) c = Some leaf" using assms(1) by (auto simp: plan_inv_def)
  then have "\<not> gomap_flag (cs_legacy s) c"
    using assms(1) by (auto simp: plan_inv_def child_ok_def split: option.splits)
  then show ?thesis using assms(1) c(1) length_filter_less[of c dn "gomap_flag (cs_legacy s)"]
    by (simp add: plan_inv_def)
qed

section \<open>Plans that pass\<close>

definition plan_ok ::
    "client_registry option \<Rightarrow> string gomap \<Rightarrow> support_fun \<Rightarrow> fallback_resolution \<Rightarrow> bool" where
  "plan_ok reg cps supf res \<longleftrightarrow>
     (\<forall>c \<in> set (fr_Chain res).
        child_ok reg cps supf (fr_Providers res) (fr_LegacyChildren res) (fr_Targets res) c) \<and>
     gomap_keys (fr_Targets res) \<subseteq> set (fr_Chain res) \<and>
     (\<exists>c \<in> set (fr_Chain res). \<not> gomap_flag (fr_LegacyChildren res) c)"

lemma plan_result_ok:
  assumes "ResolveFallbackChainPlanForClient intn reg cn fcs cps supf adv st = (Inr (Some res), st')"
    and "fr_Chain res \<noteq> []"
  shows "plan_ok reg cps supf res \<and> fr_Chain res = resolveFallbackStrategyChain reg cn fcs"
proof -
  obtain s where s: "plan_loop intn reg cn fcs cps supf adv 0 (resolveFallbackStrategyChain reg cn fcs) chain_init st = (Inr s, st')"
      "cs_legacyPositions s \<noteq> length (resolveFallbackStrategyChain reg cn fcs)"
      "fr_Chain res = resolveFallbackStrategyChain reg cn fcs" "fr_Providers res = cs_providers s"
      "fr_LegacyChildren res = cs_legacy s" "fr_Targets res = cs_targets s"
    using assms
    by (auto simp: ResolveFallbackChainPlanForClient_def reason_only_def Let_def
        split: if_splits prod.splits sum.splits dest!: plan_loop_return)
  have inv: "plan_inv reg cps supf (fr_Chain res) s"
    using plan_loop_inv[OF plan_inv_init s(1)] s(3) by simp
  have "\<exists>c \<in> set (fr_Chain res). \<not> gomap_flag (cs_legacy s) c"
  proof (rule ccontr)
    assume "\<not> ?thesis"
    then have "filter (gomap_flag (cs_legacy s)) (fr_Chain res) = fr_Chain res" by (simp add: filter_id_conv)
    then show False using inv s(2,3) by (simp add: plan_inv_def)
  qed
  then show ?thesis using inv s by (simp add: plan_ok_def plan_inv_def)
qed

section \<open>The plan and the four-value classification agree\<close>

abbreviation child_input where
  "child_input reg child fcs cps a \<equiv> \<lparr>in_ClientName = child, in_Registry = reg, in_FallbackChains = fcs,
     in_ClientProviders = cps, in_Advancer = a\<rparr>"

text \<open>The state of the classification that corresponds to a state of the plan, as long as no child is
  centralised.\<close>

definition class_view :: "chain_state \<Rightarrow> string gomap \<times> bool gomap \<times> nat \<times> bool" where
  "class_view s = (cs_providers s, cs_legacy s, cs_legacyPositions s, cs_rrLegacy s)"

lemma plan_step_central_mono:
  assumes "plan_step intn reg cn fcs cps supf adv i child s st = (Inr s', st')" "cs_rrCentral s"
  shows "cs_rrCentral s'"
  using assms(1) by (cases rule: plan_step_cont) (use assms(2) in \<open>auto simp: mark_legacy_def\<close>)

lemma plan_loop_central_mono:
  "plan_loop intn reg cn fcs cps supf adv i chain s st = (Inr s', st') \<Longrightarrow> cs_rrCentral s \<Longrightarrow> cs_rrCentral s'"
  by (induction chain arbitrary: i s st)
    (auto split: prod.splits sum.splits dest: plan_step_central_mono)

lemma plan_step_no_reason:
  "plan_step intn reg cn fcs cps supf adv i child s st = (Inr s', st') \<Longrightarrow> child_reason reg fcs cps child = []"
  using plan_step_reason[of reg fcs cps child intn cn supf adv i s st] by (cases "child_reason reg fcs cps child") auto

text \<open>One child that is not centralised, in both loops.\<close>

lemma classify_step:
  assumes "plan_step intn reg cn fcs cps supf adv i child s st = (Inr s', st')" "\<not> cs_rrCentral s'"
    and "class_view s = (prov, leg, pos, rr)" "class_view s' = (prov', leg', pos', rr')"
  shows "classify_loop reg fcs cps supf (child # rest) prov leg pos rr =
    classify_loop reg fcs cps supf rest prov' leg' pos' rr'"
  using assms(1)
proof (cases rule: plan_step_cont)
  case (central leaf info)
  then show ?thesis using assms(2) by simp
next
  case marked
  then show ?thesis using plan_step_no_reason[OF assms(1)] assms(3,4)
    by (auto simp: classify_loop_Cons class_view_def mark_legacy_def Let_def simp del: classify_loop.simps(2))
qed

lemma classify_loop_rest:
  assumes "child_reason reg fcs cps child = []"
  shows "\<exists>prov' leg' pos' rr'. classify_loop reg fcs cps supf (child # rest) prov leg pos rr =
    classify_loop reg fcs cps supf rest prov' leg' pos' rr'"
  using assms by (simp add: classify_loop_Cons Let_def del: classify_loop.simps(2)) blast

lemma plan_loop_class:
  assumes "plan_loop intn reg cn fcs cps supf adv i chain s st = (Inr s', st')" "\<not> cs_rrCentral s'"
    and "class_view s = (prov, leg, pos, rr)"
  shows "classify_loop reg fcs cps supf chain prov leg pos rr = Inr (class_view s')"
  using assms
proof (induction chain arbitrary: i s st prov leg pos rr)
  case (Cons child rest)
  obtain s1 st1 where st: "plan_step intn reg cn fcs cps supf adv i child s st = (Inr s1, st1)"
      "plan_loop intn reg cn fcs cps supf adv (Suc i) rest s1 st1 = (Inr s', st')"
    using Cons.prems(1) by (auto split: prod.splits sum.splits)
  obtain prov' leg' pos' rr' where v: "class_view s1 = (prov', leg', pos', rr')" by (metis prod_cases4)
  have nc: "\<not> cs_rrCentral s1" using plan_loop_central_mono[OF st(2)] Cons.prems(2) by blast
  show ?case
    using classify_step[OF st(1) nc Cons.prems(3) v] Cons.IH[OF st(2) Cons.prems(2) v] by simp
qed simp

context rr_advancer
begin

lemma selectIndex_inv:
  assumes "inv st" "a = None \<or> a = Some adv"
  shows "inv (snd (selectIndex intn a reg name n st))"
proof -
  have "inv (snd (AdvanceDynamic intn st n))"
    using assms(1) intn_inv[of st n] by (simp add: AdvanceDynamic_def)
  then show ?thesis using assms adv_inv
    by (auto simp: selectIndex_def split: option.splits prod.splits)
qed

lemma Resolve_body_inv_any:
  assumes "inv st" "uses_adv inp" "Resolve_body intn inp current info st = (y, st')"
  shows "inv st'"
proof -
  have a: "in_Advancer inp = None \<or> in_Advancer inp = Some adv" using assms(2) by (simp add: uses_adv_def)
  have "st' = st \<or> (\<exists>n. st' = snd (selectIndex intn (in_Advancer inp) (in_Registry inp) current n st))"
    using assms(3)
    by (auto simp: Resolve_body_def Let_def split: if_splits prod.splits sum.splits) (metis snd_conv)+
  then show ?thesis using assms(1) selectIndex_inv[OF assms(1) a] by auto
qed

lemma Resolve_loop_inv_any:
  assumes "Resolve_loop intn0 inp seen current info st = (y, st')" "intn0 = intn" "inv st" "uses_adv inp"
  shows "inv st'"
  using assms
proof (induction intn0 inp seen current info st rule: Resolve_loop.induct)
  case (1 intn0 inp seen current info st)
  obtain z st1 where b: "Resolve_body intn0 inp current info st = (z, st1)" by force
  then have i: "inv st1" using Resolve_body_inv_any "1.prems" by blast
  show ?case
  proof (cases "current \<in> set seen")
    case True
    then show ?thesis using "1.prems" by (auto simp: Resolve_loop.simps)
  next
    case ns: False
    show ?thesis
    proof (cases z)
      case (Inl r)
      then show ?thesis using "1.prems" ns b i by (auto simp: Resolve_loop.simps)
    next
      case (Inr p)
      obtain selected info' where p: "p = (selected, info')" by force
      have "Resolve_loop intn0 inp (current # seen) selected info' st1 = (y, st')"
        using "1.prems" ns b Inr p by (simp add: Resolve_loop.simps[of _ _ seen])
      then show ?thesis using "1.IH"[OF ns b[symmetric] Inr p[symmetric]] "1.prems" i by blast
    qed
  qed
qed

lemma resolveImmediate_inv:
  assumes "resolveImmediateRRChild intn reg child fcs cps a st = (y, st')" "inv st" "a = None \<or> a = Some adv"
  shows "inv st'"
proof -
  have "uses_adv (child_input reg child fcs cps a)" using assms(3) by (simp add: uses_adv_def)
  then show ?thesis
    using assms(1,2) Resolve_loop_inv_any[of intn "child_input reg child fcs cps a" "[]" child None st]
    by (auto simp: resolveImmediateRRChild_def Resolve_def split: if_splits prod.splits sum.splits)
qed

lemma plan_step_state:
  assumes "plan_step intn reg cn fcs cps supf a i child s st = (y, st')" "inv st" "a = None \<or> a = Some adv"
  shows "inv st'"
proof -
  have "st' = st \<or> (\<exists>r. resolveImmediateRRChild intn reg child fcs cps a st = (r, st'))"
    using assms(1) by (auto simp: plan_step_def Let_def split: if_splits option.splits prod.splits sum.splits)
  then show ?thesis using assms(2,3) resolveImmediate_inv by blast
qed

text \<open>In a valid registry, the loop of the plan returns a resolution only for the reason of a child.\<close>

lemma plan_step_return_reason:
  assumes "Validate reg = None" "chains_fit (child_input reg child fcs cps a)"
    and "plan_step intn reg cn fcs cps supf a i child s st = (Inl (Inr res), st')" "inv st"
    and "a = None \<or> a = Some adv"
  shows "child_reason reg fcs cps child \<noteq> [] \<and> res = reason_only (child_reason reg fcs cps child)"
proof (cases "child_reason reg fcs cps child = []")
  case True
  then obtain err st1 where e: "IsRoundRobinProvider (ResolveClientProvider reg child cps)"
      "resolveImmediateRRChild intn reg child fcs cps a st = (Inl err, st1)" "override_error err"
    using assms(3)
    by (auto simp: plan_step_def child_reason_def Let_def PathReason_defs override_error_def
        split: if_splits option.splits prod.splits sum.splits)
  then have r: "Resolve intn (child_input reg child fcs cps a) st = (Inl err, st1)"
    by (auto simp: resolveImmediateRRChild_def split: prod.splits sum.splits)
  have "FindInvalidReachableStrategyOverride reg child cps fcs = []"
    using True e(1) by (auto simp: child_reason_def PathReason_defs IsRoundRobin_isStrategy split: if_splits)
  then have "\<forall>c. (child, c) \<in> (rr_edges (child_input reg child fcs cps a))\<^sup>* \<longrightarrow>
      IsRoundRobinProvider (rr_provider (child_input reg child fcs cps a) c) \<longrightarrow>
      clean_node (child_input reg child fcs cps a) c"
    using preflight_clean[of "child_input reg child fcs cps a" child] assms(1) by simp
  then have "\<not> override_error err"
    using clean_resolve[OF assms(4) _ assms(2) _ r] assms(5) by (simp add: uses_adv_def)
  then show ?thesis using e(3) by blast
next
  case False
  then show ?thesis using plan_step_reason assms(3) by (metis Inl_inject Inr_inject prod.inject)
qed

lemma plan_loop_return_class:
  assumes "plan_loop intn reg cn fcs cps supf a i chain s st = (Inl (Inr res), st')" "inv st"
    and "Validate reg = None" "\<And>child. chains_fit (child_input reg child fcs cps a)" "a = None \<or> a = Some adv"
  shows "classify_loop reg fcs cps supf chain prov leg pos rr = Inl (fr_Reason res) \<and>
    res = reason_only (fr_Reason res)"
  using assms(1,2)
proof (induction chain arbitrary: i s st prov leg pos rr)
  case (Cons child rest)
  obtain y st1 where y: "plan_step intn reg cn fcs cps supf a i child s st = (y, st1)" by force
  show ?case
  proof (cases y)
    case (Inl r)
    then have "plan_step intn reg cn fcs cps supf a i child s st = (Inl (Inr res), st')"
      using y Cons.prems(1) by simp
    from plan_step_return_reason[OF assms(3,4) this Cons.prems(2) assms(5)] show ?thesis
      by (simp add: classify_loop_Cons reason_only_def del: classify_loop.simps(2))
  next
    case (Inr s1)
    have l: "plan_loop intn reg cn fcs cps supf a (Suc i) rest s1 st1 = (Inl (Inr res), st')"
      using y Inr Cons.prems(1) by simp
    have "inv st1" using plan_step_state[OF y Cons.prems(2) assms(5)] .
    note IH = Cons.IH[OF l this]
    show ?thesis
      using classify_loop_rest[OF plan_step_no_reason[OF y[unfolded Inr]], of supf rest prov leg pos rr] IH
      by auto
  qed
qed simp

lemma with_advancer_class:
  assumes "Validate reg = None" "\<And>child. chains_fit (child_input reg child fcs cps a)"
    and "inv st" "a = None \<or> a = Some adv"
  shows "fst (resolveFallbackChainForClientWithAdvancer intn reg cn fcs cps supf a st) =
    resolveFallbackChainLegacyClassification reg cn fcs cps supf"
proof -
  let ?chain = "resolveFallbackStrategyChain reg cn fcs"
  obtain y st' where l: "plan_loop intn reg cn fcs cps supf a 0 ?chain chain_init st = (y, st')" by force
  have init: "class_view chain_init = ([], [], 0, False)" by (simp add: class_view_def chain_init_def)
  consider (err) e where "y = Inl (Inl e)" | (ret) res where "y = Inl (Inr res)" | (fin) s where "y = Inr s"
    by (metis sum.exhaust)
  then show ?thesis
  proof cases
    case err
    then show ?thesis using l
      by (auto simp: resolveFallbackChainForClientWithAdvancer_def ResolveFallbackChainPlanForClient_def
          resolveFallbackChainLegacyClassification_def reason_only_def Let_def)
  next
    case ret
    from plan_loop_return_class[OF l[unfolded ret] assms(3,1,2,4), of "[]" "[]" 0 False] l ret show ?thesis
      by (cases res) (auto simp: resolveFallbackChainForClientWithAdvancer_def ResolveFallbackChainPlanForClient_def
          resolveFallbackChainLegacyClassification_def reason_only_def Let_def)
  next
    case fin
    have inv: "plan_inv reg cps supf ?chain s" using plan_loop_inv[OF plan_inv_init l[unfolded fin]] by simp
    show ?thesis
    proof (cases "cs_rrCentral s")
      case True
      then have "cs_targets s \<noteq> []" "cs_legacyPositions s \<noteq> length ?chain"
        using inv plan_inv_central_count[OF inv] by (auto simp: plan_inv_def)
      then show ?thesis using l fin
        by (auto simp: resolveFallbackChainForClientWithAdvancer_def ResolveFallbackChainPlanForClient_def
            resolveFallbackChainLegacyClassification_def reason_only_def Let_def)
    next
      case False
      then have "cs_targets s = []" "cs_nested s = []" using inv by (simp_all add: plan_inv_def)
      moreover have "classify_loop reg fcs cps supf ?chain [] [] 0 False = Inr (class_view s)"
        by (rule plan_loop_class[OF l[unfolded fin] False init])
      ultimately show ?thesis using l fin False
        by (auto simp: resolveFallbackChainForClientWithAdvancer_def ResolveFallbackChainPlanForClient_def
            resolveFallbackChainLegacyClassification_def reason_only_def Let_def class_view_def)
    qed
  qed
qed

end

section \<open>Properties\<close>

definition demo_fb_providers :: "string gomap" where
  "demo_fb_providers = [(''F'', ''fallback''), (''RR'', ''round-robin''), (''A'', ''openai''),
     (''B'', ''anthropic''), (''L'', ''some-legacy'')]"

definition demo_fb_chains :: "string list gomap" where
  "demo_fb_chains = [(''F'', [''RR'', ''L'', ''B'']), (''RR'', [''A'', ''B''])]"

definition demo_supported :: support_fun where
  "demo_supported = Some (\<lambda>p. p = ''openai'' \<or> p = ''anthropic'')"

definition demo_plan :: fallback_resolution where
  "demo_plan = \<lparr>fr_Chain = [''RR'', ''L'', ''B''],
     fr_Providers = [(''RR'', ''openai''), (''L'', ''some-legacy''), (''B'', ''anthropic'')],
     fr_LegacyChildren = [(''L'', True)], fr_Targets = [(''RR'', ''A'')],
     fr_NestedRoundRobin = [(''RR'', \<lparr>ri_Name = ''RR'', ri_Children = [''A'', ''B''], ri_Index = 0, ri_Selected = ''A''\<rparr>)],
     fr_Reason = PathReasonFallbackRoundRobinChildBuildRequest\<rparr>"

text \<open>C29: (invariant) A fallback plan with a chain describes the chain of the client faithfully: every
  child either is a round-robin child centralised on a leaf other than itself, whose provider is
  recorded for it, is supported and is no strategy, and the child is not legacy; or its own
  non-empty provider is recorded and it is legacy exactly when that provider is a strategy or
  unsupported. Targets name only children, and at least one child is not legacy.\<close>

theorem fallback_plan_wellformed:
  assumes "ResolveFallbackChainPlanForClient intn reg cn fcs cps supf adv st = (Inr (Some res), st')"
    and "fr_Chain res \<noteq> []"
  shows "plan_ok reg cps supf res \<and> fr_Chain res = resolveFallbackStrategyChain reg cn fcs"
  using assms by (rule plan_result_ok)

theorem fallback_plan_wellformed_witness:
  "plan_ok None demo_fb_providers demo_supported demo_plan"
proof -
  have r: "ResolveFallbackChainPlanForClient (\<lambda>st n. (0, st)) None ''F'' demo_fb_chains demo_fb_providers
      demo_supported None () = (Inr (Some demo_plan), ())" by code_simp
  have c: "fr_Chain demo_plan \<noteq> []" by (simp add: demo_plan_def)
  show ?thesis by (rule conjunct1[OF fallback_plan_wellformed[OF r c]])
qed

text \<open>In a valid registry, and with the in-process coordinator (or no advancer) and
  random draws in range, the four-value result of \<^verbatim>\<open>resolveFallbackChainForClientWithAdvancer\<close> is that
  of the classification that never advances a counter: it does not depend on counters or chance,
  and centralising a round-robin child never changes what these callers see.\<close>

theorem fallback_class_independent:
  assumes "Validate reg = None" "\<And>child. chains_fit (child_input reg child fcs cps a)"
    and "intn_lawful w" "a = None \<or> a = Some world_advance"
  shows "fst (resolveFallbackChainForClientWithAdvancer world_intn reg cn fcs cps supf a w) =
    resolveFallbackChainLegacyClassification reg cn fcs cps supf"
  using assms by (rule coord.with_advancer_class)

theorem fallback_class_independent_witness:
  "fst (resolveFallbackChainForClientWithAdvancer world_intn None ''F'' demo_fb_chains demo_fb_providers
      demo_supported (Some world_advance) demo_world) =
   ([''RR'', ''L'', ''B''], [(''RR'', ''baml-roundrobin''), (''L'', ''some-legacy''), (''B'', ''anthropic'')],
    [(''RR'', True), (''L'', True)], PathReasonFallbackRoundRobinChildLegacy)"
proof -
  have "chains_fit (child_input None child demo_fb_chains demo_fb_providers (Some world_advance))" for child
    by (rule chains_fit_check) (simp add: chains_fit_check_def demo_fb_chains_def max_int64_def)
  moreover have "resolveFallbackChainLegacyClassification None ''F'' demo_fb_chains demo_fb_providers demo_supported =
   ([''RR'', ''L'', ''B''], [(''RR'', ''baml-roundrobin''), (''L'', ''some-legacy''), (''B'', ''anthropic'')],
    [(''RR'', True), (''L'', True)], PathReasonFallbackRoundRobinChildLegacy)" by code_simp
  ultimately show ?thesis
    using fallback_class_independent[of None demo_fb_chains demo_fb_providers "Some world_advance" demo_world "''F''" demo_supported]
    by (simp add: Validate_def intn_lawful_def demo_world_def)
qed

end
