(* ===== verification/Metadata_Plan.thy ===== *)
theory Metadata_Plan
  imports Fallback_Plan
begin

text \<open>
  \<^verbatim>\<open>buildrequest/metadata.go\<close> with the \<^verbatim>\<open>Metadata\<close> type of \<^verbatim>\<open>bamlutils/interfaces.go\<close>: the routing metadata
  that a request reports. Slices and maps that the code leaves nil are empty lists.
\<close>

section \<open>Types\<close>

datatype metadata_phase = MetadataPhasePlanned | MetadataPhaseOutcome

record metadata =
  md_Phase :: metadata_phase
  md_Attempt :: int
  md_Path :: string
  md_PathReason :: string
  md_BuildRequestAPI :: string
  md_Client :: string
  md_Provider :: string
  md_Strategy :: string
  md_Chain :: "string list"
  md_LegacyChildren :: "string list"
  md_RetryMax :: "int option"
  md_RetryPolicy :: string
  md_RetryCount :: "int option"
  md_WinnerClient :: string
  md_WinnerProvider :: string
  md_WinnerPath :: string
  md_WinnerEngine :: string
  md_PlannedEngine :: string
  md_UpstreamDurMs :: "int option"
  md_BamlCallCount :: "int option"
  md_RoundRobin :: "round_robin_info option"
  md_FallbackTargets :: "string gomap"
  md_FallbackRoundRobin :: "round_robin_info gomap"

record provider_resolution =
  pr_Client :: string
  pr_Provider :: string
  pr_Strategy :: string
  pr_Path :: string
  pr_PathReason :: string

section \<open>Classification of a provider\<close>

definition rr_path_reason :: "client_registry option \<Rightarrow> string \<Rightarrow> string" where
  "rr_path_reason reg clientName =
     (if (case InspectStrategyOverride reg clientName of (_, present, valid) \<Rightarrow> present \<and> \<not> valid)
      then PathReasonInvalidStrategyOverride
      else if hasExplicitStrategyProviderWithoutStrategy reg clientName then PathReasonInvalidStrategyOverride
      else if hasInvalidStartOverride reg clientName then PathReasonInvalidRoundRobinStartOverride
      else PathReasonRoundRobin)"

definition ResolveProviderWithReason ::
    "'st adapter \<Rightarrow> string \<Rightarrow> string \<Rightarrow> support_fun \<Rightarrow> provider_resolution" where
  "ResolveProviderWithReason a defaultClientName introspectedProvider supf =
     (let provider = normalizeStrategyProvider (ResolveProvider a defaultClientName introspectedProvider);
          reg = ad_OriginalClientRegistry a;
          clientName = (case primary_name reg of None \<Rightarrow> defaultClientName | Some p \<Rightarrow> p);
          res = \<lparr>pr_Client = clientName, pr_Provider = provider, pr_Strategy = [], pr_Path = [], pr_PathReason = []\<rparr>
      in if provider = [] then
           res\<lparr>pr_Path := ''legacy'',
               pr_PathReason :=
                 (if hasInvalidProviderOverride reg clientName then PathReasonInvalidProviderOverride
                  else if (case primary_name reg of None \<Rightarrow> False | Some p \<Rightarrow> hasInvalidProviderOverride reg p)
                  then PathReasonInvalidProviderOverride
                  else if hasInvalidProviderOverride reg defaultClientName then PathReasonInvalidProviderOverride
                  else PathReasonEmptyProvider)\<rparr>
         else if provider = ''baml-fallback'' then
           res\<lparr>pr_Strategy := ''baml-fallback'', pr_Path := ''legacy'',
               pr_PathReason :=
                 (if (case InspectStrategyOverride reg clientName of (_, present, valid) \<Rightarrow> present \<and> \<not> valid)
                  then PathReasonInvalidStrategyOverride
                  else if hasExplicitStrategyProviderWithoutStrategy reg clientName
                  then PathReasonInvalidStrategyOverride else [])\<rparr>
         else if provider = ''baml-roundrobin'' then
           res\<lparr>pr_Strategy := ''baml-roundrobin'', pr_Path := ''legacy'', pr_PathReason := rr_path_reason reg clientName\<rparr>
         else if (case supf of None \<Rightarrow> False | Some f \<Rightarrow> f provider) then res\<lparr>pr_Path := ''buildrequest''\<rparr>
         else res\<lparr>pr_Path := ''legacy'', pr_PathReason := PathReasonUnsupportedProvider\<rparr>)"

section \<open>Plans\<close>

definition newPlanBase :: "string \<Rightarrow> string \<Rightarrow> policy option \<Rightarrow> string \<Rightarrow> metadata" where
  "newPlanBase path clientName retryPolicy buildRequestAPI =
     \<lparr>md_Phase = MetadataPhasePlanned, md_Attempt = 0, md_Path = path, md_PathReason = [],
      md_BuildRequestAPI = buildRequestAPI, md_Client = clientName, md_Provider = [], md_Strategy = [],
      md_Chain = [], md_LegacyChildren = [], md_RetryMax = map_option po_MaxRetries retryPolicy,
      md_RetryPolicy = EncodeRetryPolicy retryPolicy, md_RetryCount = None, md_WinnerClient = [],
      md_WinnerProvider = [], md_WinnerPath = [], md_WinnerEngine = [], md_PlannedEngine = [],
      md_UpstreamDurMs = None, md_BamlCallCount = None, md_RoundRobin = None, md_FallbackTargets = [],
      md_FallbackRoundRobin = []\<rparr>"

definition orderedLegacyChildren :: "string list \<Rightarrow> bool gomap \<Rightarrow> string list" where
  "orderedLegacyChildren chain legacy =
     (if length legacy = 0 then [] else filter (gomap_flag legacy) chain)"

fun rebuild_loop ::
    "client_registry option \<Rightarrow> string gomap \<Rightarrow> support_fun \<Rightarrow> string list \<Rightarrow> string gomap \<Rightarrow> bool gomap \<Rightarrow>
     string gomap \<times> bool gomap" where
  "rebuild_loop reg cps supf [] providers legacy = (providers, legacy)"
| "rebuild_loop reg cps supf (child # chain) providers legacy =
     (let p = ResolveClientProvider reg child cps
      in rebuild_loop reg cps supf chain (gomap_put child p providers)
           (if p = [] \<or> isStrategyProvider p \<or> unsupported supf p then gomap_put child True legacy else legacy))"

definition rebuildLegacyChainMetadata ::
    "client_registry option \<Rightarrow> string list \<Rightarrow> string gomap \<Rightarrow> support_fun \<Rightarrow> string gomap \<times> bool gomap" where
  "rebuildLegacyChainMetadata reg chain clientProviders supf = rebuild_loop reg clientProviders supf chain [] []"

definition BuildSingleProviderPlan ::
    "'st adapter \<Rightarrow> string \<Rightarrow> string \<Rightarrow> policy option \<Rightarrow> string \<Rightarrow> metadata" where
  "BuildSingleProviderPlan a defaultClientName provider retryPolicy buildRequestAPI =
     (newPlanBase ''buildrequest'' (ResolvePrimaryClient a defaultClientName) retryPolicy buildRequestAPI)
       \<lparr>md_Provider := provider\<rparr>"

definition BuildSingleProviderPlanForClient ::
    "string \<Rightarrow> string \<Rightarrow> policy option \<Rightarrow> string \<Rightarrow> metadata" where
  "BuildSingleProviderPlanForClient clientName provider retryPolicy buildRequestAPI =
     (newPlanBase ''buildrequest'' clientName retryPolicy buildRequestAPI)\<lparr>md_Provider := provider\<rparr>"

definition BuildFallbackChainPlanForClient ::
    "string \<Rightarrow> string list \<Rightarrow> string gomap \<Rightarrow> bool gomap \<Rightarrow> policy option \<Rightarrow> string \<Rightarrow> string \<Rightarrow> metadata" where
  "BuildFallbackChainPlanForClient clientName chain providers legacyChildren retryPolicy buildRequestAPI pathReason =
     (newPlanBase ''buildrequest'' clientName retryPolicy buildRequestAPI)
       \<lparr>md_Strategy := ''baml-fallback'', md_PathReason := pathReason, md_Chain := chain,
        md_LegacyChildren := orderedLegacyChildren chain legacyChildren\<rparr>"

definition BuildFallbackChainPlan ::
    "'st adapter \<Rightarrow> string \<Rightarrow> string list \<Rightarrow> string gomap \<Rightarrow> bool gomap \<Rightarrow> policy option \<Rightarrow> string \<Rightarrow> string \<Rightarrow> metadata"
  where
  "BuildFallbackChainPlan a defaultClientName chain providers legacyChildren retryPolicy buildRequestAPI pathReason =
     (newPlanBase ''buildrequest'' (ResolvePrimaryClient a defaultClientName) retryPolicy buildRequestAPI)
       \<lparr>md_Strategy := ''baml-fallback'', md_PathReason := pathReason, md_Chain := chain,
        md_LegacyChildren := orderedLegacyChildren chain legacyChildren\<rparr>"

definition BuildFallbackChainPlanFromResolution ::
    "string \<Rightarrow> fallback_resolution option \<Rightarrow> policy option \<Rightarrow> string \<Rightarrow> metadata" where
  "BuildFallbackChainPlanFromResolution clientName resolution retryPolicy buildRequestAPI =
     (let plan = (newPlanBase ''buildrequest'' clientName retryPolicy buildRequestAPI)\<lparr>md_Strategy := ''baml-fallback''\<rparr>
      in case resolution of
           None \<Rightarrow> plan
         | Some r \<Rightarrow> plan\<lparr>md_PathReason := fr_Reason r, md_Chain := fr_Chain r,
                         md_LegacyChildren := orderedLegacyChildren (fr_Chain r) (fr_LegacyChildren r),
                         md_FallbackTargets := fr_Targets r, md_FallbackRoundRobin := fr_NestedRoundRobin r\<rparr>)"

text \<open>The part of the two legacy plans that fills in a fallback chain.\<close>

definition legacy_chain_plan ::
    "client_registry option \<Rightarrow> string \<Rightarrow> string list gomap \<Rightarrow> string gomap \<Rightarrow> support_fun \<Rightarrow> chain_class \<Rightarrow>
     metadata \<Rightarrow> metadata" where
  "legacy_chain_plan reg clientName fcs cps supf cl plan =
     (case cl of (chain, providers, legacy, reason) \<Rightarrow>
        (let (chain, legacy) =
               (if chain = [] \<and> \<not> isInvalidOverrideReason reason
                then (let chain = resolveFallbackStrategyChain reg clientName fcs
                      in (chain, snd (rebuildLegacyChainMetadata reg chain cps supf)))
                else (chain, legacy));
             plan = plan\<lparr>md_PathReason := reason\<rparr>
         in if 0 < length chain
            then plan\<lparr>md_Chain := chain, md_LegacyChildren := orderedLegacyChildren chain legacy\<rparr>
            else plan))"

definition BuildLegacyMetadataPlan ::
    "'st int_source \<Rightarrow> 'st adapter \<Rightarrow> string \<Rightarrow> string \<Rightarrow> string list gomap \<Rightarrow> string gomap \<Rightarrow> support_fun \<Rightarrow>
     policy option \<Rightarrow> 'st \<Rightarrow> metadata \<times> 'st" where
  "BuildLegacyMetadataPlan intn a defaultClientName introspectedProvider fallbackChains clientProviders supf
       retryPolicy st =
     (let resolution = ResolveProviderWithReason a defaultClientName introspectedProvider supf;
          plan = (newPlanBase ''legacy'' (pr_Client resolution) retryPolicy [])
                   \<lparr>md_Strategy := pr_Strategy resolution, md_PathReason := pr_PathReason resolution,
                    md_Provider := (if pr_Strategy resolution = [] then pr_Provider resolution else [])\<rparr>
      in if pr_Strategy resolution = ''baml-fallback''
         then (case ResolveFallbackChainWithReason intn a defaultClientName fallbackChains clientProviders supf st of
                 (cl, st') \<Rightarrow>
                   (legacy_chain_plan (ad_OriginalClientRegistry a) (pr_Client resolution) fallbackChains
                      clientProviders supf cl plan, st'))
         else (plan, st))"

definition BuildLegacyMetadataPlanForClient ::
    "'st int_source \<Rightarrow> client_registry option \<Rightarrow> string \<Rightarrow> string \<Rightarrow> string list gomap \<Rightarrow> string gomap \<Rightarrow> support_fun \<Rightarrow>
     policy option \<Rightarrow> 'st \<Rightarrow> metadata \<times> 'st" where
  "BuildLegacyMetadataPlanForClient intn reg clientName introspectedProvider fallbackChains clientProviders supf
       retryPolicy st =
     (let provider = ResolveClientProvider reg clientName clientProviders;
          provider = (if provider = [] \<and> \<not> hasInvalidProviderOverride reg clientName
                      then introspectedProvider else provider);
          provider = normalizeStrategyProvider provider;
          plan = newPlanBase ''legacy'' clientName retryPolicy []
      in if provider = [] then
           (plan\<lparr>md_PathReason := (if hasInvalidProviderOverride reg clientName
              then PathReasonInvalidProviderOverride else PathReasonEmptyProvider)\<rparr>, st)
         else if provider = ''baml-fallback'' then
           (case ResolveFallbackChainForClientWithReason intn reg clientName fallbackChains clientProviders supf st of
              (cl, st') \<Rightarrow>
                (legacy_chain_plan reg clientName fallbackChains clientProviders supf cl
                   (plan\<lparr>md_Strategy := ''baml-fallback''\<rparr>), st'))
         else if provider = ''baml-roundrobin'' then
           (plan\<lparr>md_Strategy := ''baml-roundrobin'', md_PathReason := rr_path_reason reg clientName\<rparr>, st)
         else (plan\<lparr>md_Provider := provider,
                    md_PathReason := (if unsupported supf provider then PathReasonUnsupportedProvider else [])\<rparr>, st))"

section \<open>Properties\<close>

lemma normalized_strategy:
  "isStrategyProvider (normalizeStrategyProvider p) \<longleftrightarrow>
     normalizeStrategyProvider p = ''baml-fallback'' \<or> normalizeStrategyProvider p = ''baml-roundrobin''"
  by (auto simp: isStrategyProvider_def normalizeStrategyProvider_def NormalizeProvider_def
      CanonicalProvider_def IsRoundRobinProvider_def Let_def)

lemma rr_path_reason_nonempty: "rr_path_reason reg n \<noteq> []"
  by (simp add: rr_path_reason_def PathReason_defs)

definition demo_adapter :: "unit adapter" where
  "demo_adapter = \<lparr>ad_ClientRegistryProvider = [], ad_OriginalClientRegistry = None,
     ad_RoundRobinAdvancer = None, ad_RetryConfig = None\<rparr>"

text \<open>\<^verbatim>\<open>ResolveProviderWithReason\<close> classifies every request: the path is
  \<^verbatim>\<open>buildrequest\<close> exactly for a non-empty supported provider that is no strategy, and then there is
  neither a reason nor a strategy; otherwise it is \<^verbatim>\<open>legacy\<close>, with a reason unless the client is a
  fallback strategy whose chain still has to be classified. The strategy is set exactly for strategy
  providers.\<close>

theorem provider_classification:
  assumes "r = ResolveProviderWithReason a defaultClient introspected supf"
  shows "(pr_Path r = ''buildrequest'' \<longleftrightarrow> pr_Provider r \<noteq> [] \<and> \<not> isStrategyProvider (pr_Provider r) \<and>
       (\<exists>f. supf = Some f \<and> f (pr_Provider r))) \<and>
     (pr_Path r = ''buildrequest'' \<longrightarrow> pr_PathReason r = [] \<and> pr_Strategy r = []) \<and>
     (pr_Path r \<noteq> ''buildrequest'' \<longrightarrow> pr_Path r = ''legacy'' \<and>
       (pr_PathReason r = [] \<longrightarrow> pr_Strategy r = ''baml-fallback'')) \<and>
     (pr_Strategy r = (if isStrategyProvider (pr_Provider r) then pr_Provider r else []))"
proof -
  let ?p = "normalizeStrategyProvider (ResolveProvider a defaultClient introspected)"
  note defs = assms ResolveProviderWithReason_def Let_def
  have st: "isStrategyProvider ?p \<longleftrightarrow> ?p = ''baml-fallback'' \<or> ?p = ''baml-roundrobin''"
    by (rule normalized_strategy)
  consider "?p = []" | "?p = ''baml-fallback''" | "?p = ''baml-roundrobin''"
    | (single) "?p \<noteq> []" "?p \<noteq> ''baml-fallback''" "?p \<noteq> ''baml-roundrobin''" by blast
  then show ?thesis
  proof cases
    case single
    then show ?thesis using st
      by (cases "case supf of None \<Rightarrow> False | Some f \<Rightarrow> f ?p")
        (simp_all add: defs PathReasonUnsupportedProvider_def split: option.splits)
  qed (simp_all add: defs isStrategyProvider_eq isStrategyProviderName_def rr_path_reason_nonempty
      PathReasonInvalidProviderOverride_def PathReasonEmptyProvider_def)
qed

theorem provider_classification_witness:
  "pr_Path (ResolveProviderWithReason demo_adapter ''A'' ''openai'' demo_supported) = ''buildrequest''"
  using provider_classification[OF refl, of demo_adapter "''A''" "''openai''" demo_supported]
  by (simp add: ResolveProviderWithReason_def ResolveProvider_def demo_adapter_def primary_name_def
      demo_supported_def normalizeStrategyProvider_def NormalizeProvider_def IsRoundRobinProvider_def
      isStrategyProvider_def)

text \<open>The metadata planned from a fallback resolution is consistent with it: the legacy
  children are the chain's children that the resolution marks, in chain order, some child of the
  chain is not among them, and every retargeted child belongs to the chain and is not legacy.\<close>

theorem fallback_metadata_consistent:
  assumes "ResolveFallbackChainPlanForClient intn reg cn fcs cps supf adv st = (Inr (Some res), st')"
    and "fr_Chain res \<noteq> []" and "plan = BuildFallbackChainPlanFromResolution cn (Some res) pol api"
  shows "md_Chain plan = fr_Chain res \<and>
    md_LegacyChildren plan = filter (gomap_flag (fr_LegacyChildren res)) (fr_Chain res) \<and>
    set (md_LegacyChildren plan) \<subset> set (md_Chain plan) \<and>
    (\<forall>(child, leaf) \<in> set (md_FallbackTargets plan).
       child \<in> set (md_Chain plan) \<and> child \<notin> set (md_LegacyChildren plan))"
proof -
  have ok: "plan_ok reg cps supf res" using plan_result_ok[OF assms(1,2)] by blast
  have flt: "orderedLegacyChildren (fr_Chain res) (fr_LegacyChildren res) =
      filter (gomap_flag (fr_LegacyChildren res)) (fr_Chain res)"
    by (cases "fr_LegacyChildren res") (simp_all add: orderedLegacyChildren_def)
  have "\<not> gomap_flag (fr_LegacyChildren res) c" if t: "(c, leaf) \<in> set (fr_Targets res)" for c leaf
  proof -
    have "c \<in> set (fr_Chain res)" using t ok by (force simp: plan_ok_def)
    moreover obtain l where "map_of (fr_Targets res) c = Some l" using t by (meson weak_map_of_SomeI)
    ultimately show ?thesis using ok by (auto simp: plan_ok_def child_ok_def)
  qed
  then show ?thesis
    using ok by (auto simp: assms(3) BuildFallbackChainPlanFromResolution_def flt plan_ok_def Let_def)
qed

theorem fallback_metadata_consistent_witness:
  "set (md_LegacyChildren (BuildFallbackChainPlanFromResolution ''F'' (Some demo_plan) None ''request''))
     \<subset> set (md_Chain (BuildFallbackChainPlanFromResolution ''F'' (Some demo_plan) None ''request''))"
proof -
  have r: "ResolveFallbackChainPlanForClient (\<lambda>st n. (0, st)) None ''F'' demo_fb_chains demo_fb_providers
      demo_supported None () = (Inr (Some demo_plan), ())" by code_simp
  have c: "fr_Chain demo_plan \<noteq> []" by (simp add: demo_plan_def)
  show ?thesis using fallback_metadata_consistent[OF r c refl] by blast
qed

text \<open>The legacy metadata of a client does not depend on chance: in a valid registry it
  is the same for all states of the coordinator and of the random source.\<close>

theorem legacy_metadata_deterministic:
  assumes "Validate reg = None" "\<And>child. chains_fit (child_input reg child fcs cps (None :: world advancer option))"
    and "intn_lawful w1" "intn_lawful w2"
  shows "fst (BuildLegacyMetadataPlanForClient world_intn reg cn ip fcs cps supf pol w1) =
    fst (BuildLegacyMetadataPlanForClient world_intn reg cn ip fcs cps supf pol w2)"
proof -
  have "fst (ResolveFallbackChainForClientWithReason world_intn reg cn fcs cps supf w) =
      resolveFallbackChainLegacyClassification reg cn fcs cps supf" if "intn_lawful w" for w
    unfolding ResolveFallbackChainForClientWithReason_def
    by (rule coord.with_advancer_class[OF assms(1,2) that]) simp
  then show ?thesis using assms(3,4)
    by (simp add: BuildLegacyMetadataPlanForClient_def Let_def case_prod_beta)
qed

theorem legacy_metadata_deterministic_witness:
  "fst (BuildLegacyMetadataPlanForClient world_intn None ''F'' [] demo_fb_chains demo_fb_providers demo_supported
      None demo_world) =
   fst (BuildLegacyMetadataPlanForClient world_intn None ''F'' [] demo_fb_chains demo_fb_providers demo_supported
      None (demo_world\<lparr>w_intn := \<lambda>k n. n - 1\<rparr>))"
proof -
  have f: "chains_fit (child_input None child demo_fb_chains demo_fb_providers (None :: world advancer option))" for child
    by (rule chains_fit_check) (simp add: chains_fit_check_def demo_fb_chains_def max_int64_def)
  show ?thesis
    by (rule legacy_metadata_deterministic[OF _ f])
      (simp_all add: Validate_def intn_lawful_def demo_world_def)
qed

end
