(* ===== verification/Call_Orchestrator.thy ===== *)
theory Call_Orchestrator
  imports Metadata_Plan
begin

text \<open>
  \<^verbatim>\<open>buildrequest/call_orchestrator.go\<close> with the parts of \<^verbatim>\<open>native_callback.go\<close> and the provider tables of
  \<^verbatim>\<open>orchestrator.go\<close> it uses: the unary orchestration of a request.

  The state \<open>call_state\<close> has the events sent on the output channel, the variables that the closures
  of \<^verbatim>\<open>RunCallOrchestration\<close> share, and an external state \<open>'x\<close> on which everything outside works: the
  request builder, the HTTP client, the parsers, the native callback, legacy dispatch, the context,
  the clock and the channel. A call that gets \<^verbatim>\<open>sendHeartbeat\<close> as an argument returns how often it
  called it. The result of a run is the error returned, or a panic.
\<close>

section \<open>Provider tables\<close>

definition supportedProviders :: "string list" where
  "supportedProviders = [''openai'', ''openai-generic'', ''azure-openai'', ''ollama'', ''openrouter'',
     ''openai-responses'', ''anthropic'', ''google-ai'', ''vertex-ai'', ''aws-bedrock'']"

definition IsProviderSupported :: "string \<Rightarrow> bool" where
  "IsProviderSupported provider \<longleftrightarrow> provider \<in> set supportedProviders"

definition callSupportedProviders :: "string list" where
  "callSupportedProviders = [''openai'', ''openai-generic'', ''azure-openai'', ''ollama'', ''openrouter'',
     ''openai-responses'', ''anthropic'', ''google-ai'', ''vertex-ai'', ''aws-bedrock'']"

text \<open>The stub of the release build; the debug build lets an environment variable switch providers off.\<close>

definition debugFilterCallSupported :: "string \<Rightarrow> bool \<Rightarrow> bool" where
  "debugFilterCallSupported provider staticSupported = staticSupported"

definition IsCallProviderSupported :: "string \<Rightarrow> bool" where
  "IsCallProviderSupported provider =
     debugFilterCallSupported provider (provider \<in> set callSupportedProviders)"

section \<open>The native seam\<close>

definition nativeEngineMarker :: string where
  "nativeEngineMarker = ''native''"

definition nativeBAMLParseEngineMarker :: string where
  "nativeBAMLParseEngineMarker = ''native_baml_parse''"

definition allowedWinnerEngine :: "string \<Rightarrow> string" where
  "allowedWinnerEngine e =
     (if e = nativeEngineMarker \<or> e = nativeBAMLParseEngineMarker then e else nativeEngineMarker)"

definition allowedPlannedEngine :: "string \<Rightarrow> string" where
  "allowedPlannedEngine e = (if e = nativeEngineMarker then e else [])"

definition errNativeCallFailedNil :: go_error where
  "errNativeCallFailedNil = Err ''buildrequest: native call attempt failed (no error provided)''"

text \<open>The dispositions 0, 1 and 2 are declined, succeeded and failed; a directly built outcome may
  carry any other value.\<close>

record 'v native_outcome =
  no_Disposition :: nat
  no_OnResponseShadow :: bool
  no_FinalResult :: "'v option"
  no_Raw :: string
  no_Reasoning :: string
  no_WinnerEngine :: string
  no_Err :: "go_error option"

definition NativeCallDeclined :: nat where "NativeCallDeclined = 0"
definition NativeCallSucceeded :: nat where "NativeCallSucceeded = 1"
definition NativeCallFailed :: nat where "NativeCallFailed = 2"

definition DeclineNativeCall :: "'v native_outcome" where
  "DeclineNativeCall = \<lparr>no_Disposition = NativeCallDeclined, no_OnResponseShadow = False, no_FinalResult = None,
     no_Raw = [], no_Reasoning = [], no_WinnerEngine = [], no_Err = None\<rparr>"

definition SucceedNativeCall :: "'v option \<Rightarrow> string \<Rightarrow> string \<Rightarrow> 'v native_outcome" where
  "SucceedNativeCall finalResult raw reasoning =
     \<lparr>no_Disposition = NativeCallSucceeded, no_OnResponseShadow = False, no_FinalResult = finalResult,
      no_Raw = raw, no_Reasoning = reasoning, no_WinnerEngine = [], no_Err = None\<rparr>"

definition FailNativeCall :: "go_error option \<Rightarrow> 'v native_outcome" where
  "FailNativeCall err =
     \<lparr>no_Disposition = NativeCallFailed, no_OnResponseShadow = False, no_FinalResult = None,
      no_Raw = [], no_Reasoning = [], no_WinnerEngine = [],
      no_Err = Some (case err of None \<Rightarrow> errNativeCallFailedNil | Some e \<Rightarrow> e)\<rparr>"

definition FailNativeCallWithRaw :: "go_error option \<Rightarrow> string \<Rightarrow> 'v native_outcome" where
  "FailNativeCallWithRaw err raw = (FailNativeCall err)\<lparr>no_Raw := raw\<rparr>"

text \<open>What the callback is given. \<^verbatim>\<open>OutputSchema\<close>, a handle that the orchestrator forwards from the
  configuration without looking at it, is part of the callback here; \<^verbatim>\<open>SendHeartbeat\<close> is the count of signals that
  the callback returns.\<close>

record ('q, 'x) NativeCallAttempt =
  na_Provider :: string
  na_ClientOverride :: string
  na_NeedsRaw :: bool
  na_IncludeReasoning :: bool
  na_BuildBAMLRequest :: "'x \<Rightarrow> (go_error + 'q) \<times> 'x"

section \<open>Configuration and environment\<close>

record http_response =
  hr_StatusCode :: int
  hr_Borrowed :: "string option"
  hr_Bytes :: "string option"
  hr_Body :: string

type_synonym extract_fun = "string \<Rightarrow> string \<Rightarrow> bool \<Rightarrow> go_error + string \<times> string \<times> string"

record ('v, 'q, 'x) call_env =
  ce_exec :: "'x exec_env"
  ce_buildRequest :: "string \<Rightarrow> 'x \<Rightarrow> (go_error + 'q) \<times> 'x"
  ce_execute :: "'q \<Rightarrow> 'x \<Rightarrow> (go_error + http_response) \<times> nat \<times> 'x"
  ce_extractBorrowed :: "extract_fun option"
  ce_extractBytes :: "extract_fun option"
  ce_extract :: extract_fun
  ce_parseFinal :: "string \<Rightarrow> 'x \<Rightarrow> (go_error + 'v option) \<times> 'x"
  ce_native :: "(('q, 'x) NativeCallAttempt \<Rightarrow> 'x \<Rightarrow> 'v native_outcome \<times> nat \<times> 'x) option"
  ce_shadow :: "int \<Rightarrow> string \<Rightarrow> 'x \<Rightarrow> 'x"
  ce_legacy :: "(string \<Rightarrow> string \<Rightarrow> bool \<Rightarrow> 'x \<Rightarrow> (go_error + 'v option \<times> string \<times> string) \<times> nat \<times> 'x) option"
  ce_send :: "'x \<Rightarrow> bool \<times> 'x"
  ce_trysend :: "'x \<Rightarrow> bool \<times> 'x"
  ce_now :: "'x \<Rightarrow> int"

record call_config =
  cc_Provider :: string
  cc_RetryPolicy :: "policy option"
  cc_NeedsRaw :: bool
  cc_IncludeReasoning :: bool
  cc_FallbackChain :: "string list"
  cc_ClientOverride :: string
  cc_ClientProviders :: "string gomap"
  cc_LegacyChildren :: "bool gomap"
  cc_FallbackTargets :: "string gomap"
  cc_MetadataPlan :: "metadata option"
  cc_NewMetadataResult :: bool
  cc_NativeAttemptEnabled :: bool
  cc_PlannedEngine :: string

datatype 'v event =
    EvHeartbeat
  | EvMetadata metadata
  | EvFinal "'v option" string string
  | EvError string go_error

record ('v, 'x) call_state =
  cl_out :: "'v event list"
  cl_heartbeat :: bool
  cl_planned :: bool
  cl_finalAttempt :: int
  cl_ext :: 'x

record 'v call_result =
  cr_final :: "'v option"
  cr_raw :: string
  cr_reasoning :: string
  cr_winnerClient :: string
  cr_winnerProvider :: string
  cr_winnerPath :: string
  cr_winnerEngine :: string

datatype run_outcome = Returned "go_error option" | Panicked

section \<open>The closures\<close>

definition emitPlannedMetadata ::
    "('v, 'q, 'x) call_env \<Rightarrow> call_config \<Rightarrow> ('v, 'x) call_state \<Rightarrow> ('v, 'x) call_state" where
  "emitPlannedMetadata env config s =
     (case cc_MetadataPlan config of
        None \<Rightarrow> s
      | Some plan \<Rightarrow>
          if \<not> cc_NewMetadataResult config then s
          else if cl_planned s then s
          else (let plan = plan\<lparr>md_Phase := MetadataPhasePlanned, md_Attempt := 0\<rparr>;
                    (ok, x) = ce_send env (cl_ext s)
                in s\<lparr>cl_planned := True, cl_ext := x,
                     cl_out := (if ok then cl_out s @ [EvMetadata plan] else cl_out s)\<rparr>))"

definition sendHeartbeat ::
    "('v, 'q, 'x) call_env \<Rightarrow> call_config \<Rightarrow> ('v, 'x) call_state \<Rightarrow> ('v, 'x) call_state" where
  "sendHeartbeat env config s =
     (let s = (if cl_heartbeat s then s
               else (let (ok, x) = ce_trysend env (cl_ext s)
                     in s\<lparr>cl_heartbeat := True, cl_ext := x,
                          cl_out := (if ok then cl_out s @ [EvHeartbeat] else cl_out s)\<rparr>))
      in emitPlannedMetadata env config s)"

text \<open>The heartbeats that a callee sent while it ran.\<close>

definition with_heartbeats ::
    "('v, 'q, 'x) call_env \<Rightarrow> call_config \<Rightarrow> nat \<Rightarrow> 'x \<Rightarrow> ('v, 'x) call_state \<Rightarrow> ('v, 'x) call_state" where
  "with_heartbeats env config n x s = (sendHeartbeat env config ^^ n) (s\<lparr>cl_ext := x\<rparr>)"

definition trySend ::
    "('v, 'q, 'x) call_env \<Rightarrow> 'v event \<Rightarrow> ('v, 'x) call_state \<Rightarrow> bool \<times> ('v, 'x) call_state" where
  "trySend env r s =
     (if ctx_Err (ce_exec env) (cl_ext s) \<noteq> None then (False, s)
      else (let (ok, x) = ce_send env (cl_ext s)
            in (ok, s\<lparr>cl_ext := x, cl_out := (if ok then cl_out s @ [r] else cl_out s)\<rparr>)))"

definition responseBodyClone :: "http_response \<Rightarrow> string" where
  "responseBodyClone resp =
     (case hr_Borrowed resp of Some bb \<Rightarrow> bb
      | None \<Rightarrow> (case hr_Bytes resp of Some rb \<Rightarrow> rb | None \<Rightarrow> hr_Body resp))"

text \<open>A panic of the shadow callback is recovered; its effect is on the external state only.\<close>

definition runResponseShadow ::
    "('v, 'q, 'x) call_env \<Rightarrow> int \<Rightarrow> string \<Rightarrow> ('v, 'x) call_state \<Rightarrow> ('v, 'x) call_state" where
  "runResponseShadow env status body s = s\<lparr>cl_ext := ce_shadow env status body (cl_ext s)\<rparr>"

definition extract_dispatch ::
    "('v, 'q, 'x) call_env \<Rightarrow> string \<Rightarrow> http_response \<Rightarrow> bool \<Rightarrow> go_error + string \<times> string \<times> string" where
  "extract_dispatch env provider resp includeReasoning =
     (case (hr_Borrowed resp, ce_extractBorrowed env) of
        (Some bb, Some f) \<Rightarrow> f provider bb includeReasoning
      | _ \<Rightarrow>
          (case (hr_Bytes resp, ce_extractBytes env) of
             (Some rb, Some f) \<Rightarrow> f provider rb includeReasoning
           | _ \<Rightarrow> ce_extract env provider (hr_Body resp) includeReasoning))"

text \<open>The build, send, extract and parse of one child after the native seam declined or was off.\<close>

definition baml_attempt ::
    "('v, 'q, 'x) call_env \<Rightarrow> call_config \<Rightarrow> string \<Rightarrow> string \<Rightarrow> bool \<Rightarrow> ('v, 'x) call_state \<Rightarrow>
     (go_error option + 'v call_result) \<times> ('v, 'x) call_state" where
  "baml_attempt env config provider clientOverride shadow s =
     (case ce_buildRequest env clientOverride (cl_ext s) of
        (Inl err, x) \<Rightarrow> (Inl (Some (ErrWrap ''buildrequest: failed to build request: '' err)), s\<lparr>cl_ext := x\<rparr>)
      | (Inr req, x) \<Rightarrow>
          (case ce_execute env req x of (res, hb, x2) \<Rightarrow>
             (let s = with_heartbeats env config hb x2 s
              in case res of
                   Inl httpErr \<Rightarrow> (Inl (Some httpErr), s)
                 | Inr resp \<Rightarrow>
                     (let s = (if shadow then runResponseShadow env (hr_StatusCode resp) (responseBodyClone resp) s
                               else s)
                      in case extract_dispatch env provider resp (cc_IncludeReasoning config) of
                           Inl extractErr \<Rightarrow>
                             (Inl (newRawError (Some (ErrWrap ''buildrequest: failed to extract response content: '' extractErr))
                                (hr_Body resp)), s)
                         | Inr (parseable, raw, reasoning) \<Rightarrow>
                             (case ce_parseFinal env parseable (cl_ext s) of
                                (Inl parseErr, x3) \<Rightarrow>
                                  (Inl (newRawError (wrapOutputParse (Some (ErrWrap
                                     ''buildrequest: failed to parse final result: '' parseErr))) raw), s\<lparr>cl_ext := x3\<rparr>)
                              | (Inr finalResult, x3) \<Rightarrow>
                                  (Inr \<lparr>cr_final = finalResult,
                                        cr_raw = (if cc_NeedsRaw config then raw else []),
                                        cr_reasoning = (if cc_NeedsRaw config then reasoning else []),
                                        cr_winnerClient = [], cr_winnerProvider = provider,
                                        cr_winnerPath = ''buildrequest'', cr_winnerEngine = []\<rparr>, s\<lparr>cl_ext := x3\<rparr>))))))"

definition native_call_attempt ::
    "('v, 'q, 'x) call_env \<Rightarrow> call_config \<Rightarrow> string \<Rightarrow> string \<Rightarrow> ('q, 'x) NativeCallAttempt" where
  "native_call_attempt env config provider clientOverride =
     \<lparr>na_Provider = provider, na_ClientOverride = clientOverride, na_NeedsRaw = cc_NeedsRaw config,
      na_IncludeReasoning = cc_IncludeReasoning config, na_BuildBAMLRequest = ce_buildRequest env clientOverride\<rparr>"

definition tryOneChild ::
    "('v, 'q, 'x) call_env \<Rightarrow> call_config \<Rightarrow> string \<Rightarrow> string \<Rightarrow> ('v, 'x) call_state \<Rightarrow>
     (go_error option + 'v call_result) \<times> ('v, 'x) call_state" where
  "tryOneChild env config provider clientOverride s =
     (case (if cc_NativeAttemptEnabled config then ce_native env else None) of
        None \<Rightarrow> baml_attempt env config provider clientOverride False s
      | Some native \<Rightarrow>
          (case native (native_call_attempt env config provider clientOverride) (cl_ext s) of (oc, hb, x) \<Rightarrow>
             (let s = with_heartbeats env config hb x s
              in if no_Disposition oc = NativeCallSucceeded then
                   (Inr \<lparr>cr_final = no_FinalResult oc,
                         cr_raw = (if cc_NeedsRaw config then no_Raw oc else []),
                         cr_reasoning = (if cc_NeedsRaw config then no_Reasoning oc else []),
                         cr_winnerClient = [], cr_winnerProvider = provider, cr_winnerPath = ''buildrequest'',
                         cr_winnerEngine = allowedWinnerEngine (no_WinnerEngine oc)\<rparr>, s)
                 else if no_Disposition oc = NativeCallFailed then
                   (Inl (newRawError (Some (case no_Err oc of None \<Rightarrow> errNativeCallFailedNil | Some e \<Rightarrow> e))
                      (no_Raw oc)), s)
                 else if no_Disposition oc = NativeCallDeclined then
                   baml_attempt env config provider clientOverride (no_OnResponseShadow oc) s
                 else (Inl (Some (Err (''buildrequest: native call attempt returned unknown disposition '' @
                        itoa (int (no_Disposition oc))))), s))))"

text \<open>The loop over the fallback chain. The error returned may be nil only for an empty rest of the
  chain, the value that \<^verbatim>\<open>lastErr\<close> then has. The legacy callback is not nil here, since the run was
  validated.\<close>

fun chain_attempt ::
    "('v, 'q, 'x) call_env \<Rightarrow> call_config \<Rightarrow> int \<Rightarrow> string list \<Rightarrow> go_error option \<Rightarrow> ('v, 'x) call_state \<Rightarrow>
     ('v call_result option \<times> go_error option) \<times> ('v, 'x) call_state" where
  "chain_attempt env config attempt [] lastErr s = ((None, lastErr), s)"
| "chain_attempt env config attempt (child # chain) lastErr s =
     (case ctx_Err (ce_exec env) (cl_ext s) of
        Some ce \<Rightarrow> ((None, Some ce), s)
      | None \<Rightarrow>
          if gomap_flag (cc_LegacyChildren config) child then
            (case ce_legacy env of
               None \<Rightarrow> ((None, Some (Err ''LegacyCallChild is nil'')), s)
             | Some legacy \<Rightarrow>
                 (case legacy child (gomap_str (cc_ClientProviders config) child) (cc_NeedsRaw config) (cl_ext s) of
                    (res, hb, x) \<Rightarrow>
                      (let s = with_heartbeats env config hb x s
                       in case res of
                            Inr (finalResult, raw, reasoning) \<Rightarrow>
                              ((Some \<lparr>cr_final = finalResult, cr_raw = raw, cr_reasoning = reasoning,
                                 cr_winnerClient = child,
                                 cr_winnerProvider = gomap_str (cc_ClientProviders config) child,
                                 cr_winnerPath = ''legacy'', cr_winnerEngine = []\<rparr>, None),
                               s\<lparr>cl_finalAttempt := attempt\<rparr>)
                          | Inl err \<Rightarrow> chain_attempt env config attempt chain (Some err) s)))
          else
            (let provider = gomap_str (cc_ClientProviders config) child;
                 target = (let t = gomap_str (cc_FallbackTargets config) child in if t \<noteq> [] then t else child)
             in case tryOneChild env config provider target s of
                  (Inr result, s) \<Rightarrow>
                    ((Some (result\<lparr>cr_winnerClient := target\<rparr>), None), s\<lparr>cl_finalAttempt := attempt\<rparr>)
                | (Inl err, s) \<Rightarrow> chain_attempt env config attempt chain err s))"

definition attemptFull ::
    "('v, 'q, 'x) call_env \<Rightarrow> call_config \<Rightarrow> ('v call_result option, ('v, 'x) call_state) attempt_fun" where
  "attemptFull env config attempt s =
     (if length (cc_FallbackChain config) = 0 then
        (case tryOneChild env config (cc_Provider config) (cc_ClientOverride config) s of
           (Inr result, s) \<Rightarrow>
             ((Some (case cc_MetadataPlan config of None \<Rightarrow> result
                     | Some plan \<Rightarrow> result\<lparr>cr_winnerClient := md_Client plan\<rparr>), None),
              s\<lparr>cl_finalAttempt := attempt\<rparr>)
         | (Inl err, s) \<Rightarrow> ((None, err), s))
      else chain_attempt env config attempt (cc_FallbackChain config) None s)"

section \<open>The run\<close>

text \<open>The checks before the first attempt.\<close>

fun validate_children :: "call_config \<Rightarrow> string list \<Rightarrow> go_error option" where
  "validate_children config [] = None"
| "validate_children config (child # chain) =
     (if gomap_flag (cc_LegacyChildren config) child then validate_children config chain
      else (let provider = gomap_str (cc_ClientProviders config) child
            in if provider = [] \<or> \<not> IsCallProviderSupported provider
               then Some (Err (''buildrequest: unsupported or empty provider '' @ go_quote provider @ '' for child '' @ go_quote child))
               else validate_children config chain))"

definition call_validate :: "('v, 'q, 'x) call_env \<Rightarrow> call_config \<Rightarrow> go_error option" where
  "call_validate env config =
     (if length (cc_FallbackChain config) = 0 then
        (if cc_Provider config = [] \<or> \<not> IsCallProviderSupported (cc_Provider config)
         then Some (Err (''buildrequest: unsupported or empty provider '' @ go_quote (cc_Provider config) @ '' for non-streaming call''))
         else None)
      else if 0 < length (cc_LegacyChildren config) \<and> ce_legacy env = None
      then Some (Err ''buildrequest: LegacyChildren set but LegacyCallChild is nil'')
      else validate_children config (cc_FallbackChain config))"

definition outcome_metadata :: "call_config \<Rightarrow> metadata \<Rightarrow> int \<Rightarrow> 'v call_result \<Rightarrow> int \<Rightarrow> metadata" where
  "outcome_metadata config plan finalAttempt w dur =
     plan\<lparr>md_Phase := MetadataPhaseOutcome, md_Attempt := 0, md_RetryMax := None, md_RetryPolicy := [],
          md_Chain := [], md_LegacyChildren := [], md_FallbackTargets := [], md_FallbackRoundRobin := [],
          md_Strategy := [], md_Provider := [], md_RetryCount := Some finalAttempt,
          md_WinnerClient := cr_winnerClient w, md_WinnerProvider := cr_winnerProvider w,
          md_WinnerPath := cr_winnerPath w, md_WinnerEngine := cr_winnerEngine w,
          md_PlannedEngine := allowedPlannedEngine (cc_PlannedEngine config), md_UpstreamDurMs := Some dur\<rparr>"

text \<open>The context and the timer as seen from the state of the run.\<close>

definition state_exec :: "('v, 'q, 'x) call_env \<Rightarrow> ('v, 'x) call_state exec_env" where
  "state_exec env = \<lparr>ctx_Err = \<lambda>s. ctx_Err (ce_exec env) (cl_ext s),
     wait_timer = \<lambda>d s. (case wait_timer (ce_exec env) d (cl_ext s) of (r, x) \<Rightarrow> (r, s\<lparr>cl_ext := x\<rparr>)),
     pow_scaled = pow_scaled (ce_exec env)\<rparr>"

text \<open>The end of a run that has a winner.\<close>

definition send_result ::
    "('v, 'q, 'x) call_env \<Rightarrow> call_config \<Rightarrow> int \<Rightarrow> 'v call_result \<Rightarrow> ('v, 'x) call_state \<Rightarrow>
     run_outcome \<times> ('v, 'x) call_state" where
  "send_result env config startTime winner s =
     (let send_final = (\<lambda>s. (Returned None, snd (trySend env
            (EvFinal (cr_final winner)
               (if cc_NeedsRaw config then cr_raw winner else [])
               (if cc_NeedsRaw config then cr_reasoning winner else [])) s)))
      in case cc_MetadataPlan config of
           None \<Rightarrow> send_final s
         | Some plan \<Rightarrow>
             if \<not> cc_NewMetadataResult config then send_final s
             else (let dur = ce_now env (cl_ext s) - startTime;
                       (ok, s) = trySend env (EvMetadata (outcome_metadata config plan
                                   (cl_finalAttempt s) winner dur)) s
                   in if \<not> ok then (Returned None, s) else send_final s))"

definition first_state :: "('v, 'q, 'x) call_env \<Rightarrow> call_config \<Rightarrow> 'x \<Rightarrow> ('v, 'x) call_state" where
  "first_state env config x = emitPlannedMetadata env config
     \<lparr>cl_out = [], cl_heartbeat = False, cl_planned = False, cl_finalAttempt = 0, cl_ext = x\<rparr>"

definition RunCallOrchestration ::
    "('v, 'q, 'x) call_env \<Rightarrow> call_config \<Rightarrow> 'x \<Rightarrow> run_outcome \<times> ('v, 'x) call_state" where
  "RunCallOrchestration env config x =
     (let s = first_state env config x
      in case call_validate env config of
           Some err \<Rightarrow> (Returned (Some err), s)
         | None \<Rightarrow>
             (let startTime = ce_now env (cl_ext s)
              in case Execute (state_exec env) None (cc_RetryPolicy config) (attemptFull env config) None s of
                   ((result, Some err), s) \<Rightarrow>
                     (Returned None, snd (trySend env (EvError (rawFromError (Some err)) err) s))
                 | ((None, None), s) \<Rightarrow> (Panicked, s)
                 | ((Some winner, None), s) \<Rightarrow> send_result env config startTime winner s))"

section \<open>The events before the result\<close>

definition planned_event :: "call_config \<Rightarrow> 'v event list" where
  "planned_event config = (case cc_MetadataPlan config of None \<Rightarrow> []
     | Some plan \<Rightarrow> if cc_NewMetadataResult config
                    then [EvMetadata (plan\<lparr>md_Phase := MetadataPhasePlanned, md_Attempt := 0\<rparr>)] else [])"

text \<open>The output channel may refuse an event: the context ends, or the send loses the race with it.\<close>

definition refuses :: "('v, 'q, 'x) call_env \<Rightarrow> bool" where
  "refuses env \<longleftrightarrow> (\<exists>x. ctx_Err (ce_exec env) x \<noteq> None \<or> \<not> fst (ce_send env x))"

text \<open>After the start of a run: the planned metadata was offered once, as the first event, and at most
  one heartbeat followed.\<close>

definition started :: "('v, 'q, 'x) call_env \<Rightarrow> call_config \<Rightarrow> ('v, 'x) call_state \<Rightarrow> bool" where
  "started env config s \<longleftrightarrow>
     (planned_event config \<noteq> ([] :: 'v event list) \<longrightarrow> cl_planned s) \<and>
     (\<exists>p h. cl_out s = p @ h \<and> (p = planned_event config \<or> p = [] \<and> refuses env) \<and>
        (h = [] \<or> h = [EvHeartbeat] \<and> cl_heartbeat s))"

lemma emitPlannedMetadata_start: "started env config (first_state env config x)"
proof -
  have "\<not> fst (ce_send env x) \<Longrightarrow> refuses env" unfolding refuses_def by blast
  then show ?thesis
    by (auto simp: started_def first_state_def emitPlannedMetadata_def planned_event_def Let_def split: option.splits prod.splits)
qed

lemma emitPlannedMetadata_again:
  "planned_event config \<noteq> ([] :: 'v event list) \<longrightarrow> cl_planned s \<Longrightarrow>
     emitPlannedMetadata env config (s :: ('v, 'x) call_state) = s"
  by (auto simp: emitPlannedMetadata_def planned_event_def split: option.splits if_splits)

lemma started_ext [simp]:
  "started env config (s\<lparr>cl_ext := x\<rparr>) = started env config s"
  "started env config (s\<lparr>cl_finalAttempt := n\<rparr>) = started env config s"
  by (simp_all add: started_def)

lemma sendHeartbeat_started:
  assumes "started env config s"
  shows "started env config (sendHeartbeat env config s)"
proof (cases "cl_heartbeat s")
  case True
  then show ?thesis using assms
    by (simp add: sendHeartbeat_def emitPlannedMetadata_again started_def)
next
  case False
  obtain ok x where o: "ce_trysend env (cl_ext s) = (ok, x)" by force
  obtain p where p: "cl_out s = p" "p = planned_event config \<or> p = [] \<and> refuses env"
    using assms False by (auto simp: started_def)
  let ?s = "s\<lparr>cl_heartbeat := True, cl_ext := x, cl_out := (if ok then cl_out s @ [EvHeartbeat] else cl_out s)\<rparr>"
  have "emitPlannedMetadata env config ?s = ?s"
    using assms by (intro emitPlannedMetadata_again) (simp add: started_def)
  moreover have "started env config ?s" using assms p by (auto simp: started_def)
  ultimately show ?thesis using False o by (simp add: sendHeartbeat_def)
qed

lemma with_heartbeats_started: "started env config s \<Longrightarrow> started env config (with_heartbeats env config n x s)"
  unfolding with_heartbeats_def by (induction n) (simp_all add: sendHeartbeat_started)

lemma baml_attempt_started:
  "started env config s \<Longrightarrow> baml_attempt env config provider co shadow s = (r, s') \<Longrightarrow> started env config s'"
  by (auto simp: baml_attempt_def runResponseShadow_def Let_def with_heartbeats_started
      split: prod.splits sum.splits if_splits)

lemma tryOneChild_started:
  assumes "started env config s" "tryOneChild env config provider co s = (r, s')"
  shows "started env config s'"
  using assms(2)
  by (auto simp: tryOneChild_def Let_def split: option.splits prod.splits if_splits
      dest: baml_attempt_started[OF assms(1)] baml_attempt_started[OF with_heartbeats_started[OF assms(1)]]
      intro: with_heartbeats_started[OF assms(1)])

section \<open>The loop over the chain\<close>

definition dispatch_target :: "call_config \<Rightarrow> string \<Rightarrow> string" where
  "dispatch_target config child =
     (let t = gomap_str (cc_FallbackTargets config) child in if t \<noteq> [] then t else child)"

text \<open>A failed attempt always carries an error.\<close>

lemma tryOneChild_error: "tryOneChild env config provider co s \<noteq> (Inl None, s')"
proof -
  have "baml_attempt env config provider co sh s1 \<noteq> (Inl None, s')" for sh s1
    by (auto simp: baml_attempt_def Let_def newRawError_def wrapOutputParse_def split: prod.splits sum.splits if_splits)
  then show ?thesis
    by (auto simp: tryOneChild_def Let_def newRawError_def split: option.splits prod.splits if_splits)
qed

text \<open>The dispatch of one child, through the legacy callback or the new path.\<close>

definition dispatch_child ::
    "('v, 'q, 'x) call_env \<Rightarrow> call_config \<Rightarrow> string \<Rightarrow> ('v, 'x) call_state \<Rightarrow>
     (go_error option + 'v call_result) \<times> ('v, 'x) call_state" where
  "dispatch_child env config child s =
     (let provider = gomap_str (cc_ClientProviders config) child
      in if gomap_flag (cc_LegacyChildren config) child then
           (case ce_legacy env of
              None \<Rightarrow> (Inl (Some (Err ''LegacyCallChild is nil'')), s)
            | Some legacy \<Rightarrow>
                (case legacy child provider (cc_NeedsRaw config) (cl_ext s) of
                   (Inr (v, raw, reasoning), hb, x) \<Rightarrow>
                     (Inr \<lparr>cr_final = v, cr_raw = raw, cr_reasoning = reasoning, cr_winnerClient = child,
                           cr_winnerProvider = provider, cr_winnerPath = ''legacy'', cr_winnerEngine = []\<rparr>,
                      with_heartbeats env config hb x s)
                 | (Inl e, hb, x) \<Rightarrow> (Inl (Some e), with_heartbeats env config hb x s)))
         else
           (case tryOneChild env config provider (dispatch_target config child) s of
              (Inr w, s1) \<Rightarrow> (Inr (w\<lparr>cr_winnerClient := dispatch_target config child\<rparr>), s1)
            | (Inl e, s1) \<Rightarrow> (Inl e, s1)))"

lemma dispatch_child_error: "dispatch_child env config child s \<noteq> (Inl None, s')"
  using tryOneChild_error[of env config "gomap_str (cc_ClientProviders config) child" "dispatch_target config child" s s']
  by (auto simp: dispatch_child_def Let_def split: option.splits prod.splits sum.splits)

lemma dispatch_child_started:
  assumes "started env config s" "dispatch_child env config child s = (r, s')"
  shows "started env config s'"
  using assms
  by (auto simp: dispatch_child_def Let_def intro: with_heartbeats_started[OF assms(1)] tryOneChild_started[OF assms(1)]
      split: if_splits option.splits prod.splits sum.splits)

lemma chain_attempt_cases:
  assumes "chain_attempt env config a (child # chain) le s = ((r, err), s')"
  obtains (stop) e where "r = None" "err = Some e" "s' = s"
  | (won) w s1 where "ctx_Err (ce_exec env) (cl_ext s) = None" "dispatch_child env config child s = (Inr w, s1)"
      "r = Some w" "err = None" "s' = s1\<lparr>cl_finalAttempt := a\<rparr>"
  | (again) e s1 where "ctx_Err (ce_exec env) (cl_ext s) = None" "dispatch_child env config child s = (Inl (Some e), s1)"
      "chain_attempt env config a chain (Some e) s1 = ((r, err), s')"
proof -
  obtain y s1 where d: "dispatch_child env config child s = (y, s1)" by force
  consider "ctx_Err (ce_exec env) (cl_ext s) \<noteq> None \<or> (gomap_flag (cc_LegacyChildren config) child \<and> ce_legacy env = None)"
    | (ok) "ctx_Err (ce_exec env) (cl_ext s) = None" "\<not> (gomap_flag (cc_LegacyChildren config) child \<and> ce_legacy env = None)"
    by blast
  then show thesis
  proof cases
    case 1
    then have "r = None" "err \<noteq> None" "s' = s"
      using assms by (cases "ctx_Err (ce_exec env) (cl_ext s)"; auto split: if_splits)+
    then show thesis using stop by blast
  next
    case ok
    have "((r, err), s') = (case y of Inr w \<Rightarrow> ((Some w, None), s1\<lparr>cl_finalAttempt := a\<rparr>)
        | Inl e \<Rightarrow> chain_attempt env config a chain e s1)"
      using assms d ok unfolding dispatch_child_def dispatch_target_def
      by (auto simp: Let_def split: if_splits option.splits prod.splits sum.splits)
    moreover have "y \<noteq> Inl None" using d dispatch_child_error by metis
    ultimately show thesis using ok(1) d won again by (auto split: sum.splits)
  qed
qed

lemma chain_attempt_started:
  "started env config s \<Longrightarrow> chain_attempt env config a chain le s = (r, s') \<Longrightarrow> started env config s'"
proof (induction chain arbitrary: le s)
  case (Cons child chain)
  obtain v err where r: "r = (v, err)" by force
  from Cons.prems(2)[unfolded r] show ?case
  proof (cases rule: chain_attempt_cases)
    case (again e s1)
    then show ?thesis using Cons.IH[of s1 "Some e"] dispatch_child_started[OF Cons.prems(1)] r by simp
  next
    case (won w s1)
    then show ?thesis using dispatch_child_started[OF Cons.prems(1)] by simp
  qed (use Cons.prems(1) in simp)
qed simp

lemma attemptFull_started:
  assumes "started env config s" "attemptFull env config a s = (r, s')"
  shows "started env config s'"
proof (cases "cc_FallbackChain config = []")
  case True
  obtain y s1 where t: "tryOneChild env config (cc_Provider config) (cc_ClientOverride config) s = (y, s1)" by force
  then have "started env config s1" by (rule tryOneChild_started[OF assms(1)])
  moreover have "s' = s1 \<or> s' = s1\<lparr>cl_finalAttempt := a\<rparr>"
    using assms(2) True t by (cases y) (simp_all add: attemptFull_def)
  ultimately show ?thesis by auto
next
  case False
  then show ?thesis using assms(2) chain_attempt_started[OF assms(1)] by (simp add: attemptFull_def)
qed

section \<open>Winners\<close>

text \<open>The winner that a result names is the client of the configuration that produced it.\<close>

definition winner_ok :: "call_config \<Rightarrow> 'v call_result \<Rightarrow> bool" where
  "winner_ok config w \<longleftrightarrow>
     (if cc_FallbackChain config = []
      then cr_winnerProvider w = cc_Provider config \<and> cr_winnerPath w = ''buildrequest'' \<and>
        cr_winnerClient w = (case cc_MetadataPlan config of None \<Rightarrow> [] | Some plan \<Rightarrow> md_Client plan)
      else (\<exists>child \<in> set (cc_FallbackChain config).
        cr_winnerProvider w = gomap_str (cc_ClientProviders config) child \<and>
        (if gomap_flag (cc_LegacyChildren config) child
         then cr_winnerClient w = child \<and> cr_winnerPath w = ''legacy''
         else cr_winnerClient w = dispatch_target config child \<and> cr_winnerPath w = ''buildrequest''))) \<and>
     cr_winnerEngine w \<in> {[], nativeEngineMarker, nativeBAMLParseEngineMarker}"

lemma baml_attempt_winner:
  "baml_attempt env config provider co shadow s = (Inr w, s') \<Longrightarrow>
     cr_winnerProvider w = provider \<and> cr_winnerPath w = ''buildrequest'' \<and> cr_winnerClient w = [] \<and>
     cr_winnerEngine w = []"
  by (auto simp: baml_attempt_def Let_def split: prod.splits sum.splits if_splits)

lemma tryOneChild_winner:
  "tryOneChild env config provider co s = (Inr w, s') \<Longrightarrow>
     cr_winnerProvider w = provider \<and> cr_winnerPath w = ''buildrequest'' \<and> cr_winnerClient w = [] \<and>
     cr_winnerEngine w \<in> {[], nativeEngineMarker, nativeBAMLParseEngineMarker}"
  by (auto simp: tryOneChild_def Let_def allowedWinnerEngine_def split: option.splits prod.splits if_splits
      dest: baml_attempt_winner)

lemma dispatch_child_winner:
  assumes "dispatch_child env config child s = (Inr w, s')" "child \<in> set (cc_FallbackChain config)"
  shows "winner_ok config w"
proof (cases "gomap_flag (cc_LegacyChildren config) child")
  case True
  then have "cr_winnerProvider w = gomap_str (cc_ClientProviders config) child \<and> cr_winnerClient w = child \<and>
      cr_winnerPath w = ''legacy'' \<and> cr_winnerEngine w = []"
    using assms(1) by (auto simp: dispatch_child_def Let_def split: option.splits prod.splits sum.splits)
  then show ?thesis using True assms(2) by (auto simp: winner_ok_def)
next
  case False
  then obtain w0 where t: "tryOneChild env config (gomap_str (cc_ClientProviders config) child) (dispatch_target config child) s
      = (Inr w0, s')" "w = w0\<lparr>cr_winnerClient := dispatch_target config child\<rparr>"
    using assms(1) by (auto simp: dispatch_child_def Let_def split: prod.splits sum.splits)
  then show ?thesis using tryOneChild_winner[OF t(1)] False assms(2) by (auto simp: winner_ok_def)
qed

text \<open>Who serves an attempt: the children before the winner are dispatched in the order of the chain and fail,
  and the winner is the result of the next child's own dispatch.\<close>

fun fail_in_order ::
    "('v, 'q, 'x) call_env \<Rightarrow> call_config \<Rightarrow> string list \<Rightarrow> ('v, 'x) call_state \<Rightarrow> ('v, 'x) call_state \<Rightarrow> bool" where
  "fail_in_order env config [] s s' \<longleftrightarrow> s' = s"
| "fail_in_order env config (child # chain) s s' \<longleftrightarrow> ctx_Err (ce_exec env) (cl_ext s) = None \<and>
     (case dispatch_child env config child s of (Inl _, s1) \<Rightarrow> fail_in_order env config chain s1 s' | (Inr _, _) \<Rightarrow> False)"

definition served ::
    "('v, 'q, 'x) call_env \<Rightarrow> call_config \<Rightarrow> ('v, 'x) call_state \<Rightarrow> 'v call_result \<Rightarrow> ('v, 'x) call_state \<Rightarrow> bool" where
  "served env config s w s' \<longleftrightarrow>
     (if cc_FallbackChain config = []
      then (\<exists>r. tryOneChild env config (cc_Provider config) (cc_ClientOverride config) s = (Inr r, s') \<and>
         w = (case cc_MetadataPlan config of None \<Rightarrow> r | Some plan \<Rightarrow> r\<lparr>cr_winnerClient := md_Client plan\<rparr>))
      else (\<exists>failed child rest s1. cc_FallbackChain config = failed @ child # rest \<and>
         fail_in_order env config failed s s1 \<and> ctx_Err (ce_exec env) (cl_ext s1) = None \<and>
         dispatch_child env config child s1 = (Inr w, s')))"

lemma served_winner:
  assumes "served env config s w s'"
  shows "winner_ok config w"
proof (cases "cc_FallbackChain config = []")
  case True
  then obtain r where r: "tryOneChild env config (cc_Provider config) (cc_ClientOverride config) s = (Inr r, s')"
    "w = (case cc_MetadataPlan config of None \<Rightarrow> r | Some plan \<Rightarrow> r\<lparr>cr_winnerClient := md_Client plan\<rparr>)"
    using assms by (auto simp: served_def)
  show ?thesis using tryOneChild_winner[OF r(1)] True r(2) by (auto simp: winner_ok_def split: option.splits)
next
  case False
  then obtain failed child rest s1 where "cc_FallbackChain config = failed @ child # rest"
    "dispatch_child env config child s1 = (Inr w, s')" using assms by (auto simp: served_def)
  then show ?thesis using dispatch_child_winner[of env config child s1 w s'] by simp
qed

lemma chain_attempt_served:
  assumes "chain_attempt env config a chain le s = ((r, None), s')" "chain \<noteq> [] \<or> le \<noteq> None"
  shows "\<exists>failed child rest s1 w s2. chain = failed @ child # rest \<and> fail_in_order env config failed s s1 \<and>
    ctx_Err (ce_exec env) (cl_ext s1) = None \<and> dispatch_child env config child s1 = (Inr w, s2) \<and>
    r = Some w \<and> s' = s2\<lparr>cl_finalAttempt := a\<rparr>"
  using assms
proof (induction chain arbitrary: le s)
  case (Cons child chain)
  from Cons.prems(1) show ?case
  proof (cases rule: chain_attempt_cases)
    case (won w s1)
    then show ?thesis
      by (intro exI[of _ "[]"] exI[of _ child] exI[of _ chain] exI[of _ s] exI[of _ w] exI[of _ s1]) simp
  next
    case (again e s1)
    then obtain failed c rest s2 w s3 where "chain = failed @ c # rest" "fail_in_order env config failed s1 s2"
      "ctx_Err (ce_exec env) (cl_ext s2) = None" "dispatch_child env config c s2 = (Inr w, s3)"
      "r = Some w" "s' = s3\<lparr>cl_finalAttempt := a\<rparr>"
      using Cons.IH[OF again(3)] by blast
    then show ?thesis using again(1,2)
      by (intro exI[of _ "child # failed"] exI[of _ c] exI[of _ rest] exI[of _ s2] exI[of _ w] exI[of _ s3]) simp
  qed simp
qed simp

lemma attemptFull_served:
  assumes "attemptFull env config a s = ((r, None), s')"
  shows "\<exists>w s1. r = Some w \<and> served env config s w s1 \<and> s' = s1\<lparr>cl_finalAttempt := a\<rparr>"
proof (cases "cc_FallbackChain config = []")
  case True
  obtain y s1 where t: "tryOneChild env config (cc_Provider config) (cc_ClientOverride config) s = (y, s1)" by force
  then have "y \<noteq> Inl None" using tryOneChild_error by metis
  then obtain w where w: "y = Inr w"
    using assms True t by (cases y) (auto simp: attemptFull_def)
  then show ?thesis using assms True t by (auto simp: attemptFull_def served_def split: option.splits)
next
  case False
  then have "chain_attempt env config a (cc_FallbackChain config) None s = ((r, None), s')"
    using assms by (simp add: attemptFull_def)
  then obtain failed child rest s1 w s2 where "cc_FallbackChain config = failed @ child # rest"
    "fail_in_order env config failed s s1" "ctx_Err (ce_exec env) (cl_ext s1) = None"
    "dispatch_child env config child s1 = (Inr w, s2)" "r = Some w" "s' = s2\<lparr>cl_finalAttempt := a\<rparr>"
    using chain_attempt_served False by blast
  then show ?thesis using False by (intro exI[of _ w] exI[of _ s2]) (auto simp: served_def)
qed

section \<open>The run as a whole\<close>

text \<open>\<open>won env config x a w s\<close>: in the run that starts in \<open>x\<close>, attempt \<open>a\<close> is made, \<open>w\<close> serves it, and \<open>s\<close> is the
  state after that.\<close>

definition won ::
    "('v, 'q, 'x) call_env \<Rightarrow> call_config \<Rightarrow> 'x \<Rightarrow> int \<Rightarrow> 'v call_result \<Rightarrow> ('v, 'x) call_state \<Rightarrow> bool" where
  "won env config x a w s \<longleftrightarrow>
     (\<exists>s0. attempt_begins (state_exec env) (cc_RetryPolicy config) (attemptFull env config) None (first_state env config x) a s0 \<and>
        served env config s0 w s)"

lemma Execute_started:
  assumes "Execute (state_exec env) None (cc_RetryPolicy config) (attemptFull env config) None s = ((r, err), s')"
    and "started env config s"
  shows "started env config s'"
proof -
  have "started env config s' \<and> (err = None \<longrightarrow> True \<or> r = None \<and> (\<exists>p. cc_RetryPolicy config = Some p \<and> po_MaxRetries p \<ge> max_int64))"
  proof (rule Execute_invariant[where I = "started env config" and Q = "\<lambda>_ _. True", OF assms])
    show "started env config w'" if "started env config w" "wait_timer (state_exec env) d w = (r, w')" for d w r w'
      using that by (auto simp: state_exec_def split: prod.splits)
  qed (use attemptFull_started in blast)+
  then show ?thesis by blast
qed

lemma Execute_won:
  assumes "Execute (state_exec env) None (cc_RetryPolicy config) (attemptFull env config) None (first_state env config x)
      = ((r, None), s')"
  shows "(\<exists>a w s. r = Some w \<and> won env config x a w s \<and> s' = s\<lparr>cl_finalAttempt := a\<rparr>) \<or>
    r = None \<and> (\<exists>p. cc_RetryPolicy config = Some p \<and> po_MaxRetries p \<ge> max_int64)"
  using Execute_origin[OF assms]
proof (elim disjE exE conjE)
  fix a u
  assume u: "attempt_begins (state_exec env) (cc_RetryPolicy config) (attemptFull env config) None (first_state env config x) a u"
    "attemptFull env config a u = ((r, None), s')"
  from attemptFull_served[OF u(2)] show ?thesis using u(1) unfolding won_def by blast
qed simp

text \<open>The events after the optional heartbeat, where \<open>before\<close> are the events so far. The final has the value, raw text
  and reasoning of the winner, and the outcome names the client, provider, path and engine of the same winner and the
  attempt that it served. The result is missing only if the configuration is rejected, the attempt count overflows or
  the channel refuses it.\<close>

definition final_event :: "call_config \<Rightarrow> 'v call_result \<Rightarrow> 'v event" where
  "final_event config w = EvFinal (cr_final w) (if cc_NeedsRaw config then cr_raw w else [])
     (if cc_NeedsRaw config then cr_reasoning w else [])"

inductive result_events ::
    "('v, 'q, 'x) call_env \<Rightarrow> call_config \<Rightarrow> 'x \<Rightarrow> 'v event list \<Rightarrow> 'v event list \<Rightarrow> bool" for env config x before where
  rejected: "call_validate env config = Some err \<Longrightarrow> result_events env config x before []"
| overflow: "cc_RetryPolicy config = Some p \<Longrightarrow> po_MaxRetries p \<ge> max_int64 \<Longrightarrow> result_events env config x before []"
| refused: "refuses env \<Longrightarrow> result_events env config x before []"
| error: "Execute (state_exec env) None (cc_RetryPolicy config) (attemptFull env config) None (first_state env config x)
      = ((r, Some e), s) \<Longrightarrow> cl_out s = before \<Longrightarrow>
    result_events env config x before [EvError (rawFromError (Some e)) e]"
| final: "won env config x a w s \<Longrightarrow> cl_out s = before \<Longrightarrow> winner_ok config w \<Longrightarrow> planned_event config = ([] :: 'v event list) \<Longrightarrow>
    result_events env config x before [final_event config w]"
| outcome: "won env config x a w s \<Longrightarrow> cl_out s = before \<Longrightarrow> winner_ok config w \<Longrightarrow> cc_MetadataPlan config = Some plan \<Longrightarrow>
    cc_NewMetadataResult config \<Longrightarrow> t = [final_event config w] \<or> t = [] \<and> refuses env \<Longrightarrow>
    result_events env config x before (EvMetadata (outcome_metadata config plan a w dur) # t)"

definition call_trace :: "('v, 'q, 'x) call_env \<Rightarrow> call_config \<Rightarrow> 'x \<Rightarrow> 'v event list \<Rightarrow> bool" where
  "call_trace env config x out \<longleftrightarrow> (\<exists>p h t. out = p @ h @ t \<and>
     (p = planned_event config \<or> p = [] \<and> refuses env) \<and> (h = [] \<or> h = [EvHeartbeat]) \<and>
     result_events env config x (p @ h) t)"

lemma started_trace:
  "started env config s \<Longrightarrow> result_events env config x (cl_out s) t \<Longrightarrow> call_trace env config x (cl_out s @ t)"
  unfolding started_def call_trace_def by (metis append.assoc)

lemma trySend_out:
  assumes "trySend env e s = (ok, s')"
  shows "cl_out s' = cl_out s @ (if ok then [e] else [])" "\<not> ok \<Longrightarrow> refuses env"
  using assms by (auto simp: trySend_def refuses_def Let_def split: prod.splits if_splits) (metis fst_conv)+

lemma send_result_trace:
  assumes started: "started env config s" and w: "won env config x a w s0" "s = s0\<lparr>cl_finalAttempt := a\<rparr>" "winner_ok config w"
    and send: "send_result env config t0 w s = (res, s')"
  shows "res = Returned None \<and> call_trace env config x (cl_out s')"
proof (cases "planned_event config = ([] :: 'a event list)")
  case True
  obtain ok s1 where f: "trySend env (final_event config w) s = (ok, s1)" by force
  have res: "res = Returned None" "s' = s1"
    using send True f by (auto simp: send_result_def final_event_def planned_event_def Let_def split: option.splits if_splits)
  have "result_events env config x (cl_out s) (if ok then [final_event config w] else [])"
    using result_events.final[OF w(1) _ w(3) True] result_events.refused trySend_out(2)[OF f] w(2) by (cases ok) simp_all
  from started_trace[OF started this] show ?thesis using trySend_out(1)[OF f] res by simp
next
  case False
  then obtain plan where plan: "cc_MetadataPlan config = Some plan" "cc_NewMetadataResult config"
    by (auto simp: planned_event_def split: option.splits if_splits)
  let ?m = "EvMetadata (outcome_metadata config plan a w (ce_now env (cl_ext s) - t0))"
  obtain ok s1 where m: "trySend env ?m s = (ok, s1)" by force
  obtain ok2 s2 where f: "trySend env (final_event config w) s1 = (ok2, s2)" by force
  have res: "res = Returned None" "s' = (if ok then s2 else s1)"
    using send plan m f w(2) by (auto simp: send_result_def final_event_def Let_def split: if_splits)
  have "result_events env config x (cl_out s) (if ok then ?m # (if ok2 then [final_event config w] else []) else [])"
    using result_events.outcome[OF w(1) _ w(3) plan] result_events.refused trySend_out(2)[OF m] trySend_out(2)[OF f] w(2)
    by (cases ok; cases ok2) simp_all
  from started_trace[OF started this] show ?thesis
    using trySend_out(1)[OF m] trySend_out(1)[OF f] res by (cases ok) simp_all
qed

lemma run_trace:
  assumes "RunCallOrchestration env config x = (res, s)"
  shows "call_trace env config x (cl_out s) \<and>
    (res = Panicked \<longrightarrow> (\<exists>p. cc_RetryPolicy config = Some p \<and> po_MaxRetries p \<ge> max_int64))"
proof -
  let ?s0 = "first_state env config x"
  have st0: "started env config ?s0" by (rule emitPlannedMetadata_start)
  show ?thesis
  proof (cases "call_validate env config")
    case (Some err)
    then have "s = ?s0" "res = Returned (Some err)" using assms by (simp_all add: RunCallOrchestration_def)
    then show ?thesis using started_trace[OF st0 result_events.rejected[OF Some]] by simp
  next
    case v: None
    obtain r err s1 where e: "Execute (state_exec env) None (cc_RetryPolicy config) (attemptFull env config) None ?s0
        = ((r, err), s1)" by (metis surj_pair)
    note st1 = Execute_started[OF e st0]
    have run: "(res, s) = (case err of
        Some er \<Rightarrow> (Returned None, snd (trySend env (EvError (rawFromError (Some er)) er) s1))
      | None \<Rightarrow> (case r of None \<Rightarrow> (Panicked, s1)
          | Some w \<Rightarrow> send_result env config (ce_now env (cl_ext ?s0)) w s1))"
      using assms v e by (cases err; cases r) (simp_all add: RunCallOrchestration_def Let_def)
    show ?thesis
    proof (cases err)
      case (Some er)
      obtain ok s2 where t: "trySend env (EvError (rawFromError (Some er)) er) s1 = (ok, s2)" by force
      have "result_events env config x (cl_out s1) (if ok then [EvError (rawFromError (Some er)) er] else [])"
        using result_events.error[OF e[unfolded Some]] result_events.refused trySend_out(2)[OF t] by (cases ok) simp_all
      from started_trace[OF st1 this] show ?thesis using trySend_out(1)[OF t] run Some t by simp
    next
      case None
      from Execute_won[OF e[unfolded None]] show ?thesis
      proof (elim disjE exE conjE)
        fix a w s2 assume w: "r = Some w" "won env config x a w s2" "s1 = s2\<lparr>cl_finalAttempt := a\<rparr>"
        then have "winner_ok config w" by (auto simp: won_def dest: served_winner)
        moreover have "send_result env config (ce_now env (cl_ext ?s0)) w s1 = (res, s)"
          using run[symmetric] None w(1) by simp
        ultimately show ?thesis using send_result_trace[OF st1 w(2,3)] by blast
      next
        fix p assume p: "r = None" "cc_RetryPolicy config = Some p" "max_int64 \<le> po_MaxRetries p"
        then show ?thesis using started_trace[OF st1 result_events.overflow[OF p(2,3)]] run None by simp
      qed
    qed
  qed
qed

section \<open>The native seam: lemmas\<close>

text \<open>What an attempt is whose native callback did not decline.\<close>

definition native_served ::
    "('v, 'q, 'x) call_env \<Rightarrow> call_config \<Rightarrow> string \<Rightarrow> 'v native_outcome \<Rightarrow> nat \<Rightarrow> 'x \<Rightarrow> ('v, 'x) call_state \<Rightarrow>
     (go_error option + 'v call_result) \<times> ('v, 'x) call_state" where
  "native_served env config provider oc hb y s =
     (if no_Disposition oc = NativeCallSucceeded
      then Inr \<lparr>cr_final = no_FinalResult oc,
             cr_raw = (if cc_NeedsRaw config then no_Raw oc else []),
             cr_reasoning = (if cc_NeedsRaw config then no_Reasoning oc else []),
             cr_winnerClient = [], cr_winnerProvider = provider, cr_winnerPath = ''buildrequest'',
             cr_winnerEngine = allowedWinnerEngine (no_WinnerEngine oc)\<rparr>
      else if no_Disposition oc = NativeCallFailed
      then Inl (newRawError (Some (case no_Err oc of None \<Rightarrow> errNativeCallFailedNil | Some e \<Rightarrow> e)) (no_Raw oc))
      else Inl (Some (Err (''buildrequest: native call attempt returned unknown disposition '' @
             itoa (int (no_Disposition oc))))),
      with_heartbeats env config hb y s)"

lemma tryOneChild_claimed:
  assumes "ce_native env = Some native" "cc_NativeAttemptEnabled config"
    and "native (native_call_attempt env config provider client) (cl_ext s) = (oc, hb, y)"
    and "no_Disposition oc \<noteq> NativeCallDeclined"
  shows "tryOneChild env config provider client s = native_served env config provider oc hb y s"
  using assms by (simp add: tryOneChild_def native_served_def Let_def)

lemma native_served_cases:
  "snd (native_served env config provider oc hb y s) = with_heartbeats env config hb y s \<and>
   (case fst (native_served env config provider oc hb y s) of
      Inr w \<Rightarrow> no_Disposition oc = NativeCallSucceeded \<and> cr_final w = no_FinalResult oc
    | Inl err \<Rightarrow> no_Disposition oc \<noteq> NativeCallSucceeded \<and> err \<noteq> None)"
  by (auto simp: native_served_def newRawError_def)

text \<open>The signals use the channel and the context only.\<close>

lemma with_heartbeats_cong:
  assumes "ce_send env = ce_send env'" "ce_trysend env = ce_trysend env'"
  shows "with_heartbeats env config n y s = with_heartbeats env' config n y s"
proof -
  have em: "emitPlannedMetadata env config = emitPlannedMetadata env' config"
    by (intro ext) (cases "cc_MetadataPlan config"; simp add: emitPlannedMetadata_def Let_def assms)
  have "sendHeartbeat env config = sendHeartbeat env' config"
    by (intro ext) (simp add: sendHeartbeat_def em assms)
  then show ?thesis by (simp add: with_heartbeats_def)
qed

section \<open>Dispatch of a resolved plan\<close>

lemma validate_children_None:
  "validate_children config chain = None \<longleftrightarrow>
     (\<forall>c \<in> set chain. gomap_flag (cc_LegacyChildren config) c \<or>
        (gomap_str (cc_ClientProviders config) c \<noteq> [] \<and>
         IsCallProviderSupported (gomap_str (cc_ClientProviders config) c)))"
  by (induction config chain rule: validate_children.induct) (auto simp: Let_def)

text \<open>The generated code of a method copies the resolution into the configuration of the run; this stands for it.\<close>

definition config_of_plan :: "call_config \<Rightarrow> fallback_resolution \<Rightarrow> call_config" where
  "config_of_plan base res = base\<lparr>cc_FallbackChain := fr_Chain res, cc_ClientProviders := fr_Providers res,
     cc_LegacyChildren := fr_LegacyChildren res, cc_FallbackTargets := fr_Targets res\<rparr>"

section \<open>Properties\<close>

definition demo_exec :: "nat exec_env" where
  "demo_exec = \<lparr>ctx_Err = \<lambda>_. None, wait_timer = \<lambda>_ w. (None, w), pow_scaled = \<lambda>d _ _. FFin d 0\<rparr>"

text \<open>An environment in which the first request fails and later ones succeed; the external state
  counts the requests sent.\<close>

definition demo_call_env :: "(string, string, nat) call_env" where
  "demo_call_env = \<lparr>ce_exec = demo_exec,
     ce_buildRequest = \<lambda>client x. (Inr client, x),
     ce_execute = \<lambda>q x. (if x = 0 then Inl (Err ''503'')
        else Inr \<lparr>hr_StatusCode = 200, hr_Borrowed = None, hr_Bytes = None, hr_Body = q\<rparr>, 1, Suc x),
     ce_extractBorrowed = None, ce_extractBytes = None,
     ce_extract = \<lambda>p body r. Inr (body, body, []),
     ce_parseFinal = \<lambda>t x. (Inr (Some t), x),
     ce_native = None, ce_shadow = \<lambda>_ _ x. x,
     ce_legacy = Some (\<lambda>c p r x. (Inl (Err ''legacy''), 0, Suc x)),
     ce_send = \<lambda>x. (True, x), ce_trysend = \<lambda>x. (True, x), ce_now = \<lambda>x. int x\<rparr>"

definition demo_config :: call_config where
  "demo_config = \<lparr>cc_Provider = ''openai'', cc_RetryPolicy = Some demo_policy, cc_NeedsRaw = False,
     cc_IncludeReasoning = False, cc_FallbackChain = [], cc_ClientOverride = ''A'', cc_ClientProviders = [],
     cc_LegacyChildren = [], cc_FallbackTargets = [],
     cc_MetadataPlan = Some (newPlanBase ''buildrequest'' ''A'' (Some demo_policy) ''request''),
     cc_NewMetadataResult = True, cc_NativeAttemptEnabled = False, cc_PlannedEngine = []\<rparr>"

text \<open>C1: (invariant) For every environment, the events of a unary run are, in this order: the planned
  metadata once, as the first event; at most one heartbeat; then one error, the one that the retries
  ended with, or one final, which is preceded by the outcome metadata exactly when metadata is configured. An event is missing only if the channel or the context
  refused it, and the result also if the configuration was rejected or the attempt count overflowed. The final comes
  from a winner of the run: the retry loop made attempt \<open>a\<close>, the children before the winner failed in the order of
  the chain, and the winner is what the next child's dispatch returned. The final has that winner's value, with its
  raw text and reasoning exactly if raw was asked for; the outcome names the same winner's client, provider, path and
  engine, with \<open>a\<close> as the retry count; and the events before it are those sent when the winner returned.\<close>

theorem call_events:
  assumes "RunCallOrchestration env config x = (res, s)"
  shows "call_trace env config x (cl_out s)"
  using run_trace[OF assms] by blast

theorem call_events_witness:
  "call_trace demo_call_env demo_config 0 (cl_out (snd (RunCallOrchestration demo_call_env demo_config 0))) \<and>
   length (cl_out (snd (RunCallOrchestration demo_call_env demo_config 0))) = 4"
proof -
  obtain res s where r: "RunCallOrchestration demo_call_env demo_config 0 = (res, s)" by force
  have "length (cl_out (snd (RunCallOrchestration demo_call_env demo_config 0))) = 4" by code_simp
  then show ?thesis using call_events[OF r] r by simp
qed

text \<open>C4: (error) A unary run panics only if its retry policy allows the largest \<^verbatim>\<open>int\<close> number of
  retries; in that case, once the configuration is accepted, it always panics, without having sent
  any request: the attempt count of \<^verbatim>\<open>retry.Execute\<close> overflows, no attempt is made, and the nil result
  fails the type assertion.\<close>

theorem call_panics_iff_overflow:
  assumes "call_validate env config = None" "\<And>p. cc_RetryPolicy config = Some p \<Longrightarrow> po_MaxRetries p \<le> max_int64"
  shows "fst (RunCallOrchestration env config x) = Panicked \<longleftrightarrow>
    (\<exists>p. cc_RetryPolicy config = Some p \<and> po_MaxRetries p = max_int64)"
proof
  assume "fst (RunCallOrchestration env config x) = Panicked"
  then show "\<exists>p. cc_RetryPolicy config = Some p \<and> po_MaxRetries p = max_int64"
    using run_trace[of env config x Panicked "snd (RunCallOrchestration env config x)"] assms(2)
    by (metis antisym prod.collapse)
next
  assume "\<exists>p. cc_RetryPolicy config = Some p \<and> po_MaxRetries p = max_int64"
  then obtain p where p: "cc_RetryPolicy config = Some p" "po_MaxRetries p = max_int64" by blast
  show "fst (RunCallOrchestration env config x) = Panicked"
    by (simp add: RunCallOrchestration_def Let_def assms(1) p Execute_overflow[OF p(2)])
qed

theorem call_panics_iff_overflow_witness:
  "fst (RunCallOrchestration demo_call_env
     (demo_config\<lparr>cc_RetryPolicy := Some (demo_policy\<lparr>po_MaxRetries := max_int64\<rparr>)\<rparr>) 0) = Panicked"
proof -
  let ?c = "demo_config\<lparr>cc_RetryPolicy := Some (demo_policy\<lparr>po_MaxRetries := max_int64\<rparr>)\<rparr>"
  have v: "call_validate demo_call_env ?c = None" by code_simp
  show ?thesis using call_panics_iff_overflow[OF v, of 0] by (simp add: demo_config_def)
qed

text \<open>C2: (safety) A fallback plan that was resolved against the unary support table is accepted by
  the unary orchestrator whenever legacy dispatch is available, and each child that is not legacy is
  dispatched with the provider of the client it is dispatched to.\<close>

theorem resolved_plan_dispatches:
  assumes "ResolveFallbackChainPlanForClient intn reg cn fcs cps (Some IsCallProviderSupported) adv st
      = (Inr (Some res), st')" "fr_Chain res \<noteq> []" "ce_legacy env \<noteq> None"
  shows "call_validate env (config_of_plan base res) = None \<and>
    (\<forall>child \<in> set (fr_Chain res). \<not> gomap_flag (fr_LegacyChildren res) child \<longrightarrow>
       gomap_str (cc_ClientProviders (config_of_plan base res)) child =
       ResolveClientProvider reg (dispatch_target (config_of_plan base res) child) cps)"
proof -
  have ok: "plan_ok reg cps (Some IsCallProviderSupported) res" using plan_result_ok[OF assms(1,2)] by blast
  have prov: "gomap_str (fr_Providers res) c = ResolveClientProvider reg (dispatch_target (config_of_plan base res) c) cps \<and>
      gomap_str (fr_Providers res) c \<noteq> [] \<and> IsCallProviderSupported (gomap_str (fr_Providers res) c)"
    if c: "c \<in> set (fr_Chain res)" "\<not> gomap_flag (fr_LegacyChildren res) c" for c
  proof -
    have k: "child_ok reg cps (Some IsCallProviderSupported) (fr_Providers res) (fr_LegacyChildren res) (fr_Targets res) c"
      using ok c(1) by (simp add: plan_ok_def)
    show ?thesis
    proof (cases "map_of (fr_Targets res) c")
      case None
      then show ?thesis using k c(2)
        by (auto simp: child_ok_def gomap_str_def dispatch_target_def config_of_plan_def unsupported_def)
    next
      case (Some leaf)
      then show ?thesis using k
        by (auto simp: child_ok_def gomap_str_def dispatch_target_def config_of_plan_def
            isCentralizationEligible_def split: if_splits)
    qed
  qed
  then have "call_validate env (config_of_plan base res) = None"
    using assms(2,3) by (auto simp: call_validate_def validate_children_None config_of_plan_def)
  then show ?thesis using prov by (simp add: config_of_plan_def)
qed

theorem resolved_plan_dispatches_witness:
  "call_validate demo_call_env (config_of_plan demo_config demo_plan) = None"
proof -
  have r: "ResolveFallbackChainPlanForClient (\<lambda>st n. (0, st)) None ''F'' demo_fb_chains demo_fb_providers
      (Some IsCallProviderSupported) None () = (Inr (Some demo_plan), ())" by code_simp
  have c: "fr_Chain demo_plan \<noteq> []" by (simp add: demo_plan_def)
  show ?thesis
    using resolved_plan_dispatches[OF r c, of demo_call_env demo_config] by (simp add: demo_call_env_def)
qed

text \<open>C3: (safety) There is no second send after the native seam claimed a child. When the callback answers anything
  but a decline, with the outcome \<open>oc\<close> in the state \<open>y\<close>, the attempt ends there: the state is the one that the
  callback left, with its heartbeats and no more, a success serves the callback's value, and everything else is an
  error. The callback may build the ordinary request itself, with the builder it is given; outside of it the
  builder, the HTTP client, the extractors and the final parser are not used, so the attempt is the same whatever
  they would have done.\<close>

theorem native_claim_no_second_send:
  assumes "ce_native env = Some native" "cc_NativeAttemptEnabled config"
    and "native (native_call_attempt env config provider client) (cl_ext s) = (oc, hb, y)"
    and "no_Disposition oc \<noteq> NativeCallDeclined"
  shows "snd (tryOneChild env config provider client s) = with_heartbeats env config hb y s \<and>
    (case fst (tryOneChild env config provider client s) of
       Inr w \<Rightarrow> no_Disposition oc = NativeCallSucceeded \<and> cr_final w = no_FinalResult oc
     | Inl err \<Rightarrow> no_Disposition oc \<noteq> NativeCallSucceeded \<and> err \<noteq> None) \<and>
    tryOneChild (env\<lparr>ce_native := Some (\<lambda>att. native (att\<lparr>na_BuildBAMLRequest := ce_buildRequest env client\<rparr>)),
        ce_buildRequest := b, ce_execute := ex, ce_extractBorrowed := e1, ce_extractBytes := e2, ce_extract := e3,
        ce_parseFinal := pf\<rparr>) config provider client s = tryOneChild env config provider client s"
proof -
  let ?env = "env\<lparr>ce_native := Some (\<lambda>att. native (att\<lparr>na_BuildBAMLRequest := ce_buildRequest env client\<rparr>)),
        ce_buildRequest := b, ce_execute := ex, ce_extractBorrowed := e1, ce_extractBytes := e2, ce_extract := e3,
        ce_parseFinal := pf\<rparr>"
  have att: "(native_call_attempt ?env config provider client)\<lparr>na_BuildBAMLRequest := ce_buildRequest env client\<rparr> =
      native_call_attempt env config provider client" by (simp add: native_call_attempt_def)
  have nat: "native_served env config provider oc hb y s = native_served ?env config provider oc hb y s"
    by (simp add: native_served_def with_heartbeats_cong[of ?env env])
  have one: "tryOneChild env config provider client s = native_served env config provider oc hb y s"
    using tryOneChild_claimed[OF assms] .
  moreover have "tryOneChild ?env config provider client s = native_served ?env config provider oc hb y s"
    by (rule tryOneChild_claimed[where native = "\<lambda>att. native (att\<lparr>na_BuildBAMLRequest := ce_buildRequest env client\<rparr>)",
          OF _ assms(2) _ assms(4)]) (simp_all add: att assms(3))
  ultimately show ?thesis using native_served_cases[of env config provider oc hb y s] nat by simp
qed

text \<open>A callback that builds the ordinary request to compare it with its own, sends its own and fails.\<close>

definition demo_native :: "(string, nat) NativeCallAttempt \<Rightarrow> nat \<Rightarrow> string native_outcome \<times> nat \<times> nat" where
  "demo_native att x =
     (case na_BuildBAMLRequest att x of
        (Inr q, x) \<Rightarrow> (if q = na_ClientOverride att then FailNativeCall None else DeclineNativeCall, 1, Suc x)
      | (Inl e, x) \<Rightarrow> (DeclineNativeCall, 0, x))"

theorem native_claim_no_second_send_witness:
  "fst (tryOneChild (demo_call_env\<lparr>ce_native := Some demo_native\<rparr>)
      (demo_config\<lparr>cc_NativeAttemptEnabled := True\<rparr>) ''openai'' ''A''
      \<lparr>cl_out = [], cl_heartbeat = False, cl_planned = True, cl_finalAttempt = 0, cl_ext = 0\<rparr>)
     = Inl (Some errNativeCallFailedNil) \<and>
   snd (tryOneChild (demo_call_env\<lparr>ce_native := Some demo_native\<rparr>)
      (demo_config\<lparr>cc_NativeAttemptEnabled := True\<rparr>) ''openai'' ''A''
      \<lparr>cl_out = [], cl_heartbeat = False, cl_planned = True, cl_finalAttempt = 0, cl_ext = 0\<rparr>)
     = \<lparr>cl_out = [EvHeartbeat], cl_heartbeat = True, cl_planned = True, cl_finalAttempt = 0, cl_ext = 1\<rparr>"
proof -
  let ?env = "demo_call_env\<lparr>ce_native := Some demo_native\<rparr>"
  let ?c = "demo_config\<lparr>cc_NativeAttemptEnabled := True\<rparr>"
  let ?s = "\<lparr>cl_out = [], cl_heartbeat = False, cl_planned = True, cl_finalAttempt = 0, cl_ext = 0 :: nat\<rparr>"
  have r: "fst (tryOneChild ?env ?c ''openai'' ''A'' ?s) = Inl (Some errNativeCallFailedNil)" by code_simp
  have n: "demo_native (native_call_attempt ?env ?c ''openai'' ''A'') (cl_ext ?s) = (FailNativeCall None, 1, 1)"
    by (simp add: demo_native_def native_call_attempt_def demo_call_env_def)
  have "snd (tryOneChild ?env ?c ''openai'' ''A'' ?s) = with_heartbeats ?env ?c 1 1 ?s"
    using native_claim_no_second_send[of ?env demo_native ?c, OF _ _ n] by (simp add: FailNativeCall_def NativeCallFailed_def NativeCallDeclined_def)
  moreover have "with_heartbeats ?env ?c 1 1 ?s =
      \<lparr>cl_out = [EvHeartbeat], cl_heartbeat = True, cl_planned = True, cl_finalAttempt = 0, cl_ext = 1\<rparr>"
    by (simp add: with_heartbeats_def sendHeartbeat_def emitPlannedMetadata_def demo_call_env_def demo_config_def)
  ultimately show ?thesis using r by simp
qed

end
