(* ===== verification/Sse_Client.thy ===== *)
theory Sse_Client
  imports Go_Errors
begin

text \<open>
  \<^verbatim>\<open>sseclient/sseclient.go\<close>: the parser of server-sent events, with the line splitter of
  \<^verbatim>\<open>bufio.Scanner\<close> that it runs on. A reader is the bytes that it delivers and the error that ends it,
  if it does not end with EOF.

  The two loops of the file are \<open>scan_loop\<close>, which sends the events on a channel, and
  \<open>ScanEvents_loop\<close>, which calls a function. Both work on an external state \<open>'x\<close> that the reader, the
  context, the channel and the function change.
\<close>

section \<open>Lines\<close>

definition sseScannerMaxTokenSize :: int where
  "sseScannerMaxTokenSize = 1024 * 1024"

abbreviation LF :: char where "LF \<equiv> CHR 0x0A"
abbreviation CR :: char where "CR \<equiv> CHR 0x0D"

text \<open>\<^verbatim>\<open>bytes.TrimRight(line, "\r")\<close> and the single \<^verbatim>\<open>\r\<close> that \<^verbatim>\<open>bufio.ScanLines\<close> drops.\<close>

definition trim_right_cr :: "string \<Rightarrow> string" where
  "trim_right_cr line = rev (dropWhile (\<lambda>c. c = CR) (rev line))"

definition dropCR :: "string \<Rightarrow> string" where
  "dropCR line = (if last_byte_is line CR then butlast line else line)"

text \<open>The tokens of a \<^verbatim>\<open>bufio.Scanner\<close> that splits lines, and whether it gave up on a line that fills its
  buffer. The last line need not be terminated.\<close>

function scan_tokens :: "int \<Rightarrow> string \<Rightarrow> string list \<times> bool" where
  "scan_tokens maxTokenSize data =
     (if data = [] then ([], False)
      else (let line = takeWhile (\<lambda>c. c \<noteq> LF) data
            in if int (length line) \<ge> maxTokenSize then ([], True)
               else (case scan_tokens maxTokenSize (drop (Suc (length line)) data) of
                       (lines, long) \<Rightarrow> (dropCR line # lines, long))))"
  by pat_completeness auto

termination
  by (relation "measure (\<lambda>(m, data). length data)") auto

declare scan_tokens.simps [simp del]

record reader =
  rd_data :: string
  rd_err :: "go_error option"

definition ErrTooLong :: go_error where
  "ErrTooLong = ErrVar ''bufio.ErrTooLong''"

definition ErrStopScan :: go_error where
  "ErrStopScan = ErrVar ''sseclient.ErrStopScan''"

definition scanner_Err :: "reader \<Rightarrow> go_error option" where
  "scanner_Err r = (if snd (scan_tokens sseScannerMaxTokenSize (rd_data r)) then Some ErrTooLong else rd_err r)"

definition scanner_lines :: "reader \<Rightarrow> string list" where
  "scanner_lines r = fst (scan_tokens sseScannerMaxTokenSize (rd_data r))"

section \<open>Fields\<close>

definition parseSSELine :: "string \<Rightarrow> string \<times> string" where
  "parseSSELine line =
     (if \<not> contains_byte line (CHR '':'') then (line, [])
      else (let field = takeWhile (\<lambda>c. c \<noteq> CHR '':'') line;
                value = drop (Suc (length field)) line
            in (field, if first_byte_is value (CHR '' '') then tl value else value)))"

record sse_event =
  ev_Type :: string
  ev_Data :: string
  ev_ID :: string

text \<open>The variables of the loops.\<close>

record sse_state =
  ss_type :: string
  ss_data :: string
  ss_hasData :: bool
  ss_id :: string

definition sse_reset :: sse_state where
  "sse_reset = \<lparr>ss_type = [], ss_data = [], ss_hasData = False, ss_id = []\<rparr>"

definition sse_current :: "sse_state \<Rightarrow> sse_event" where
  "sse_current st = \<lparr>ev_Type = ss_type st, ev_Data = ss_data st, ev_ID = ss_id st\<rparr>"

definition sse_field :: "sse_state \<Rightarrow> string \<Rightarrow> sse_state" where
  "sse_field st line =
     (if first_byte_is line (CHR '':'') then st
      else (case parseSSELine line of (field, value) \<Rightarrow>
              if field = ''data''
              then st\<lparr>ss_data := (if ss_hasData st then ss_data st @ [LF] else ss_data st) @ value, ss_hasData := True\<rparr>
              else if field = ''event'' then st\<lparr>ss_type := value\<rparr>
              else if field = ''id'' then (if contains_byte value (CHR 0x00) then st else st\<lparr>ss_id := value\<rparr>)
              else st))"

section \<open>The loops\<close>

text \<open>\<open>se_read\<close> is what happens while the scanner reads, \<open>se_ctx\<close> a look at the context.\<close>

record 'x scan_env =
  se_read :: "'x \<Rightarrow> 'x"
  se_ctx :: "'x \<Rightarrow> go_error option \<times> 'x"

text \<open>\<open>send\<close> is the select of the channel send and the end of the context: no error means that the event
  was sent.\<close>

fun scan_loop ::
    "'x scan_env \<Rightarrow> (sse_event \<Rightarrow> 'x \<Rightarrow> go_error option \<times> 'x) \<Rightarrow> go_error option \<Rightarrow> string list \<Rightarrow> sse_state \<Rightarrow> 'x \<Rightarrow>
     go_error option \<times> 'x" where
  "scan_loop env send serr [] st x =
     (let x = se_read env x
      in case serr of
           Some err \<Rightarrow> (Some err, x)
         | None \<Rightarrow> if ss_hasData st then send (sse_current st) x else (None, x))"
| "scan_loop env send serr (token # lines) st x =
     (case se_ctx env (se_read env x) of
        (Some err, x) \<Rightarrow> (Some err, x)
      | (None, x) \<Rightarrow>
          (let line = trim_right_cr token
           in if line = [] then
                (if ss_hasData st
                 then (case send (sse_current st) x of
                         (Some err, x) \<Rightarrow> (Some err, x)
                       | (None, x) \<Rightarrow> scan_loop env send serr lines sse_reset x)
                 else scan_loop env send serr lines sse_reset x)
              else scan_loop env send serr lines (sse_field st line) x))"

definition scan ::
    "'x scan_env \<Rightarrow> (sse_event \<Rightarrow> 'x \<Rightarrow> go_error option \<times> 'x) \<Rightarrow> reader \<Rightarrow> 'x \<Rightarrow> go_error option \<times> 'x" where
  "scan env send r x = scan_loop env send (scanner_Err r) (scanner_lines r) sse_reset x"

definition emit ::
    "'x scan_env \<Rightarrow> (sse_event \<Rightarrow> 'x \<Rightarrow> go_error option \<times> 'x) \<Rightarrow> sse_state \<Rightarrow> 'x \<Rightarrow> go_error option \<times> 'x" where
  "emit env fn st x =
     (case se_ctx env x of
        (Some err, x) \<Rightarrow> (Some err, x)
      | (None, x) \<Rightarrow> fn (sse_current st) x)"

text \<open>The result of an \<^verbatim>\<open>emit\<close> that failed: \<^verbatim>\<open>ErrStopScan\<close> ends the scan without an error.\<close>

definition stop_result :: "go_error \<Rightarrow> go_error option" where
  "stop_result err = (if is_error_var err ''sseclient.ErrStopScan'' then None else Some err)"

fun ScanEvents_loop ::
    "'x scan_env \<Rightarrow> (sse_event \<Rightarrow> 'x \<Rightarrow> go_error option \<times> 'x) \<Rightarrow> go_error option \<Rightarrow> string list \<Rightarrow> sse_state \<Rightarrow> 'x \<Rightarrow>
     go_error option \<times> 'x" where
  "ScanEvents_loop env fn serr [] st x =
     (let x = se_read env x
      in case serr of
           Some err \<Rightarrow> (Some err, x)
         | None \<Rightarrow>
             if ss_hasData st
             then (case emit env fn st x of
                     (Some err, x) \<Rightarrow> (stop_result err, x)
                   | (None, x) \<Rightarrow> (None, x))
             else (None, x))"
| "ScanEvents_loop env fn serr (token # lines) st x =
     (case se_ctx env (se_read env x) of
        (Some err, x) \<Rightarrow> (Some err, x)
      | (None, x) \<Rightarrow>
          (let line = trim_right_cr token
           in if line = [] then
                (if ss_hasData st
                 then (case emit env fn st x of
                         (Some err, x) \<Rightarrow> (stop_result err, x)
                       | (None, x) \<Rightarrow> ScanEvents_loop env fn serr lines sse_reset x)
                 else ScanEvents_loop env fn serr lines sse_reset x)
              else ScanEvents_loop env fn serr lines (sse_field st line) x))"

definition ScanEvents ::
    "'x scan_env \<Rightarrow> (sse_event \<Rightarrow> 'x \<Rightarrow> go_error option \<times> 'x) \<Rightarrow> reader \<Rightarrow> 'x \<Rightarrow> go_error option \<times> 'x" where
  "ScanEvents env fn r x = ScanEvents_loop env fn (scanner_Err r) (scanner_lines r) sse_reset x"

text \<open>What reading, the context check and the function keep holds after a scan.\<close>

lemma ScanEvents_invariant:
  assumes "ScanEvents env fn r x = (res, x')" "J x"
    and read: "\<And>x. J x \<Longrightarrow> J (se_read env x)"
    and ctx: "\<And>x e x'. J x \<Longrightarrow> se_ctx env x = (e, x') \<Longrightarrow> J x'"
    and fn: "\<And>ev x e x'. J x \<Longrightarrow> fn ev x = (e, x') \<Longrightarrow> J x'"
  shows "J x'"
proof -
  have em: "J (snd (emit env fn st x))" if "J x" for st x
  proof (cases "se_ctx env x")
    case (Pair e y)
    then have "J y" using ctx that by blast
    then show ?thesis using Pair fn[of y] by (cases e; cases "fn (sse_current st) y") (simp_all add: emit_def)
  qed
  have "J (snd (ScanEvents_loop env fn serr ls st x))" if "J x" for serr ls st x
    using that
  proof (induction ls arbitrary: st x)
    case Nil
    then have "J (se_read env x)" by (rule read)
    with em[OF this, of st] show ?case
      by (cases "emit env fn st (se_read env x)"; cases "fst (emit env fn st (se_read env x))") (simp_all add: Let_def split: option.split)
  next
    case (Cons token ls)
    obtain e y where c: "se_ctx env (se_read env x) = (e, y)" by force
    then have y: "J y" using ctx read Cons.prems by blast
    obtain e2 z where z: "emit env fn st y = (e2, z)" by force
    have "J z" using em[OF y, of st] z by simp
    then show ?case using c y z Cons.IH by (cases e; cases e2) (simp_all add: Let_def)
  qed
  from this[OF assms(2)] assms(1) show ?thesis unfolding ScanEvents_def by (metis snd_conv)
qed

section \<open>The events of a body\<close>

text \<open>The reference: the lines fall into blocks at the blank lines, and a block with a data line is an
  event, made of its data lines and the last of its other fields.\<close>

fun blocks :: "string list \<Rightarrow> string list list" where
  "blocks [] = [[]]"
| "blocks (l # ls) =
     (if l = [] then [] # blocks ls else (case blocks ls of b # bs \<Rightarrow> (l # b) # bs | [] \<Rightarrow> [[l]]))"

definition field_values :: "string \<Rightarrow> string list \<Rightarrow> string list" where
  "field_values field block =
     map (snd \<circ> parseSSELine) (filter (\<lambda>l. \<not> first_byte_is l (CHR '':'') \<and> fst (parseSSELine l) = field) block)"

fun join_lf :: "string list \<Rightarrow> string" where
  "join_lf [] = []"
| "join_lf [v] = v"
| "join_lf (v # vs) = v @ LF # join_lf vs"

definition last_or_empty :: "string list \<Rightarrow> string" where
  "last_or_empty vs = (if vs = [] then [] else last vs)"

definition block_event :: "string list \<Rightarrow> sse_event list" where
  "block_event block =
     (if field_values ''data'' block = [] then []
      else [\<lparr>ev_Type = last_or_empty (field_values ''event'' block),
             ev_Data = join_lf (field_values ''data'' block),
             ev_ID = last_or_empty (filter (\<lambda>v. \<not> contains_byte v (CHR 0x00)) (field_values ''id'' block))\<rparr>])"

definition sse_events :: "reader \<Rightarrow> sse_event list" where
  "sse_events r =
     (let bs = blocks (map trim_right_cr (scanner_lines r))
      in concat (map block_event (butlast bs)) @ (if scanner_Err r = None then block_event (last bs) else []))"

lemma blocks_neq_Nil [simp]: "blocks ls \<noteq> []"
  by (induction ls) (auto split: list.splits)

text \<open>The variables of the loops after the lines of a block so far.\<close>

definition block_state :: "string list \<Rightarrow> sse_state" where
  "block_state block =
     \<lparr>ss_type = last_or_empty (field_values ''event'' block),
      ss_data = join_lf (field_values ''data'' block),
      ss_hasData = (field_values ''data'' block \<noteq> []),
      ss_id = last_or_empty (filter (\<lambda>v. \<not> contains_byte v (CHR 0x00)) (field_values ''id'' block))\<rparr>"

lemma join_lf_snoc: "join_lf (vs @ [v]) = (if vs = [] then v else join_lf vs @ LF # v)"
  by (induction vs rule: join_lf.induct) auto

lemma field_values_snoc:
  "field_values field (block @ [l]) = field_values field block @
     (if \<not> first_byte_is l (CHR '':'') \<and> fst (parseSSELine l) = field then [snd (parseSSELine l)] else [])"
  by (simp add: field_values_def)

lemma sse_field_block: "sse_field (block_state block) l = block_state (block @ [l])"
  by (cases "parseSSELine l")
    (auto simp: sse_field_def block_state_def field_values_snoc join_lf_snoc last_or_empty_def)

lemma block_state_Nil: "block_state [] = sse_reset"
  by (simp add: block_state_def sse_reset_def field_values_def last_or_empty_def)

lemma block_event_state:
  "block_event block = (if ss_hasData (block_state block) then [sse_current (block_state block)] else [])"
  by (simp add: block_event_def block_state_def sse_current_def)

text \<open>The events that the rest of the lines makes, after the lines of the open block.\<close>

definition rest_events :: "go_error option \<Rightarrow> string list \<Rightarrow> string list \<Rightarrow> sse_event list" where
  "rest_events serr block ls =
     (let bs = (case blocks ls of b # bs \<Rightarrow> (block @ b) # bs | [] \<Rightarrow> [])
      in concat (map block_event (butlast bs)) @ (if serr = None then block_event (last bs) else []))"

lemma rest_events_Nil: "rest_events serr block [] = (if serr = None then block_event block else [])"
  by (simp add: rest_events_def)

lemma rest_events_blank: "rest_events serr block ([] # ls) = block_event block @ rest_events serr [] ls"
  by (cases "blocks ls") (auto simp: rest_events_def)

lemma rest_events_line: "l \<noteq> [] \<Longrightarrow> rest_events serr block (l # ls) = rest_events serr (block @ [l]) ls"
  by (cases "blocks ls") (auto simp: rest_events_def)

lemma rest_events_all:
  "rest_events (scanner_Err r) [] (map trim_right_cr (scanner_lines r)) = sse_events r"
  by (cases "blocks (map trim_right_cr (scanner_lines r))")
    (simp_all add: rest_events_def sse_events_def Let_def)

lemmas rest_events_simps = rest_events_Nil rest_events_blank rest_events_line

section \<open>Delivery\<close>

text \<open>The function with a log of the events that it was called with, and the environment beside the log.\<close>

definition log_fn ::
    "(sse_event \<Rightarrow> 'x \<Rightarrow> go_error option \<times> 'x) \<Rightarrow> sse_event \<Rightarrow> sse_event list \<times> 'x \<Rightarrow> go_error option \<times> sse_event list \<times> 'x" where
  "log_fn fn ev = (\<lambda>(log, x). case fn ev x of (err, x) \<Rightarrow> (err, log @ [ev], x))"

text \<open>With the results of the calls.\<close>

type_synonym calls = "(sse_event \<times> go_error option) list"

definition log_calls ::
    "(sse_event \<Rightarrow> 'x \<Rightarrow> go_error option \<times> 'x) \<Rightarrow> sse_event \<Rightarrow> calls \<times> 'x \<Rightarrow> go_error option \<times> calls \<times> 'x" where
  "log_calls fn ev = (\<lambda>(log, x). case fn ev x of (res, x) \<Rightarrow> (res, log @ [(ev, res)], x))"

definition log_env :: "'x scan_env \<Rightarrow> ('l \<times> 'x) scan_env" where
  "log_env env = \<lparr>se_read = \<lambda>(log, x). (log, se_read env x),
     se_ctx = \<lambda>(log, x). case se_ctx env x of (err, x) \<Rightarrow> (err, log, x)\<rparr>"

lemma log_env_simps [simp]:
  "se_read (log_env env) (log, x) = (log, se_read env x)"
  "se_ctx (log_env env) (log, x) = (fst (se_ctx env x), log, snd (se_ctx env x))"
  by (simp_all add: log_env_def case_prod_beta)

lemma emit_log:
  "emit (log_env env) (log_calls fn) st (log, x) =
     (case se_ctx env x of (Some err, x) \<Rightarrow> (Some err, log, x)
      | (None, x) \<Rightarrow> (fst (fn (sse_current st) x), log @ [(sse_current st, fst (fn (sse_current st) x))], snd (fn (sse_current st) x)))"
  by (auto simp: emit_def log_calls_def case_prod_beta split: option.split)

text \<open>How a scan ends, with the result \<open>res\<close> in the state \<open>x'\<close>: it has called the function on all the events and
  returns the error of the reader, if any; or the last call failed, and it returns that error, or none for the sentinel
  that stops a scan; or the context has ended, and it returns the context's error. No call but the last has failed.\<close>

definition no_call_failed :: "calls \<Rightarrow> bool" where
  "no_call_failed calls \<longleftrightarrow> list_all (\<lambda>c. snd c = None) calls"

definition delivered :: "'x scan_env \<Rightarrow> go_error option \<Rightarrow> sse_event list \<Rightarrow> calls \<Rightarrow> go_error option \<Rightarrow> 'x \<Rightarrow> bool" where
  "delivered env serr events calls res x' \<longleftrightarrow>
     prefix (map fst calls) events \<and>
     (map fst calls = events \<and> no_call_failed calls \<and> res = serr \<or>
      (\<exists>before ev err. calls = before @ [(ev, Some err)] \<and> no_call_failed before \<and> res = stop_result err) \<or>
      no_call_failed calls \<and> (\<exists>x err. se_ctx env x = (Some err, x') \<and> res = Some err))"

lemma delivered_cons:
  assumes "delivered env serr events calls res x'"
  shows "delivered env serr (ev # events) ((ev, None) # calls) res x'"
  using assms unfolding delivered_def
proof (elim conjE disjE exE)
  fix before ev' err assume "prefix (map fst calls) events" "calls = before @ [(ev', Some err)]" "no_call_failed before" "res = stop_result err"
  then show "prefix (map fst ((ev, None) # calls)) (ev # events) \<and>
      (map fst ((ev, None) # calls) = ev # events \<and> no_call_failed ((ev, None) # calls) \<and> res = serr \<or>
       (\<exists>before ev' err. (ev, None) # calls = before @ [(ev', Some err)] \<and> no_call_failed before \<and> res = stop_result err) \<or>
       no_call_failed ((ev, None) # calls) \<and> (\<exists>x err. se_ctx env x = (Some err, x') \<and> res = Some err))"
    by (intro conjI disjI2 disjI1 exI[of _ "(ev, None) # before"] exI[of _ ev'] exI[of _ err]) (simp_all add: no_call_failed_def)
qed (auto simp: no_call_failed_def)

text \<open>A context error is not the sentinel that stops a scan.\<close>

definition ctx_lawful :: "'x scan_env \<Rightarrow> bool" where
  "ctx_lawful env \<longleftrightarrow> (\<forall>x err x'. se_ctx env x = (Some err, x') \<longrightarrow> \<not> is_error_var err ''sseclient.ErrStopScan'')"

lemma emit_cases:
  assumes "ctx_lawful env"
  obtains (ended) err x' where "emit (log_env env) (log_calls fn) st (log, x) = (Some err, log, x')" "stop_result err = Some err"
      "se_ctx env x = (Some err, x')"
  | (stopped) err x' where "emit (log_env env) (log_calls fn) st (log, x) = (Some err, log @ [(sse_current st, Some err)], x')"
  | (went) x' where "emit (log_env env) (log_calls fn) st (log, x) = (None, log @ [(sse_current st, None)], x')"
proof -
  obtain e1 x1 where c: "se_ctx env x = (e1, x1)" by force
  obtain e2 x2 where f: "fn (sse_current st) x1 = (e2, x2)" by force
  show thesis
  proof (cases e1)
    case (Some err)
    then have "stop_result err = Some err" using assms c by (auto simp: ctx_lawful_def stop_result_def)
    then show thesis using ended[of err x1] Some c by (simp add: emit_log)
  next
    case None
    then show thesis using c f stopped[of _ x2] went[of x2] by (cases e2) (simp_all add: emit_log)
  qed
qed

abbreviation traced_loop where
  "traced_loop env fn serr tokens block l \<equiv> ScanEvents_loop (log_env env) (log_calls fn) serr tokens (block_state block) l"

lemma ScanEvents_loop_end:
  assumes "ctx_lawful env"
  shows "\<exists>calls res x'. traced_loop env fn serr [] block (log, x) = (res, log @ calls, x') \<and>
    delivered env serr (rest_events serr block []) calls res x'"
proof (cases "serr = None \<and> ss_hasData (block_state block)")
  case True
  show ?thesis using assms
  proof (cases rule: emit_cases[of env fn "block_state block" log "se_read env x"])
    case (ended err x')
    then show ?thesis using True
      by (intro exI[of _ "[]"] exI[of _ "Some err"] exI[of _ x']) (auto simp: delivered_def rest_events_Nil block_event_state no_call_failed_def)
  next
    case (stopped err x')
    then show ?thesis using True
      by (intro exI[of _ "[(sse_current (block_state block), Some err)]"] exI[of _ "stop_result err"] exI[of _ x'])
        (auto simp: delivered_def rest_events_Nil block_event_state no_call_failed_def)
  next
    case (went x')
    then show ?thesis using True
      by (intro exI[of _ "[(sse_current (block_state block), None)]"] exI[of _ None] exI[of _ x'])
        (auto simp: delivered_def rest_events_Nil block_event_state no_call_failed_def)
  qed
next
  case False
  then show ?thesis
    by (intro exI[of _ "[]"] exI[of _ serr] exI[of _ "se_read env x"])
      (auto simp: delivered_def rest_events_Nil block_event_state no_call_failed_def split: option.splits)
qed

lemma ScanEvents_loop_delivered:
  assumes "ctx_lawful env"
  shows "\<exists>calls res x'. traced_loop env fn serr tokens block (log, x) = (res, log @ calls, x') \<and>
    delivered env serr (rest_events serr block (map trim_right_cr tokens)) calls res x'"
proof (induction tokens arbitrary: block log x)
  case Nil
  show ?case using ScanEvents_loop_end[OF assms] by simp
next
  case (Cons token tokens)
  obtain e1 x1 where c: "se_ctx env (se_read env x) = (e1, x1)" by force
  define l where "l = trim_right_cr token"
  note l = l_def[symmetric]
  consider (ctx) err where "e1 = Some err" | (line) "e1 = None" "l \<noteq> []" | (skip) "e1 = None" "l = []" "\<not> ss_hasData (block_state block)"
    | (event) "e1 = None" "l = []" "ss_hasData (block_state block)" by (cases e1) auto
  then show ?case
  proof cases
    case ctx
    then show ?thesis using c
      by (intro exI[of _ "[]"] exI[of _ "Some err"] exI[of _ x1]) (auto simp: delivered_def no_call_failed_def)
  next
    case line
    then show ?thesis using Cons.IH[of "block @ [l]" log x1] c
      by (simp add: l rest_events_line sse_field_block)
  next
    case skip
    then show ?thesis using Cons.IH[of "[]" log x1] c
      by (simp add: l rest_events_blank block_state_Nil block_event_state)
  next
    case event
    define ev where "ev = sse_current (block_state block)"
    note ev = ev_def[symmetric]
    have all: "rest_events serr block (map trim_right_cr (token # tokens)) = ev # rest_events serr [] (map trim_right_cr tokens)"
      using event by (simp add: l rest_events_blank block_event_state ev)
    from assms show ?thesis
    proof (cases rule: emit_cases[of env fn "block_state block" log x1])
      case (ended err x')
      then show ?thesis using event c
        by (intro exI[of _ "[]"] exI[of _ "Some err"] exI[of _ x']) (auto simp: l delivered_def no_call_failed_def)
    next
      case (stopped err x')
      then show ?thesis unfolding all using event c
        by (intro exI[of _ "[(ev, Some err)]"] exI[of _ "stop_result err"] exI[of _ x'])
          (auto simp: l delivered_def ev no_call_failed_def)
    next
      case (went x3)
      from Cons.IH[of "[]" "log @ [(ev, None)]" x3] obtain calls res x' where
        "ScanEvents_loop (log_env env) (log_calls fn) serr tokens sse_reset (log @ [(ev, None)], x3) = (res, (log @ [(ev, None)]) @ calls, x')"
        "delivered env serr (rest_events serr [] (map trim_right_cr tokens)) calls res x'"
        unfolding block_state_Nil by blast
      then show ?thesis unfolding all using event c went
        by (intro exI[of _ "(ev, None) # calls"] exI[of _ res] exI[of _ x']) (simp add: l delivered_cons ev)
    qed
  qed
qed

lemma ScanEvents_delivered:
  assumes "ctx_lawful env" "ScanEvents (log_env env) (log_calls fn) r ([], x) = (res, calls, x')"
  shows "delivered env (scanner_Err r) (sse_events r) calls res x'"
proof -
  obtain c res' y where "traced_loop env fn (scanner_Err r) (scanner_lines r) [] ([], x) = (res', [] @ c, y)"
    "delivered env (scanner_Err r) (rest_events (scanner_Err r) [] (map trim_right_cr (scanner_lines r))) c res' y"
    using ScanEvents_loop_delivered[OF assms(1)] by blast
  then show ?thesis using assms(2) by (simp add: ScanEvents_def block_state_Nil rest_events_all)
qed

section \<open>Printing\<close>

text \<open>What a provider writes: events, and comments that keep the connection alive.\<close>

datatype sse_item = Comment string | Message sse_event

fun split_lf :: "string \<Rightarrow> string list" where
  "split_lf [] = [[]]"
| "split_lf (c # s) =
     (if c = LF then [] # split_lf s else (case split_lf s of l # ls \<Rightarrow> (c # l) # ls | [] \<Rightarrow> [[c]]))"

definition field_line :: "string \<Rightarrow> string \<Rightarrow> string" where
  "field_line f v = f @ CHR '':'' # CHR '' '' # v"

fun item_lines :: "sse_item \<Rightarrow> string list" where
  "item_lines (Comment c) = [CHR '':'' # c]"
| "item_lines (Message ev) =
     (if ev_Type ev = [] then [] else [field_line ''event'' (ev_Type ev)]) @
     (if ev_ID ev = [] then [] else [field_line ''id'' (ev_ID ev)]) @
     map (field_line ''data'') (split_lf (ev_Data ev)) @ [[]]"

definition unlines :: "string list \<Rightarrow> string" where
  "unlines ls = concat (map (\<lambda>l. l @ [LF]) ls)"

definition print_items :: "sse_item list \<Rightarrow> string" where
  "print_items items = unlines (concat (map item_lines items))"

fun messages :: "sse_item list \<Rightarrow> sse_event list" where
  "messages [] = []"
| "messages (Comment c # items) = messages items"
| "messages (Message ev # items) = ev # messages items"

definition plain_line :: "string \<Rightarrow> bool" where
  "plain_line l \<longleftrightarrow> LF \<notin> set l \<and> CR \<notin> set l \<and> int (length l) < sseScannerMaxTokenSize"

fun item_ok :: "sse_item \<Rightarrow> bool" where
  "item_ok (Comment c) = list_all plain_line (item_lines (Comment c))"
| "item_ok (Message ev) \<longleftrightarrow> list_all plain_line (item_lines (Message ev)) \<and> CHR 0x00 \<notin> set (ev_ID ev)"

lemma split_lf_neq_Nil [simp]: "split_lf s \<noteq> []"
  by (induction s) (auto split: list.splits)

lemma join_split_lf: "join_lf (split_lf s) = s"
proof (induction s)
  case (Cons c s)
  obtain l ls where s: "split_lf s = l # ls" using split_lf_neq_Nil neq_Nil_conv by metis
  then show ?case using Cons by (cases ls) auto
qed simp

lemma scan_tokens_Nil [simp]: "scan_tokens n [] = ([], False)"
  by (simp add: scan_tokens.simps)

lemma takeWhile_until: "c \<notin> set l \<Longrightarrow> takeWhile (\<lambda>x. x \<noteq> c) (l @ c # r) = l"
  by (induction l) auto

lemma scan_tokens_line:
  assumes "LF \<notin> set l" "int (length l) < n"
  shows "scan_tokens n (l @ LF # rest) = (dropCR l # fst (scan_tokens n rest), snd (scan_tokens n rest))"
proof -
  have "takeWhile (\<lambda>c. c \<noteq> LF) (l @ LF # rest) = l" by (rule takeWhile_until[OF assms(1)])
  then show ?thesis using assms(2) by (simp add: scan_tokens.simps[of n "l @ LF # rest"] case_prod_beta)
qed

lemma no_cr [simp]:
  assumes "CR \<notin> set l"
  shows "dropCR l = l" "trim_right_cr l = l"
proof -
  consider "l = []" | ys c where "l = ys @ [c]" "c \<noteq> CR" using assms by (cases l rule: rev_cases) auto
  then show "dropCR l = l" by cases (simp_all add: dropCR_def last_byte_is_def)
  consider "l = []" | ys c where "l = ys @ [c]" "c \<noteq> CR" using assms by (cases l rule: rev_cases) auto
  then show "trim_right_cr l = l" by cases (simp_all add: trim_right_cr_def)
qed

lemma scan_tokens_unlines: "list_all plain_line ls \<Longrightarrow> scan_tokens sseScannerMaxTokenSize (unlines ls) = (ls, False)"
proof (induction ls)
  case (Cons l ls)
  then show ?case
    by (simp add: unlines_def scan_tokens_line plain_line_def)
qed (simp add: unlines_def)

lemma parse_field_line [simp]: "CHR '':'' \<notin> set f \<Longrightarrow> parseSSELine (field_line f v) = (f, v)"
  by (simp add: field_line_def parseSSELine_def contains_byte_def takeWhile_until first_byte_is_def)

lemma field_line_neq [simp]: "field_line f v \<noteq> []" "[] \<noteq> field_line f v"
  by (simp_all add: field_line_def)

lemma first_byte_field_line [simp]:
  "f \<noteq> [] \<Longrightarrow> CHR '':'' \<notin> set f \<Longrightarrow> \<not> first_byte_is (field_line f v) (CHR '':'')"
  by (cases f) (auto simp: field_line_def first_byte_is_def)

lemma rest_events_block:
  "[] \<notin> set ls \<Longrightarrow> rest_events serr block (ls @ [] # rest) = block_event (block @ ls) @ rest_events serr [] rest"
  by (induction ls arbitrary: block) (auto simp: rest_events_blank rest_events_line eq_commute[of "[]"])

lemma field_values_append: "field_values f (b @ b') = field_values f b @ field_values f b'"
  by (simp add: field_values_def)

lemma field_values_Nil [simp]: "field_values f [] = []"
  by (simp add: field_values_def)

lemma field_values_comments:
  "list_all (\<lambda>l. first_byte_is l (CHR '':'')) block \<Longrightarrow> field_values f block = []"
  by (simp add: field_values_def filter_empty_conv list_all_iff)

lemma field_values_lines:
  "f \<noteq> [] \<Longrightarrow> CHR '':'' \<notin> set f \<Longrightarrow> field_values g (map (field_line f) vs) = (if g = f then vs else [])"
  by (induction vs) (auto simp: field_values_def)

lemma field_values_line:
  "f \<noteq> [] \<Longrightarrow> CHR '':'' \<notin> set f \<Longrightarrow> field_values g [field_line f v] = (if g = f then [v] else [])"
  using field_values_lines[of f g "[v]"] by simp

lemma block_event_message:
  assumes "list_all (\<lambda>l. first_byte_is l (CHR '':'')) block" "CHR 0x00 \<notin> set (ev_ID ev)"
  shows "block_event (block @ butlast (item_lines (Message ev))) = [ev]"
proof -
  note fv = field_values_append field_values_comments[OF assms(1)] field_values_lines field_values_line
  let ?b = "block @ butlast (item_lines (Message ev))"
  have "field_values ''data'' ?b = split_lf (ev_Data ev)"
    by (simp add: butlast_append fv)
  moreover have "field_values ''event'' ?b = (if ev_Type ev = [] then [] else [ev_Type ev])"
    by (simp add: butlast_append fv)
  moreover have "field_values ''id'' ?b = (if ev_ID ev = [] then [] else [ev_ID ev])"
    by (simp add: butlast_append fv)
  ultimately show ?thesis using assms(2)
    by (simp add: block_event_def join_split_lf last_or_empty_def contains_byte_def)
qed

lemma rest_events_items:
  "list_all item_ok items \<Longrightarrow> list_all (\<lambda>l. first_byte_is l (CHR '':'')) block \<Longrightarrow>
     rest_events None block (concat (map item_lines items)) = messages items"
proof (induction items arbitrary: block rule: messages.induct)
  case 1
  then show ?case by (simp add: rest_events_Nil block_event_def field_values_comments)
next
  case (2 c items)
  then show ?case by (simp add: rest_events_line first_byte_is_def)
next
  case (3 ev items)
  have lines: "item_lines (Message ev) = butlast (item_lines (Message ev)) @ [[]]" by simp
  have "[] \<notin> set (butlast (item_lines (Message ev)))" by (auto simp: butlast_append)
  then have "rest_events None block (item_lines (Message ev) @ concat (map item_lines items)) =
      block_event (block @ butlast (item_lines (Message ev))) @ rest_events None [] (concat (map item_lines items))"
    by (subst lines) (simp only: append_assoc append_Cons append_Nil rest_events_block not_False_eq_True)
  then show ?case using 3 block_event_message[OF "3.prems"(2)] by (simp del: item_lines.simps)
qed

lemma sse_events_print:
  assumes "list_all item_ok items"
  shows "sse_events \<lparr>rd_data = print_items items, rd_err = None\<rparr> = messages items \<and>
    scanner_Err \<lparr>rd_data = print_items items, rd_err = None\<rparr> = None"
proof -
  let ?ls = "concat (map item_lines items)" and ?r = "\<lparr>rd_data = print_items items, rd_err = None\<rparr>"
  have plain: "list_all plain_line ?ls"
    using assms by (induction items) (auto simp: list_all_iff elim!: item_ok.elims)
  then have "scanner_lines ?r = ?ls" "scanner_Err ?r = None"
    by (simp_all add: scanner_lines_def scanner_Err_def print_items_def scan_tokens_unlines)
  moreover have "map trim_right_cr ?ls = ?ls"
    using plain by (intro map_idI) (auto simp: list_all_iff plain_line_def)
  ultimately show ?thesis
    using rest_events_items[OF assms, of "[]"] rest_events_all[of ?r] by simp
qed

text \<open>A scan that nothing interrupts.\<close>

definition quiet_env :: "'x scan_env" where
  "quiet_env = \<lparr>se_read = \<lambda>x. x, se_ctx = \<lambda>x. (None, x)\<rparr>"

lemma ScanEvents_loop_quiet:
  "ScanEvents_loop quiet_env (log_fn (\<lambda>ev x. (None, x))) serr tokens (block_state block) (log, x) =
     (serr, log @ rest_events serr block (map trim_right_cr tokens), x)"
proof (induction tokens arbitrary: block log)
  case Nil
  show ?case
    by (cases serr) (simp_all add: quiet_env_def emit_def log_fn_def rest_events_Nil block_event_state)
next
  case (Cons token tokens)
  show ?case
    using Cons.IH[of "[]"] Cons.IH[of "block @ [trim_right_cr token]"]
    by (cases "trim_right_cr token = []")
      (simp_all add: quiet_env_def emit_def log_fn_def rest_events_blank rest_events_line block_event_state
        block_state_Nil sse_field_block)
qed

section \<open>Properties\<close>

text \<open>C20: (functional) Whatever the context and the callback do, a scan calls the callback on the events of the body in
  their order, as the reference cuts them from the lines, and ends in one of three ways. Either every event was
  delivered, a trailing one included, no call failed, and the result is the error of the reader or none; or the last
  call failed, and the scan stopped there, with that error as the result, or none for the sentinel that stops a scan;
  or no call failed and the result is the error that the context reported last. So a callback that never fails gets
  every event unless the context ends.\<close>

theorem ScanEvents_exact:
  assumes "ctx_lawful env" "ScanEvents (log_env env) (log_calls fn) r ([], x) = (res, calls, x')"
  shows "prefix (map fst calls) (sse_events r) \<and>
    (map fst calls = sse_events r \<and> no_call_failed calls \<and> res = scanner_Err r \<or>
     (\<exists>before ev err. calls = before @ [(ev, Some err)] \<and> no_call_failed before \<and> res = stop_result err) \<or>
     no_call_failed calls \<and> (\<exists>y err. se_ctx env y = (Some err, x') \<and> res = Some err))"
  using ScanEvents_delivered[OF assms] unfolding delivered_def .

definition demo_scan_env :: "nat scan_env" where
  "demo_scan_env = \<lparr>se_read = Suc, se_ctx = \<lambda>x. (if 100 < x then Some (ErrVar ''context.Canceled'') else None, x)\<rparr>"

definition demo_body :: reader where
  "demo_body = \<lparr>rd_data = '': hi'' @ [LF] @ ''event: m'' @ [CR, LF] @ ''data:1'' @ [LF] @ ''data: 2'' @ [LF, LF] @ ''data: 3'',
     rd_err = None\<rparr>"

theorem ScanEvents_exact_witness:
  "sse_events demo_body = [\<lparr>ev_Type = ''m'', ev_Data = ''1'' @ LF # ''2'', ev_ID = []\<rparr>, \<lparr>ev_Type = [], ev_Data = ''3'', ev_ID = []\<rparr>] \<and>
   map fst (fst (snd (ScanEvents (log_env demo_scan_env) (log_calls (\<lambda>ev x. (None, x))) demo_body ([], 0)))) = sse_events demo_body"
proof -
  obtain res calls x' where s: "ScanEvents (log_env demo_scan_env) (log_calls (\<lambda>ev x. (None, x))) demo_body ([], 0 :: nat) = (res, calls, x')"
    by (metis prod_cases3)
  have "fst (ScanEvents (log_env demo_scan_env) (log_calls (\<lambda>ev x. (None, x))) demo_body ([], 0 :: nat)) = None \<and>
      no_call_failed (fst (snd (ScanEvents (log_env demo_scan_env) (log_calls (\<lambda>ev x. (None, x))) demo_body ([], 0 :: nat))))"
    by code_simp
  then have ok: "res = None" "no_call_failed calls" unfolding s by simp_all
  have "ctx_lawful demo_scan_env" by (simp add: ctx_lawful_def demo_scan_env_def)
  from ScanEvents_exact[OF this s] have "map fst calls = sse_events demo_body"
    using ok by (auto simp: no_call_failed_def)
  moreover have "sse_events demo_body =
      [\<lparr>ev_Type = ''m'', ev_Data = ''1'' @ LF # ''2'', ev_ID = []\<rparr>, \<lparr>ev_Type = [], ev_Data = ''3'', ev_ID = []\<rparr>]"
    by code_simp
  ultimately show ?thesis by (simp add: s)
qed

text \<open>C21: (roundtrip) Scanning a printed stream gives its messages back: the events that a provider writes, with
  any comments between them, reach the callback unchanged.\<close>

theorem sse_roundtrip:
  assumes "list_all item_ok items"
  shows "ScanEvents quiet_env (log_fn (\<lambda>ev x. (None, x))) \<lparr>rd_data = print_items items, rd_err = None\<rparr> ([], x) =
    (None, messages items, x)"
proof -
  let ?r = "\<lparr>rd_data = print_items items, rd_err = None\<rparr>"
  have "ScanEvents quiet_env (log_fn (\<lambda>ev x. (None, x))) ?r ([], x) = (scanner_Err ?r, [] @ sse_events ?r, x)"
    unfolding ScanEvents_def rest_events_all[symmetric] block_state_Nil[symmetric] by (rule ScanEvents_loop_quiet)
  then show ?thesis using sse_events_print[OF assms] by simp
qed

theorem sse_roundtrip_witness:
  "ScanEvents quiet_env (log_fn (\<lambda>ev x. (None, x)))
     \<lparr>rd_data = print_items [Comment '' keepalive'', Message \<lparr>ev_Type = ''delta'', ev_Data = ''a'' @ LF # '' b'', ev_ID = ''7''\<rparr>],
      rd_err = None\<rparr> ([], ()) =
   (None, [\<lparr>ev_Type = ''delta'', ev_Data = ''a'' @ LF # '' b'', ev_ID = ''7''\<rparr>], ())"
  using sse_roundtrip[of "[Comment '' keepalive'', Message \<lparr>ev_Type = ''delta'', ev_Data = ''a'' @ LF # '' b'', ev_ID = ''7''\<rparr>]" "()"]
  by (simp add: plain_line_def sseScannerMaxTokenSize_def field_line_def)

text \<open>The channel loop and the callback loop of the file agree: with a send that gives up when
  the context ends, and errors that are not the stop sentinel, they deliver the same events and end alike.\<close>

theorem scan_is_ScanEvents:
  assumes "ctx_lawful env" "\<And>ev x err x'. fn ev x = (Some err, x') \<Longrightarrow> \<not> is_error_var err ''sseclient.ErrStopScan''"
  shows "scan env (\<lambda>ev x. case se_ctx env x of (Some err, x) \<Rightarrow> (Some err, x) | (None, x) \<Rightarrow> fn ev x) r x =
    ScanEvents env fn r x"
proof -
  let ?send = "\<lambda>ev x. case se_ctx env x of (Some err, x) \<Rightarrow> (Some err, x) | (None, x) \<Rightarrow> fn ev x"
  have stop: "stop_result err = Some err" if "emit env fn st x = (Some err, x')" for st x err x'
    using that assms(1) assms(2)
    by (auto simp: emit_def stop_result_def ctx_lawful_def split: prod.splits option.splits)
  have emit: "?send (sse_current st) x = emit env fn st x" for st x
    by (simp add: emit_def)
  have "scan_loop env ?send serr tokens st x = ScanEvents_loop env fn serr tokens st x" for serr tokens st
  proof (induction tokens arbitrary: st x)
    case Nil
    then show ?case by (auto simp: emit Let_def stop split: option.splits prod.splits)
  next
    case (Cons token tokens)
    then show ?case by (auto simp: emit Let_def stop split: option.splits prod.splits)
  qed
  then show ?thesis by (simp add: scan_def ScanEvents_def)
qed

theorem scan_is_ScanEvents_witness:
  "scan demo_scan_env (\<lambda>ev x. case se_ctx demo_scan_env x of (Some err, x) \<Rightarrow> (Some err, x) | (None, x) \<Rightarrow> (None, x + 50))
     demo_body 0 = (None, 107) \<and>
   scan demo_scan_env (\<lambda>ev x. case se_ctx demo_scan_env x of (Some err, x) \<Rightarrow> (Some err, x) | (None, x) \<Rightarrow> (None, x + 50))
     demo_body 0 = ScanEvents demo_scan_env (\<lambda>ev x. (None, x + 50)) demo_body 0"
proof
  show "scan demo_scan_env (\<lambda>ev x. case se_ctx demo_scan_env x of (Some err, x) \<Rightarrow> (Some err, x) | (None, x) \<Rightarrow> (None, x + 50))
     demo_body 0 = (None, 107)" by code_simp
  show "scan demo_scan_env (\<lambda>ev x. case se_ctx demo_scan_env x of (Some err, x) \<Rightarrow> (Some err, x) | (None, x) \<Rightarrow> (None, x + 50))
     demo_body 0 = ScanEvents demo_scan_env (\<lambda>ev x. (None, x + 50)) demo_body 0"
    by (rule scan_is_ScanEvents) (simp_all add: ctx_lawful_def demo_scan_env_def)
qed

end
