(* ===== verification/Llm_Http.thy ===== *)
theory Llm_Http
  imports Sse_Client
begin

text \<open>
  The parts of the \<^verbatim>\<open>llmhttp\<close> package that decide how a failed body read is reported:
  \<^verbatim>\<open>classifyTransportErr\<close> and \<^verbatim>\<open>classifyStreamErr\<close> of \<^verbatim>\<open>errors.go\<close> and \<^verbatim>\<open>StreamCallback.ForEach\<close> of
  \<^verbatim>\<open>llmhttp.go\<close>. The printed text of an error and the test for the GOAWAY type of the HTTP/2 library are
  parameters.
\<close>

section \<open>Transport errors\<close>

text \<open>\<^verbatim>\<open>strings.ToLower\<close> on ASCII letters; no other letter becomes one of the text that is searched.\<close>

definition lower_ascii :: "char \<Rightarrow> char" where
  "lower_ascii c = (let n = of_char c :: nat in if 65 \<le> n \<and> n \<le> 90 then char_of (n + 32) else c)"

record error_view =
  vw_text :: "go_error \<Rightarrow> string"
  vw_goAway :: "go_error \<Rightarrow> bool"

definition classifyTransportErr :: "error_view \<Rightarrow> go_error option \<Rightarrow> string \<Rightarrow> bool \<Rightarrow> go_error option" where
  "classifyTransportErr view err pre staleConnTeardownAcceptable =
     (case err of
        None \<Rightarrow> None
      | Some e \<Rightarrow>
          if is_error_var e ''llmhttp.ErrIdleTimeout'' then Some (TransportError ''idle-timeout'' pre e)
          else if is_error_var e ''syscall.ECONNREFUSED'' then Some (TransportError ''connection-refused'' pre e)
          else if is_error_var e ''syscall.ECONNRESET'' then Some (TransportError ''connection-reset'' pre e)
          else if is_error_var e ''syscall.EPIPE'' then Some (TransportError ''broken-pipe'' pre e)
          else if is_error_var e ''net.ErrClosed'' then Some (TransportError ''closed-connection'' pre e)
          else if \<not> staleConnTeardownAcceptable then None
          else if is_error_var e ''fasthttp.ErrConnectionClosed'' then Some (TransportError ''stale-conn-teardown'' pre e)
          else if sublist ''http2: server sent goaway'' (map lower_ascii (vw_text view e))
          then Some (TransportError ''stale-conn-teardown'' pre e)
          else if vw_goAway view e then Some (TransportError ''stale-conn-teardown'' pre e)
          else if is_error_var e ''io.EOF'' then Some (TransportError ''stale-conn-teardown'' pre e)
          else None)"

definition classifyStreamErr :: "error_view \<Rightarrow> go_error option \<Rightarrow> go_error option" where
  "classifyStreamErr view err =
     (case err of
        None \<Rightarrow> None
      | Some e \<Rightarrow>
          (case classifyTransportErr view err ''llmhttp: failed to read response body'' False of
             Some te \<Rightarrow> Some te
           | None \<Rightarrow> Some (ErrWrap ''llmhttp: failed to read response body: '' e)))"

definition ForEach ::
    "error_view \<Rightarrow> 'x scan_env \<Rightarrow> (sse_event \<Rightarrow> 'x \<Rightarrow> go_error option \<times> 'x) \<Rightarrow> reader \<Rightarrow> 'x \<Rightarrow> go_error option \<times> 'x" where
  "ForEach view env fn body x =
     (case ScanEvents env fn body x of (err, x) \<Rightarrow> (classifyStreamErr view err, x))"

section \<open>What a classified error still is\<close>

text \<open>The errors that are transport drops at any point of a response.\<close>

definition hard_drop :: "go_error \<Rightarrow> bool" where
  "hard_drop e \<longleftrightarrow> list_ex (is_error_var e)
     [''llmhttp.ErrIdleTimeout'', ''syscall.ECONNREFUSED'', ''syscall.ECONNRESET'', ''syscall.EPIPE'', ''net.ErrClosed'']"

lemma classifyStreamErr_cases:
  "classifyStreamErr view (Some e) =
     (if hard_drop e then Some (TransportError (if is_error_var e ''llmhttp.ErrIdleTimeout'' then ''idle-timeout''
          else if is_error_var e ''syscall.ECONNREFUSED'' then ''connection-refused''
          else if is_error_var e ''syscall.ECONNRESET'' then ''connection-reset''
          else if is_error_var e ''syscall.EPIPE'' then ''broken-pipe'' else ''closed-connection'')
        ''llmhttp: failed to read response body'' e)
      else Some (ErrWrap ''llmhttp: failed to read response body: '' e))"
  by (simp add: classifyStreamErr_def classifyTransportErr_def hard_drop_def)

lemma classifyStreamErr_None_iff [simp]: "classifyStreamErr view err = None \<longleftrightarrow> err = None"
  by (cases err) (simp_all add: classifyStreamErr_cases, simp add: classifyStreamErr_def)

text \<open>The umbrella sentinel is added to a hard drop and to nothing else, and every sentinel of the cause
  stays visible.\<close>

lemma classifyStreamErr_var:
  assumes "classifyStreamErr view (Some e) = Some e'"
  shows "is_error_var e' v \<longleftrightarrow> is_error_var e v \<or> (v = ''llmhttp.ErrTransportFlake'' \<and> hard_drop e)"
  using assms unfolding classifyStreamErr_cases by (auto split: if_splits)

lemma classifyStreamErr_flags:
  assumes "classifyStreamErr view (Some e) = Some e'"
  shows "isTerminal e' = isTerminal e" "as_raw e' = as_raw e" "as_native_terminal e' = as_native_terminal e"
  using assms unfolding classifyStreamErr_cases isTerminal_def by (auto split: if_splits)

end
