(* ===== verification/Stream_Cadence.thy ===== *)
theory Stream_Cadence
  imports Go_Errors
begin

text \<open>
  \<^verbatim>\<open>buildrequest/stream_cadence.go\<close>: how the deltas of one attempt become partial results. The parser,
  the sink and the clock are functions of the configuration on a state \<open>'s\<close>. Times and durations are
  nanoseconds.
\<close>

section \<open>Definitions\<close>

datatype parse_policy = CadenceParseErrorsAreNoEvent | CadenceParseErrorsAreTerminal

record 'v cadence_event =
  cv_HasPartial :: bool
  cv_Partial :: "'v option"
  cv_Raw :: string
  cv_Reasoning :: string

record ('v, 's) cadence_config =
  cf_NeedsPartials :: bool
  cf_NeedsRaw :: bool
  cf_ParseThrottleInterval :: int
  cf_ParsePartial :: "(string \<Rightarrow> 's \<Rightarrow> (go_error + 'v option \<times> bool) \<times> 's) option"
  cf_Emit :: "'v cadence_event \<Rightarrow> 's \<Rightarrow> go_error option \<times> 's"
  cf_ParsePolicy :: parse_policy
  cf_Now :: "'s \<Rightarrow> int \<times> 's"

record accumulator =
  ac_parseable :: string
  ac_raw :: string
  ac_reasoning :: string
  ac_parsed :: bool
  ac_lastParseTime :: int

text \<open>A new window; the zero time is the one that Go's \<^verbatim>\<open>time.Time\<close> starts with.\<close>

definition NewStreamCadence :: "int \<Rightarrow> accumulator" where
  "NewStreamCadence zeroTime =
     \<lparr>ac_parseable = [], ac_raw = [], ac_reasoning = [], ac_parsed = False, ac_lastParseTime = zeroTime\<rparr>"

definition classifyParseError :: "('v, 's) cadence_config \<Rightarrow> go_error \<Rightarrow> go_error option" where
  "classifyParseError cfg err = (if cf_ParsePolicy cfg \<noteq> CadenceParseErrorsAreTerminal then None else Some err)"

definition emitRawOnly :: "('v, 's) cadence_config \<Rightarrow> string \<Rightarrow> string \<Rightarrow> 's \<Rightarrow> go_error option \<times> 's" where
  "emitRawOnly cfg rawDelta reasoningDelta s =
     cf_Emit cfg \<lparr>cv_HasPartial = False, cv_Partial = None, cv_Raw = rawDelta, cv_Reasoning = reasoningDelta\<rparr> s"

text \<open>The decision to parse: the clock is read only if the first two conditions fail.\<close>

definition shouldParse :: "('v, 's) cadence_config \<Rightarrow> accumulator \<Rightarrow> 's \<Rightarrow> bool \<times> 's" where
  "shouldParse cfg acc s =
     (if cf_ParseThrottleInterval cfg = 0 \<or> \<not> ac_parsed acc then (True, s)
      else (case cf_Now cfg s of (now, s) \<Rightarrow> (now - ac_lastParseTime acc \<ge> cf_ParseThrottleInterval cfg, s)))"

text \<open>The throttled parse: an error that stops the stream, or what there is of a partial.\<close>

definition parse_partial ::
    "('v, 's) cadence_config \<Rightarrow> accumulator \<Rightarrow> 's \<Rightarrow> (go_error + 'v option option) \<times> accumulator \<times> 's" where
  "parse_partial cfg acc s =
     (case cf_ParsePartial cfg of
        None \<Rightarrow> (Inr None, acc, s)
      | Some parse \<Rightarrow>
          (case shouldParse cfg acc s of (go, s) \<Rightarrow>
             if \<not> go then (Inr None, acc, s)
             else (case cf_Now cfg s of (now, s) \<Rightarrow>
                     (let acc = acc\<lparr>ac_parsed := True, ac_lastParseTime := now\<rparr>
                      in case parse (ac_parseable acc) s of
                           (Inl parseErr, s) \<Rightarrow>
                             (case classifyParseError cfg parseErr of
                                Some err \<Rightarrow> (Inl err, acc, s)
                              | None \<Rightarrow> (Inr None, acc, s))
                         | (Inr (candidate, present), s) \<Rightarrow>
                             (Inr (if present then Some candidate else None), acc, s)))))"

definition accumulate :: "string \<Rightarrow> string \<Rightarrow> string \<Rightarrow> accumulator \<Rightarrow> accumulator" where
  "accumulate parseableDelta rawDelta reasoningDelta acc =
     (let acc = acc\<lparr>ac_raw := ac_raw acc @ rawDelta\<rparr>;
          acc = (if parseableDelta \<noteq> [] then acc\<lparr>ac_parseable := ac_parseable acc @ parseableDelta\<rparr> else acc)
      in if reasoningDelta \<noteq> [] then acc\<lparr>ac_reasoning := ac_reasoning acc @ reasoningDelta\<rparr> else acc)"

definition Delta ::
    "('v, 's) cadence_config \<Rightarrow> string \<Rightarrow> string \<Rightarrow> string \<Rightarrow> accumulator \<Rightarrow> 's \<Rightarrow> go_error option \<times> accumulator \<times> 's" where
  "Delta cfg parseableDelta rawDelta reasoningDelta acc s =
     (if rawDelta = [] \<and> parseableDelta = [] \<and> reasoningDelta = [] then (None, acc, s)
      else
        (let acc = accumulate parseableDelta rawDelta reasoningDelta acc
         in if cf_NeedsPartials cfg \<and> parseableDelta = [] then
              (if cf_NeedsRaw cfg
               then (case emitRawOnly cfg rawDelta reasoningDelta s of (err, s) \<Rightarrow> (err, acc, s))
               else (None, acc, s))
            else if cf_NeedsPartials cfg then
              (case parse_partial cfg acc s of
                 (Inl err, acc, s) \<Rightarrow> (Some err, acc, s)
               | (Inr (Some parsed), acc, s) \<Rightarrow>
                   (case cf_Emit cfg \<lparr>cv_HasPartial = True, cv_Partial = parsed,
                        cv_Raw = (if cf_NeedsRaw cfg then rawDelta else []),
                        cv_Reasoning = (if cf_NeedsRaw cfg then reasoningDelta else [])\<rparr> s of (err, s) \<Rightarrow> (err, acc, s))
               | (Inr None, acc, s) \<Rightarrow>
                   (if cf_NeedsRaw cfg
                    then (case emitRawOnly cfg rawDelta reasoningDelta s of (err, s) \<Rightarrow> (err, acc, s))
                    else (None, acc, s)))
            else (None, acc, s)))"

text \<open>A window that is fed a sequence of deltas, up to the first that asks to stop.\<close>

type_synonym delta_triple = "string \<times> string \<times> string"

fun feed ::
    "('v, 's) cadence_config \<Rightarrow> delta_triple list \<Rightarrow> accumulator \<Rightarrow> 's \<Rightarrow> go_error option \<times> accumulator \<times> 's" where
  "feed cfg [] acc s = (None, acc, s)"
| "feed cfg ((p, r, q) # ds) acc s =
     (case Delta cfg p r q acc s of
        (Some err, acc, s) \<Rightarrow> (Some err, acc, s)
      | (None, acc, s) \<Rightarrow> feed cfg ds acc s)"

section \<open>Accumulation\<close>

definition channels :: "accumulator \<Rightarrow> delta_triple" where
  "channels acc = (ac_parseable acc, ac_raw acc, ac_reasoning acc)"

lemma channels_accumulate:
  "channels (accumulate p r q acc) = (ac_parseable acc @ p, ac_raw acc @ r, ac_reasoning acc @ q)"
  by (simp add: channels_def accumulate_def Let_def)

lemma accumulate_clock [simp]:
  "ac_parsed (accumulate p r q acc) = ac_parsed acc" "ac_lastParseTime (accumulate p r q acc) = ac_lastParseTime acc"
  by (simp_all add: accumulate_def Let_def)

lemma parse_partial_channels: "parse_partial cfg acc s = (res, acc', s') \<Longrightarrow> channels acc' = channels acc"
  by (auto simp: parse_partial_def channels_def Let_def split: option.splits prod.splits sum.splits if_splits)

lemma Delta_channels:
  assumes "Delta cfg p r q acc s = (err, acc', s')"
  shows "channels acc' = (ac_parseable acc @ p, ac_raw acc @ r, ac_reasoning acc @ q)"
proof (cases "r = [] \<and> p = [] \<and> q = []")
  case True
  then show ?thesis using assms by (simp add: Delta_def channels_def)
next
  case False
  have "channels acc' = channels (accumulate p r q acc)"
    using assms False parse_partial_channels[of cfg "accumulate p r q acc" s]
    by (auto simp: Delta_def Let_def split: if_splits prod.splits sum.splits option.splits)
  then show ?thesis by (simp add: channels_accumulate)
qed

definition fed :: "delta_triple list \<Rightarrow> accumulator \<Rightarrow> delta_triple" where
  "fed ds acc = (ac_parseable acc @ concat (map fst ds), ac_raw acc @ concat (map (fst \<circ> snd) ds),
     ac_reasoning acc @ concat (map (snd \<circ> snd) ds))"

lemma feed_channels:
  "feed cfg ds acc s = (err, acc', s') \<Longrightarrow> \<exists>n \<le> length ds. channels acc' = fed (take n ds) acc \<and> (err = None \<longrightarrow> n = length ds)"
proof (induction ds arbitrary: acc s)
  case Nil
  then show ?case by (simp add: fed_def channels_def)
next
  case (Cons d ds)
  obtain p r q where d: "d = (p, r, q)" by (cases d) auto
  obtain e1 acc1 s1 where D: "Delta cfg p r q acc s = (e1, acc1, s1)" by (cases "Delta cfg p r q acc s") auto
  note ch = Delta_channels[OF D]
  show ?case
  proof (cases e1)
    case (Some err1)
    then show ?thesis using Cons.prems ch d D by (intro exI[of _ 1]) (auto simp: fed_def)
  next
    case None
    then obtain n where "n \<le> length ds" "channels acc' = fed (take n ds) acc1" "err = None \<longrightarrow> n = length ds"
      using Cons d D by auto
    then show ?thesis using ch d by (intro exI[of _ "Suc n"]) (auto simp: fed_def channels_def)
  qed
qed

text \<open>What the sink, the clock and the parser keep holds after a delta.\<close>

lemma parse_partial_invariant:
  assumes "parse_partial cfg acc s = (res, acc', s')" "J s"
    and now: "\<And>s n s'. J s \<Longrightarrow> cf_Now cfg s = (n, s') \<Longrightarrow> J s'"
    and parse: "\<And>f text s res s'. cf_ParsePartial cfg = Some f \<Longrightarrow> J s \<Longrightarrow> f text s = (res, s') \<Longrightarrow> J s'"
  shows "J s'"
proof (cases "cf_ParsePartial cfg")
  case None
  then show ?thesis using assms(1,2) by (simp add: parse_partial_def)
next
  case (Some f)
  obtain go s1 where g: "shouldParse cfg acc s = (go, s1)" by force
  obtain n s2 where n: "cf_Now cfg s1 = (n, s2)" by force
  obtain res' s3 where f: "f (ac_parseable acc) s2 = (res', s3)" by force
  have 1: "J s1" using g now[OF assms(2)] assms(2) by (auto simp: shouldParse_def split: if_splits prod.splits)
  have 3: "J s3" using parse[OF Some _ f] now[OF 1 n] .
  have "s' = s1 \<or> s' = s3"
    using assms(1) Some g n f
    by (auto simp: parse_partial_def Let_def split: if_splits sum.splits prod.splits option.splits)
  then show ?thesis using 1 3 by auto
qed

lemma Delta_invariant:
  assumes D: "Delta cfg p r q acc s = (err, acc', s')" and J: "J s"
    and now: "\<And>s n s'. J s \<Longrightarrow> cf_Now cfg s = (n, s') \<Longrightarrow> J s'"
    and parse: "\<And>f text s res s'. cf_ParsePartial cfg = Some f \<Longrightarrow> J s \<Longrightarrow> f text s = (res, s') \<Longrightarrow> J s'"
    and emit: "\<And>ev s e s'. J s \<Longrightarrow> cf_Emit cfg ev s = (e, s') \<Longrightarrow> J s'"
  shows "J s'"
proof -
  obtain res acc1 s1 where P: "parse_partial cfg (accumulate p r q acc) s = (res, acc1, s1)" by (metis prod_cases3)
  have J1: "J s1" by (rule parse_partial_invariant[where J = J, OF P J]) (use now parse in blast)+
  have "s' = s \<or> s' = s1 \<or> (\<exists>ev e. cf_Emit cfg ev s = (e, s')) \<or> (\<exists>ev e. cf_Emit cfg ev s1 = (e, s'))"
    using D P by (auto simp: Delta_def Let_def emitRawOnly_def split: if_splits sum.splits option.splits prod.splits)
  then show ?thesis using J J1 emit by blast
qed

section \<open>Delivery\<close>

text \<open>
  A sink as the cadence relies on it: \<open>hist\<close> are the raw text and the reasoning of the events that the
  consumer has got, and \<open>whole\<close> says that it missed none. The parser and the clock leave both alone. The laws say nothing about an
  event that the sink drops, since the consumer is not whole after it.
\<close>

locale event_sink =
  fixes cfg :: "('v, 's) cadence_config"
    and hist :: "'s \<Rightarrow> (string \<times> string) list"
    and whole :: "'s \<Rightarrow> bool"
  assumes emit_hist: "cf_Emit cfg ev s = (None, s') \<Longrightarrow> whole s' \<Longrightarrow> whole s \<and> hist s' = hist s @ [(cv_Raw ev, cv_Reasoning ev)]"
    and now_hist: "cf_Now cfg s = (n, s') \<Longrightarrow> whole s' = whole s \<and> hist s' = hist s"
    and parse_hist: "cf_ParsePartial cfg = Some f \<Longrightarrow> f text s = (res, s') \<Longrightarrow> whole s' = whole s \<and> hist s' = hist s"
begin

lemma parse_partial_hist:
  assumes "parse_partial cfg acc s = (res, acc', s')"
  shows "whole s' = whole s \<and> hist s' = hist s"
  by (rule parse_partial_invariant[where J = "\<lambda>t. whole t = whole s \<and> hist t = hist s", OF assms])
    (use now_hist parse_hist in auto)

text \<open>A delta that is fed to a raw-wanted window reaches the consumer with its raw text and reasoning.\<close>

lemma Delta_hist:
  assumes "cf_NeedsPartials cfg" "cf_NeedsRaw cfg" and D: "Delta cfg p r q acc s = (None, acc', s')" and "whole s'"
  shows "whole s \<and> (hist s' = hist s \<and> r = [] \<and> q = [] \<or> hist s' = hist s @ [(r, q)])"
proof (cases "r = [] \<and> p = [] \<and> q = []")
  case True
  then show ?thesis using D assms(4) by (simp add: Delta_def)
next
  case ne: False
  show ?thesis
  proof (cases "p = []")
    case True
    then show ?thesis using assms ne emit_hist
      by (auto simp: Delta_def Let_def emitRawOnly_def split: prod.splits)
  next
    case False
    obtain res acc1 s1 where P: "parse_partial cfg (accumulate p r q acc) s = (res, acc1, s1)"
      by (metis prod_cases3)
    then have "\<exists>ev. cf_Emit cfg ev s1 = (None, s') \<and> cv_Raw ev = r \<and> cv_Reasoning ev = q"
      using D ne False assms(1,2)
      by (auto simp: Delta_def Let_def emitRawOnly_def split: sum.splits option.splits prod.splits)
    then show ?thesis using parse_partial_hist[OF P] emit_hist[OF _ assms(4)] by metis
  qed
qed

lemma feed_hist:
  assumes "cf_NeedsPartials cfg" "cf_NeedsRaw cfg" "feed cfg ds acc s = (None, acc', s')" "whole s'"
  shows "whole s \<and> concat (map fst (hist s')) = concat (map fst (hist s)) @ concat (map (fst \<circ> snd) ds) \<and>
    concat (map snd (hist s')) = concat (map snd (hist s)) @ concat (map (snd \<circ> snd) ds)"
  using assms(3)
proof (induction ds arbitrary: acc s)
  case Nil
  then show ?case using assms(4) by simp
next
  case (Cons d ds)
  obtain p r q where d: "d = (p, r, q)" by (cases d) auto
  obtain acc1 s1 where D: "Delta cfg p r q acc s = (None, acc1, s1)" and F: "feed cfg ds acc1 s1 = (None, acc', s')"
    using Cons.prems d by (auto split: prod.splits option.splits)
  note ih = Cons.IH[OF F]
  from ih Delta_hist[OF assms(1,2) D] show ?case by (auto simp: d)
qed

end

section \<open>The throttle\<close>

text \<open>A clock: the state knows a time that never goes back, readings lie between the times before and after,
  and \<open>calls\<close> counts the calls of the parser.\<close>

definition clock_lawful :: "('v, 's) cadence_config \<Rightarrow> ('s \<Rightarrow> int) \<Rightarrow> ('s \<Rightarrow> nat) \<Rightarrow> bool" where
  "clock_lawful cfg time calls \<longleftrightarrow>
     (\<forall>s n s'. cf_Now cfg s = (n, s') \<longrightarrow> time s \<le> n \<and> n \<le> time s' \<and> calls s' = calls s) \<and>
     (\<forall>ev s err s'. cf_Emit cfg ev s = (err, s') \<longrightarrow> time s \<le> time s' \<and> calls s' = calls s) \<and>
     (\<forall>f text s res s'. cf_ParsePartial cfg = Some f \<longrightarrow> f text s = (res, s') \<longrightarrow>
        time s \<le> time s' \<and> calls s' = Suc (calls s))"

lemma clock_lawfulD:
  assumes "clock_lawful cfg time calls"
  shows "cf_Now cfg s = (n, s') \<Longrightarrow> time s \<le> n \<and> n \<le> time s' \<and> calls s' = calls s"
    "cf_Emit cfg ev s = (err, s') \<Longrightarrow> time s \<le> time s' \<and> calls s' = calls s"
    "cf_ParsePartial cfg = Some f \<Longrightarrow> f text s = (res, s') \<Longrightarrow> time s \<le> time s' \<and> calls s' = Suc (calls s)"
  using assms unfolding clock_lawful_def by blast+

text \<open>The time of the last parse; before the first it may be the one that just passed.\<close>

definition credit :: "int \<Rightarrow> ('s \<Rightarrow> int) \<Rightarrow> accumulator \<Rightarrow> 's \<Rightarrow> int" where
  "credit interval time acc s = (if ac_parsed acc then ac_lastParseTime acc else time s - interval)"

definition clock_ok :: "('s \<Rightarrow> int) \<Rightarrow> accumulator \<Rightarrow> 's \<Rightarrow> bool" where
  "clock_ok time acc s \<longleftrightarrow> (ac_parsed acc \<longrightarrow> ac_lastParseTime acc \<le> time s)"

definition paid :: "int \<Rightarrow> ('s \<Rightarrow> int) \<Rightarrow> ('s \<Rightarrow> nat) \<Rightarrow> accumulator \<times> 's \<Rightarrow> accumulator \<times> 's \<Rightarrow> bool" where
  "paid interval time calls = (\<lambda>(acc, s) (acc', s').
     calls s \<le> calls s' \<and> time s \<le> time s' \<and> clock_ok time acc' s' \<and>
     int (calls s' - calls s) * interval \<le> credit interval time acc' s' - credit interval time acc s)"

lemma paid_refl: "clock_ok time acc s \<Longrightarrow> paid i time calls (acc, s) (acc, s)"
  by (simp add: paid_def)

lemma paid_trans:
  assumes "paid i time calls x y" "paid i time calls y z"
  shows "paid i time calls x z"
proof -
  obtain a s b t c u where x: "x = (a, s)" "y = (b, t)" "z = (c, u)" by (cases x; cases y; cases z) auto
  have "int (calls u - calls s) = int (calls t - calls s) + int (calls u - calls t)"
    using assms by (simp add: paid_def x)
  then have "int (calls u - calls s) * i = int (calls t - calls s) * i + int (calls u - calls t) * i"
    by (simp only: distrib_right)
  then have "int (calls u - calls s) * i \<le> credit i time c u - credit i time a s"
    using assms unfolding paid_def x prod.case by linarith
  then show ?thesis using assms unfolding paid_def x prod.case by linarith
qed

lemma paid_time:
  "time s \<le> time s' \<Longrightarrow> calls s' = calls s \<Longrightarrow> clock_ok time acc s \<Longrightarrow> paid i time calls (acc, s) (acc, s')"
  by (auto simp: paid_def clock_ok_def credit_def)

lemma shouldParse_clock:
  assumes law: "clock_lawful cfg time calls" and "shouldParse cfg acc s = (go, s1)"
  shows "time s \<le> time s1 \<and> calls s1 = calls s \<and>
    (go \<longrightarrow> cf_ParseThrottleInterval cfg = 0 \<or> \<not> ac_parsed acc \<or> ac_lastParseTime acc + cf_ParseThrottleInterval cfg \<le> time s1)"
  using assms clock_lawfulD(1)[OF law, of s]
  by (cases "cf_Now cfg s") (auto simp: shouldParse_def split: if_splits)

lemma parse_partial_paid:
  assumes law: "clock_lawful cfg time calls" and ok: "clock_ok time acc s"
    and P: "parse_partial cfg acc s = (res, acc', s')"
  shows "paid (cf_ParseThrottleInterval cfg) time calls (acc, s) (acc', s')"
proof (cases "cf_ParsePartial cfg")
  case None
  then show ?thesis using P ok by (simp add: parse_partial_def paid_refl)
next
  case (Some f)
  let ?i = "cf_ParseThrottleInterval cfg"
  obtain go s1 where g: "shouldParse cfg acc s = (go, s1)" by force
  note 1 = shouldParse_clock[OF law g]
  show ?thesis
  proof (cases go)
    case False
    then show ?thesis using P Some g 1 ok by (simp add: parse_partial_def paid_time)
  next
    case True
    obtain n s2 where n: "cf_Now cfg s1 = (n, s2)" by force
    note 2 = clock_lawfulD(1)[OF law n]
    obtain res' s3 where f: "f (ac_parseable acc) s2 = (res', s3)" by force
    note 3 = clock_lawfulD(3)[OF law Some f]
    have r: "acc' = acc\<lparr>ac_parsed := True, ac_lastParseTime := n\<rparr>" "s' = s3"
      using P Some g n f True
      by (auto simp: parse_partial_def Let_def split: if_splits sum.splits prod.splits option.splits)
    have "?i \<le> n - credit ?i time acc s"
      using 1 2 True ok by (auto simp: credit_def clock_ok_def)
    then show ?thesis using 1 2 3 r by (simp add: paid_def clock_ok_def) (simp add: credit_def)
  qed
qed

lemma Delta_paid:
  assumes law: "clock_lawful cfg time calls" and ok: "clock_ok time acc s" and D: "Delta cfg p r q acc s = (err, acc', s')"
  shows "paid (cf_ParseThrottleInterval cfg) time calls (acc, s) (acc', s')"
proof -
  let ?i = "cf_ParseThrottleInterval cfg" and ?a = "accumulate p r q acc"
  have acc: "paid ?i time calls (?a, s) x \<Longrightarrow> paid ?i time calls (acc, s) x" for x
    by (auto simp: paid_def credit_def clock_ok_def)
  have ok': "clock_ok time ?a s" using ok by (simp add: clock_ok_def)
  have emitted: "paid ?i time calls (a, t) (a, t')" if "clock_ok time a t" "cf_Emit cfg ev t = (e, t')" for a t ev e t'
    using clock_lawfulD(2)[OF law that(2)] that(1) by (intro paid_time) auto
  show ?thesis
  proof (cases "r = [] \<and> p = [] \<and> q = [] \<or> \<not> cf_NeedsPartials cfg \<or> p = []")
    case True
    then have "acc' = acc \<and> s' = s \<or> acc' = ?a \<and> s' = s \<or> (\<exists>ev. acc' = ?a \<and> cf_Emit cfg ev s = (err, s'))"
      using D by (auto simp: Delta_def Let_def emitRawOnly_def split: if_splits prod.splits)
    then show ?thesis using paid_refl[OF ok] acc[OF paid_refl[OF ok']] acc[OF emitted[OF ok']] by blast
  next
    case False
    obtain res a1 s1 where P: "parse_partial cfg ?a s = (res, a1, s1)" by (metis prod_cases3)
    note 1 = parse_partial_paid[OF law ok' P]
    have "acc' = a1" "s' = s1 \<or> (\<exists>ev. cf_Emit cfg ev s1 = (err, s'))"
      using D False P by (auto simp: Delta_def Let_def emitRawOnly_def split: if_splits sum.splits option.splits prod.splits)
    moreover have "clock_ok time a1 s1" using 1 by (simp add: paid_def)
    ultimately show ?thesis using acc[OF 1] acc[OF paid_trans[OF 1 emitted]] by blast
  qed
qed

lemma feed_paid:
  "clock_lawful cfg time calls \<Longrightarrow> clock_ok time acc s \<Longrightarrow> feed cfg ds acc s = (err, acc', s') \<Longrightarrow>
     paid (cf_ParseThrottleInterval cfg) time calls (acc, s) (acc', s')"
proof (induction ds arbitrary: acc s)
  case (Cons d ds)
  obtain p r q where d: "d = (p, r, q)" by (cases d) auto
  obtain e1 acc1 s1 where D: "Delta cfg p r q acc s = (e1, acc1, s1)" by (metis prod_cases3)
  note 1 = Delta_paid[OF Cons.prems(1,2) D]
  then have "clock_ok time acc1 s1" by (simp add: paid_def)
  then show ?case using Cons d D 1 paid_trans[OF 1] by (cases e1) auto
qed (simp add: paid_refl)

section \<open>Properties\<close>

text \<open>C24: (bounds) The throttle bounds the work: in a window of some duration the parser is called at most once more
  than the throttle interval fits into it, however many deltas arrive, fail to parse, or are dropped by the sink.\<close>

theorem parse_rate_bounded:
  assumes "clock_lawful cfg time calls" "0 < cf_ParseThrottleInterval cfg"
    and "feed cfg ds (NewStreamCadence zeroTime) s = (err, acc', s')"
  shows "int (calls s' - calls s) \<le> 1 + (time s' - time s) div cf_ParseThrottleInterval cfg"
proof -
  let ?i = "cf_ParseThrottleInterval cfg" and ?a = "NewStreamCadence zeroTime"
  have ok: "clock_ok time ?a s" by (simp add: clock_ok_def NewStreamCadence_def)
  have "credit ?i time acc' s' \<le> time s'" "int (calls s' - calls s) * ?i \<le> credit ?i time acc' s' - credit ?i time ?a s"
    using feed_paid[OF assms(1) ok assms(3)] assms(2) by (auto simp: paid_def clock_ok_def credit_def)
  then have "(int (calls s' - calls s) - 1) * ?i \<le> time s' - time s"
    by (simp add: credit_def NewStreamCadence_def left_diff_distrib)
  from zdiv_mono1[OF this assms(2)] have "int (calls s' - calls s) - 1 \<le> (time s' - time s) div ?i"
    using assms(2) by simp
  then show ?thesis by simp
qed

text \<open>A window whose clock ticks once per event and whose parser never finds a partial.\<close>

definition demo_cadence :: "(unit, int \<times> nat) cadence_config" where
  "demo_cadence = \<lparr>cf_NeedsPartials = True, cf_NeedsRaw = True, cf_ParseThrottleInterval = 3,
     cf_ParsePartial = Some (\<lambda>text (t, n). (Inl (Err ''no''), t, Suc n)), cf_Emit = \<lambda>ev (t, n). (None, t + 1, n),
     cf_ParsePolicy = CadenceParseErrorsAreNoEvent, cf_Now = \<lambda>(t, n). (t, t, n)\<rparr>"

theorem parse_rate_bounded_witness:
  "feed demo_cadence (replicate 7 (''p'', ''r'', [])) (NewStreamCadence 0) (50, 0) =
     (None, \<lparr>ac_parseable = ''ppppppp'', ac_raw = ''rrrrrrr'', ac_reasoning = [], ac_parsed = True, ac_lastParseTime = 56\<rparr>, (57, 3)) \<and>
   int (3 - 0) \<le> 1 + (57 - 50 :: int) div 3"
proof -
  have law: "clock_lawful demo_cadence fst snd" by (auto simp: clock_lawful_def demo_cadence_def)
  have run: "feed demo_cadence (replicate 7 (''p'', ''r'', [])) (NewStreamCadence 0) (50, 0) =
     (None, \<lparr>ac_parseable = ''ppppppp'', ac_raw = ''rrrrrrr'', ac_reasoning = [], ac_parsed = True, ac_lastParseTime = 56\<rparr>, (57, 3))"
    by code_simp
  have "0 < cf_ParseThrottleInterval demo_cadence" by (simp add: demo_cadence_def)
  from parse_rate_bounded[OF law this run] show ?thesis using run by (simp add: demo_cadence_def)
qed

end
