(* ===== verification/Sse_Extract.thy ===== *)
theory Sse_Extract
  imports Go_Errors
begin

text \<open>
  \<^verbatim>\<open>sse/extract.go\<close>: what one server-sent event of a provider adds to the text and the reasoning of a
  response, and the extractor that keeps up with the chunks of a call. The JSON library is a
  parameter: \<open>'r\<close> is its result type, \<open>gjson\<close> the operations that the file uses. A chunk is what its
  \<^verbatim>\<open>Text\<close> method returns.
\<close>

record 'r gjson =
  gj_Get :: "string \<Rightarrow> string \<Rightarrow> 'r"
  gj_GetBytes :: "string \<Rightarrow> string \<Rightarrow> 'r"
  gj_is_String :: "'r \<Rightarrow> bool"
  gj_String :: "'r \<Rightarrow> string"
  gj_Bool :: "'r \<Rightarrow> bool"
  gj_IsArray :: "'r \<Rightarrow> bool"
  gj_elements :: "'r \<Rightarrow> 'r list"
  gj_member :: "'r \<Rightarrow> string \<Rightarrow> 'r"
  gj_ValidBytes :: "string \<Rightarrow> bool"
  gj_IsObject :: "'r \<Rightarrow> bool"
  gj_Exists :: "'r \<Rightarrow> bool"
  gj_TypeName :: "'r \<Rightarrow> string"

record delta_parts =
  dp_Parseable :: string
  dp_Raw :: string
  dp_Reasoning :: string

definition no_delta :: delta_parts where
  "no_delta = \<lparr>dp_Parseable = [], dp_Raw = [], dp_Reasoning = []\<rparr>"

definition text_delta :: "string \<Rightarrow> delta_parts" where
  "text_delta t = \<lparr>dp_Parseable = t, dp_Raw = t, dp_Reasoning = []\<rparr>"

section \<open>The debug form of Bedrock events\<close>

text \<open>The regular expression \<^verbatim>\<open>Text\("((?:[^"\\]|\\.)*)"\)\<close>: each repetition is decided by its first byte,
  and none can start with the quote that must follow the last, so the match is the longest run of
  repetitions.\<close>

abbreviation QUOTE :: char where "QUOTE \<equiv> CHR 0x22"
abbreviation BACKSLASH :: char where "BACKSLASH \<equiv> CHR 0x5C"

fun debug_units :: "string \<Rightarrow> string \<times> string" where
  "debug_units [] = ([], [])"
| "debug_units [c] = (if c = QUOTE \<or> c = BACKSLASH then ([], [c]) else ([c], []))"
| "debug_units (c # d # s) =
     (if c = QUOTE then ([], c # d # s)
      else if c = BACKSLASH
      then (if d = CHR 0x0A then ([], c # d # s) else (case debug_units s of (g, r) \<Rightarrow> (c # d # g, r)))
      else (case debug_units (d # s) of (g, r) \<Rightarrow> (c # g, r)))"

definition match_text :: "string \<Rightarrow> string option" where
  "match_text s =
     (if has_prefix s (''Text('' @ [QUOTE])
      then (case debug_units (drop 6 s) of (g, r) \<Rightarrow> if has_prefix r [QUOTE, CHR '')''] then Some g else None)
      else None)"

fun FindStringSubmatch :: "string \<Rightarrow> string option" where
  "FindStringSubmatch [] = None"
| "FindStringSubmatch (c # s) = (case match_text (c # s) of Some g \<Rightarrow> Some g | None \<Rightarrow> FindStringSubmatch s)"

text \<open>\<^verbatim>\<open>strings.ReplaceAll\<close> for a non-empty pattern.\<close>

function replace_all :: "string \<Rightarrow> string \<Rightarrow> string \<Rightarrow> string" where
  "replace_all old new [] = []"
| "replace_all old new (c # s) =
     (if old \<noteq> [] \<and> has_prefix (c # s) old then new @ replace_all old new (drop (length old) (c # s))
      else c # replace_all old new s)"
  by pat_completeness auto

termination
  by (relation "measure (\<lambda>(old, new, s). length s)") auto

definition extractBedrockFromDebug :: "string \<Rightarrow> string" where
  "extractBedrockFromDebug debugStr =
     (if \<not> has_prefix debugStr ''ContentBlockDelta'' then []
      else (case FindStringSubmatch debugStr of
              None \<Rightarrow> []
            | Some m \<Rightarrow> replace_all [BACKSLASH, BACKSLASH] [BACKSLASH] (replace_all [BACKSLASH, QUOTE] [QUOTE] m)))"

section \<open>One event\<close>

text \<open>The parts of a Google event, with the three string builders.\<close>

definition google_part :: "'r gjson \<Rightarrow> bool \<Rightarrow> 'r \<Rightarrow> delta_parts \<Rightarrow> delta_parts" where
  "google_part gj includeReasoning part d =
     (let text = gj_member gj part ''text''
      in if \<not> gj_is_String gj text then d
         else if gj_Bool gj (gj_member gj part ''thought'')
         then (if includeReasoning then d\<lparr>dp_Reasoning := dp_Reasoning d @ gj_String gj text\<rparr> else d)
         else d\<lparr>dp_Parseable := dp_Parseable d @ gj_String gj text, dp_Raw := dp_Raw d @ gj_String gj text\<rparr>)"

definition extractDeltaParts :: "'r gjson \<Rightarrow> string \<Rightarrow> (string \<Rightarrow> 'r) \<Rightarrow> bool \<Rightarrow> go_error + delta_parts" where
  "extractDeltaParts gj provider get includeReasoning =
     (if provider \<in> {''openai'', ''openai-generic'', ''azure-openai'', ''ollama'', ''openrouter''} then
        (let delta = gj_String gj (get ''choices.0.delta.content'');
             reasoning = get ''choices.0.delta.reasoning_content''
         in Inr ((text_delta delta)\<lparr>dp_Reasoning :=
              (if includeReasoning \<and> gj_is_String gj reasoning then gj_String gj reasoning else [])\<rparr>))
      else if provider = ''openai-responses'' then
        (let ty = gj_String gj (get ''type'')
         in if ty = ''response.output_text.delta'' then
              (if \<not> gj_is_String gj (get ''delta'') then Inr no_delta
               else Inr (text_delta (gj_String gj (get ''delta''))))
            else if ty = ''response.reasoning_summary_text.delta'' then
              (if \<not> includeReasoning then Inr no_delta
               else if \<not> gj_is_String gj (get ''delta'') then Inr no_delta
               else Inr (no_delta\<lparr>dp_Reasoning := gj_String gj (get ''delta'')\<rparr>))
            else Inr no_delta)
      else if provider = ''anthropic'' then
        (if gj_String gj (get ''type'') = ''content_block_delta'' then
           (let dt = gj_String gj (get ''delta.type'')
            in if dt = ''text_delta'' then Inr (text_delta (gj_String gj (get ''delta.text'')))
               else if dt = ''thinking_delta'' then
                 (if \<not> includeReasoning then Inr no_delta
                  else Inr (no_delta\<lparr>dp_Reasoning := gj_String gj (get ''delta.thinking'')\<rparr>))
               else Inr no_delta)
         else Inr no_delta)
      else if provider = ''google-ai'' \<or> provider = ''vertex-ai'' then
        (let parts = get ''candidates.0.content.parts''
         in Inr (if gj_IsArray gj parts then fold (google_part gj includeReasoning) (gj_elements gj parts) no_delta
                 else no_delta))
      else if provider = ''aws-bedrock'' then
        Inr (text_delta (extractBedrockFromDebug (gj_String gj (get ''debug''))))
      else Inl (Err (''unsupported provider: '' @ provider)))"

definition ExtractDeltaPartsFromText :: "'r gjson \<Rightarrow> string \<Rightarrow> string \<Rightarrow> bool \<Rightarrow> go_error + delta_parts" where
  "ExtractDeltaPartsFromText gj provider rawText includeReasoning =
     extractDeltaParts gj provider (gj_Get gj rawText) includeReasoning"

definition ExtractDeltaPartsFromBytes :: "'r gjson \<Rightarrow> string \<Rightarrow> string \<Rightarrow> bool \<Rightarrow> go_error + delta_parts" where
  "ExtractDeltaPartsFromBytes gj provider data includeReasoning =
     extractDeltaParts gj provider (gj_GetBytes gj data) includeReasoning"

definition ExtractDeltaFromText :: "'r gjson \<Rightarrow> string \<Rightarrow> string \<Rightarrow> bool \<Rightarrow> go_error + string" where
  "ExtractDeltaFromText gj provider rawText includeReasoning =
     (case ExtractDeltaPartsFromText gj provider rawText includeReasoning of
        Inl err \<Rightarrow> Inl err | Inr delta \<Rightarrow> Inr (dp_Raw delta))"

definition IsDeltaProviderSupported :: "string \<Rightarrow> bool" where
  "IsDeltaProviderSupported provider \<longleftrightarrow>
     provider \<in> {''openai'', ''openai-generic'', ''azure-openai'', ''ollama'', ''openrouter'', ''openai-responses'',
       ''anthropic'', ''google-ai'', ''vertex-ai'', ''aws-bedrock''}"

section \<open>The content of a call\<close>

type_synonym sse_chunk = "go_error + string"

definition ExtractDeltaContent :: "'r gjson \<Rightarrow> string \<Rightarrow> sse_chunk \<Rightarrow> bool \<Rightarrow> go_error + string" where
  "ExtractDeltaContent gj provider chunk includeReasoning =
     (case chunk of
        Inl err \<Rightarrow> Inl (ErrWrap ''failed to get chunk text: '' err)
      | Inr rawText \<Rightarrow> ExtractDeltaFromText gj provider rawText includeReasoning)"

record streaming_call =
  sc_Provider :: string
  sc_Chunks :: "sse_chunk list"

fun content_loop :: "'r gjson \<Rightarrow> string \<Rightarrow> bool \<Rightarrow> sse_chunk list \<Rightarrow> string \<Rightarrow> string" where
  "content_loop gj provider includeReasoning [] sb = sb"
| "content_loop gj provider includeReasoning (chunk # chunks) sb =
     content_loop gj provider includeReasoning chunks
       (case ExtractDeltaContent gj provider chunk includeReasoning of
          Inl err \<Rightarrow> sb | Inr delta \<Rightarrow> if delta \<noteq> [] then sb @ delta else sb)"

definition GetCurrentContent :: "'r gjson \<Rightarrow> streaming_call list \<Rightarrow> bool \<Rightarrow> string" where
  "GetCurrentContent gj calls includeReasoning =
     (if calls = [] then []
      else content_loop gj (sc_Provider (last calls)) includeReasoning (sc_Chunks (last calls)) [])"

section \<open>The incremental extractor\<close>

record extractor =
  ix_callCount :: int
  ix_cursor :: nat
  ix_parseable :: string
  ix_raw :: string
  ix_reasoning :: string
  ix_includeReasoning :: bool

record extract_result =
  xr_ParseableDelta :: string
  xr_ParseableFull :: string
  xr_RawDelta :: string
  xr_RawFull :: string
  xr_ReasoningDelta :: string
  xr_ReasoningFull :: string
  xr_Reset :: bool

definition NewIncrementalExtractor :: "bool \<Rightarrow> extractor" where
  "NewIncrementalExtractor includeReasoning = \<lparr>ix_callCount = 0, ix_cursor = 0, ix_parseable = [], ix_raw = [],
     ix_reasoning = [], ix_includeReasoning = includeReasoning\<rparr>"

definition Clear :: "extractor \<Rightarrow> extractor" where
  "Clear e = e\<lparr>ix_callCount := 0, ix_cursor := 0, ix_parseable := [], ix_raw := [], ix_reasoning := []\<rparr>"

text \<open>The body of the loop that rebuilds.\<close>

definition write_parts :: "delta_parts \<Rightarrow> extractor \<Rightarrow> extractor" where
  "write_parts parts e =
     (let e = (if dp_Parseable parts \<noteq> [] then e\<lparr>ix_parseable := ix_parseable e @ dp_Parseable parts\<rparr> else e);
          e = (if dp_Raw parts \<noteq> [] then e\<lparr>ix_raw := ix_raw e @ dp_Raw parts\<rparr> else e)
      in if dp_Reasoning parts \<noteq> [] then e\<lparr>ix_reasoning := ix_reasoning e @ dp_Reasoning parts\<rparr> else e)"

fun full_loop :: "'r gjson \<Rightarrow> string \<Rightarrow> sse_chunk list \<Rightarrow> extractor \<Rightarrow> extractor" where
  "full_loop gj provider [] e = e"
| "full_loop gj provider (chunk # chunks) e =
     full_loop gj provider chunks
       (case chunk of
          Inl err \<Rightarrow> e
        | Inr rawText \<Rightarrow>
            (case ExtractDeltaPartsFromText gj provider rawText (ix_includeReasoning e) of
               Inl err \<Rightarrow> e
             | Inr parts \<Rightarrow> write_parts parts e))"

text \<open>The loop over the new chunks also writes to the three delta builders.\<close>

fun delta_loop :: "'r gjson \<Rightarrow> string \<Rightarrow> sse_chunk list \<Rightarrow> delta_parts \<Rightarrow> extractor \<Rightarrow> delta_parts \<times> extractor" where
  "delta_loop gj provider [] d e = (d, e)"
| "delta_loop gj provider (chunk # chunks) d e =
     (case chunk of
        Inl err \<Rightarrow> delta_loop gj provider chunks d e
      | Inr rawText \<Rightarrow>
          (case ExtractDeltaPartsFromText gj provider rawText (ix_includeReasoning e) of
             Inl err \<Rightarrow> delta_loop gj provider chunks d e
           | Inr parts \<Rightarrow>
               delta_loop gj provider chunks
                 \<lparr>dp_Parseable = (if dp_Parseable parts \<noteq> [] then dp_Parseable d @ dp_Parseable parts else dp_Parseable d),
                  dp_Raw = (if dp_Raw parts \<noteq> [] then dp_Raw d @ dp_Raw parts else dp_Raw d),
                  dp_Reasoning = (if dp_Reasoning parts \<noteq> [] then dp_Reasoning d @ dp_Reasoning parts else dp_Reasoning d)\<rparr>
                 (write_parts parts e)))"

definition ExtractFrom ::
    "'r gjson \<Rightarrow> extractor \<Rightarrow> int \<Rightarrow> string \<Rightarrow> sse_chunk list \<Rightarrow> extract_result \<times> extractor" where
  "ExtractFrom gj e callCount provider chunks =
     (if callCount = 0
      then (\<lparr>xr_ParseableDelta = [], xr_ParseableFull = [], xr_RawDelta = [], xr_RawFull = [],
             xr_ReasoningDelta = [], xr_ReasoningFull = [], xr_Reset = False\<rparr>, e)
      else
        (let isFirstExtraction = (ix_callCount e = 0);
             isRetry = (\<not> isFirstExtraction \<and> callCount \<noteq> ix_callCount e);
             chunksDecreased = (\<not> isFirstExtraction \<and> length chunks < ix_cursor e)
         in if isFirstExtraction \<or> isRetry \<or> chunksDecreased
            then (let e = e\<lparr>ix_callCount := callCount, ix_cursor := 0, ix_parseable := [], ix_raw := [], ix_reasoning := []\<rparr>;
                      e = (full_loop gj provider chunks e)\<lparr>ix_cursor := length chunks\<rparr>
                  in (\<lparr>xr_ParseableDelta = ix_parseable e, xr_ParseableFull = ix_parseable e,
                       xr_RawDelta = ix_raw e, xr_RawFull = ix_raw e,
                       xr_ReasoningDelta = ix_reasoning e, xr_ReasoningFull = ix_reasoning e,
                       xr_Reset = (isRetry \<or> chunksDecreased)\<rparr>, e))
            else (case delta_loop gj provider (drop (ix_cursor e) chunks) no_delta e of (d, e) \<Rightarrow>
                    (let e = e\<lparr>ix_cursor := length chunks\<rparr>
                     in (\<lparr>xr_ParseableDelta = dp_Parseable d, xr_ParseableFull = ix_parseable e,
                          xr_RawDelta = dp_Raw d, xr_RawFull = ix_raw e,
                          xr_ReasoningDelta = dp_Reasoning d, xr_ReasoningFull = ix_reasoning e,
                          xr_Reset = False\<rparr>, e)))))"

section \<open>One event: lemmas\<close>

text \<open>The event with the reasoning asked for, and without.\<close>

definition reasoning_apart :: "delta_parts \<Rightarrow> delta_parts \<Rightarrow> bool" where
  "reasoning_apart a b \<longleftrightarrow> dp_Parseable a = dp_Parseable b \<and> dp_Raw a = dp_Raw b \<and> dp_Raw a = dp_Parseable a \<and>
     dp_Reasoning b = []"

lemma google_part_apart: "reasoning_apart a b \<Longrightarrow> reasoning_apart (google_part gj True p a) (google_part gj False p b)"
  unfolding reasoning_apart_def google_part_def Let_def by (elim conjE, intro conjI) simp_all

lemma google_parts_apart:
  "reasoning_apart a b \<Longrightarrow> reasoning_apart (fold (google_part gj True) ps a) (fold (google_part gj False) ps b)"
  by (induction ps arbitrary: a b) (simp_all add: google_part_apart)

lemma reasoning_apart_no_delta: "reasoning_apart no_delta no_delta"
  by (simp add: reasoning_apart_def no_delta_def)

lemma extractDeltaParts_reasoning:
  assumes "IsDeltaProviderSupported provider"
  shows "\<exists>a b. extractDeltaParts gj provider get True = Inr a \<and> extractDeltaParts gj provider get False = Inr b \<and>
    reasoning_apart a b"
proof (cases "provider \<in> {''openai'', ''openai-generic'', ''azure-openai'', ''ollama'', ''openrouter''}")
  case True
  show ?thesis unfolding extractDeltaParts_def if_P[OF True]
    by (simp add: Let_def reasoning_apart_def text_delta_def)
next
  case False
  then have "provider = ''openai-responses'' \<or> provider = ''anthropic'' \<or> provider = ''google-ai'' \<or>
      provider = ''vertex-ai'' \<or> provider = ''aws-bedrock''"
    using assms by (simp add: IsDeltaProviderSupported_def)
  then show ?thesis
    using google_parts_apart[OF reasoning_apart_no_delta, of gj "gj_elements gj (get ''candidates.0.content.parts'')"]
    by (elim disjE)
      (simp_all add: extractDeltaParts_def Let_def reasoning_apart_no_delta,
        simp_all add: reasoning_apart_def text_delta_def no_delta_def)
qed

lemma extractDeltaParts_unsupported:
  "\<not> IsDeltaProviderSupported provider \<Longrightarrow>
     extractDeltaParts gj provider get includeReasoning = Inl (Err (''unsupported provider: '' @ provider))"
  by (auto simp: extractDeltaParts_def IsDeltaProviderSupported_def)

text \<open>What a chunk adds; an event that cannot be read adds nothing.\<close>

definition chunk_parts :: "'r gjson \<Rightarrow> string \<Rightarrow> bool \<Rightarrow> sse_chunk \<Rightarrow> delta_parts" where
  "chunk_parts gj provider includeReasoning chunk =
     (case chunk of Inl err \<Rightarrow> no_delta
      | Inr rawText \<Rightarrow> (case ExtractDeltaPartsFromText gj provider rawText includeReasoning of Inl err \<Rightarrow> no_delta | Inr parts \<Rightarrow> parts))"

definition chunks_text :: "(delta_parts \<Rightarrow> string) \<Rightarrow> 'r gjson \<Rightarrow> string \<Rightarrow> bool \<Rightarrow> sse_chunk list \<Rightarrow> string" where
  "chunks_text f gj provider includeReasoning chunks = concat (map (f \<circ> chunk_parts gj provider includeReasoning) chunks)"

lemma chunks_text_simps [simp]:
  "chunks_text f gj provider inc [] = []"
  "chunks_text f gj provider inc (c # cs) = f (chunk_parts gj provider inc c) @ chunks_text f gj provider inc cs"
  "chunks_text f gj provider inc (cs @ ds) = chunks_text f gj provider inc cs @ chunks_text f gj provider inc ds"
  by (simp_all add: chunks_text_def)

lemma chunk_raw_reasoning: "dp_Raw (chunk_parts gj provider inc c) = dp_Raw (chunk_parts gj provider inc' c)"
proof (cases "IsDeltaProviderSupported provider")
  case True
  have "dp_Raw (chunk_parts gj provider True c) = dp_Raw (chunk_parts gj provider False c)"
  proof (cases c)
    case (Inr t)
    obtain a b where "extractDeltaParts gj provider (gj_Get gj t) True = Inr a"
        "extractDeltaParts gj provider (gj_Get gj t) False = Inr b" "reasoning_apart a b"
      using extractDeltaParts_reasoning[OF True, of gj "gj_Get gj t"] by blast
    then show ?thesis using Inr by (simp add: chunk_parts_def ExtractDeltaPartsFromText_def reasoning_apart_def)
  qed (simp add: chunk_parts_def)
  then show ?thesis by (cases inc; cases inc') simp_all
next
  case False
  then show ?thesis
    by (cases c) (simp_all add: chunk_parts_def ExtractDeltaPartsFromText_def extractDeltaParts_unsupported)
qed

lemma content_loop_text: "content_loop gj provider inc chunks sb = sb @ chunks_text dp_Raw gj provider inc chunks"
  by (induction chunks arbitrary: sb)
    (auto simp: ExtractDeltaContent_def ExtractDeltaFromText_def chunk_parts_def no_delta_def split: sum.split)

lemma chunks_text_raw: "chunks_text dp_Raw gj provider inc chunks = chunks_text dp_Raw gj provider inc' chunks"
  by (induction chunks) (simp_all add: chunk_raw_reasoning[of gj provider inc _ inc'])

section \<open>The extractor: lemmas\<close>

lemma write_parts_simps [simp]:
  "ix_parseable (write_parts p e) = ix_parseable e @ dp_Parseable p"
  "ix_raw (write_parts p e) = ix_raw e @ dp_Raw p"
  "ix_reasoning (write_parts p e) = ix_reasoning e @ dp_Reasoning p"
  "ix_includeReasoning (write_parts p e) = ix_includeReasoning e"
  "ix_callCount (write_parts p e) = ix_callCount e"
  by (simp_all add: write_parts_def Let_def)

text \<open>The extractor has written these chunks on top of another.\<close>

definition wrote :: "'r gjson \<Rightarrow> string \<Rightarrow> sse_chunk list \<Rightarrow> extractor \<Rightarrow> extractor \<Rightarrow> bool" where
  "wrote gj provider chunks e e' \<longleftrightarrow>
     ix_parseable e' = ix_parseable e @ chunks_text dp_Parseable gj provider (ix_includeReasoning e) chunks \<and>
     ix_raw e' = ix_raw e @ chunks_text dp_Raw gj provider (ix_includeReasoning e) chunks \<and>
     ix_reasoning e' = ix_reasoning e @ chunks_text dp_Reasoning gj provider (ix_includeReasoning e) chunks \<and>
     ix_includeReasoning e' = ix_includeReasoning e \<and> ix_callCount e' = ix_callCount e"

lemma rebuild_loop_wrote: "wrote gj provider chunks e (full_loop gj provider chunks e)"
  by (induction chunks arbitrary: e)
    (auto simp: wrote_def chunk_parts_def no_delta_def split: sum.split)

lemma delta_loop_wrote:
  assumes "delta_loop gj provider chunks d e = (d', e')"
  shows "wrote gj provider chunks e e' \<and>
    dp_Parseable d' = dp_Parseable d @ chunks_text dp_Parseable gj provider (ix_includeReasoning e) chunks \<and>
    dp_Raw d' = dp_Raw d @ chunks_text dp_Raw gj provider (ix_includeReasoning e) chunks \<and>
    dp_Reasoning d' = dp_Reasoning d @ chunks_text dp_Reasoning gj provider (ix_includeReasoning e) chunks"
  using assms
proof (induction chunks arbitrary: d e)
  case (Cons c chunks)
  show ?case using Cons.prems
    by (cases c)
      (auto simp: wrote_def chunk_parts_def no_delta_def split: sum.splits dest!: Cons.IH)
qed (simp add: wrote_def)

text \<open>A consumer that follows the results: it appends the deltas, after dropping what it has at a reset.\<close>

definition follow :: "extract_result \<Rightarrow> delta_parts \<Rightarrow> delta_parts" where
  "follow r v = (if xr_Reset r
     then \<lparr>dp_Parseable = xr_ParseableDelta r, dp_Raw = xr_RawDelta r, dp_Reasoning = xr_ReasoningDelta r\<rparr>
     else \<lparr>dp_Parseable = dp_Parseable v @ xr_ParseableDelta r, dp_Raw = dp_Raw v @ xr_RawDelta r,
           dp_Reasoning = dp_Reasoning v @ xr_ReasoningDelta r\<rparr>)"

type_synonym tick = "int \<times> string \<times> sse_chunk list"

fun run_ticks :: "'r gjson \<Rightarrow> tick list \<Rightarrow> delta_parts \<Rightarrow> extractor \<Rightarrow> delta_parts \<times> extractor" where
  "run_ticks gj [] v e = (v, e)"
| "run_ticks gj ((callCount, provider, chunks) # ticks) v e =
     (case ExtractFrom gj e callCount provider chunks of (r, e) \<Rightarrow> run_ticks gj ticks (follow r v) e)"

definition buffers :: "extractor \<Rightarrow> delta_parts" where
  "buffers e = \<lparr>dp_Parseable = ix_parseable e, dp_Raw = ix_raw e, dp_Reasoning = ix_reasoning e\<rparr>"

text \<open>An extractor that has not been used is empty.\<close>

definition fresh_empty :: "extractor \<Rightarrow> bool" where
  "fresh_empty e \<longleftrightarrow> (ix_callCount e = 0 \<longrightarrow> buffers e = no_delta)"

lemma ExtractFrom_cases:
  assumes "ExtractFrom gj e callCount provider chunks = (r, e')"
  obtains (none) "callCount = 0" "e' = e" "xr_Reset r = False" "follow r v = v"
  | (rebuild) e0 where "callCount \<noteq> 0" "ix_callCount e = 0 \<or> callCount \<noteq> ix_callCount e \<or> length chunks < ix_cursor e"
      "wrote gj provider chunks e0 e'" "buffers e0 = no_delta" "ix_includeReasoning e0 = ix_includeReasoning e"
      "ix_callCount e' = callCount" "ix_cursor e' = length chunks"
      "xr_Reset r = (ix_callCount e \<noteq> 0)" "follow r v = (if ix_callCount e = 0 then follow (r\<lparr>xr_Reset := False\<rparr>) v else buffers e')"
      "follow (r\<lparr>xr_Reset := False\<rparr>) no_delta = buffers e'"
  | (extend) "callCount \<noteq> 0" "callCount = ix_callCount e" "ix_cursor e \<le> length chunks"
      "wrote gj provider (drop (ix_cursor e) chunks) e e'" "ix_cursor e' = length chunks" "xr_Reset r = False"
      "v = buffers e \<Longrightarrow> follow r v = buffers e'"
proof (cases "callCount = 0")
  case True
  then show thesis using none assms by (auto simp: ExtractFrom_def follow_def)
next
  case nz: False
  show thesis
  proof (cases "ix_callCount e = 0 \<or> callCount \<noteq> ix_callCount e \<or> length chunks < ix_cursor e")
    case True
    let ?e0 = "e\<lparr>ix_callCount := callCount, ix_cursor := 0, ix_parseable := [], ix_raw := [], ix_reasoning := []\<rparr>"
    note w = rebuild_loop_wrote[of gj provider chunks ?e0]
    have e': "e' = (full_loop gj provider chunks ?e0)\<lparr>ix_cursor := length chunks\<rparr>"
      and r: "r = \<lparr>xr_ParseableDelta = ix_parseable e', xr_ParseableFull = ix_parseable e',
        xr_RawDelta = ix_raw e', xr_RawFull = ix_raw e', xr_ReasoningDelta = ix_reasoning e', xr_ReasoningFull = ix_reasoning e',
        xr_Reset = (ix_callCount e \<noteq> 0)\<rparr>"
      using assms nz True by (cases "ix_callCount e = 0"; auto simp: ExtractFrom_def Let_def)+
    show thesis
      by (rule rebuild[of ?e0])
        (use nz True w in \<open>simp_all add: e' r wrote_def buffers_def no_delta_def follow_def\<close>)
  next
    case False
    obtain d e1 where d: "delta_loop gj provider (drop (ix_cursor e) chunks) no_delta e = (d, e1)" by force
    note w = delta_loop_wrote[OF d]
    show thesis
      by (rule extend) (use assms nz False d w in \<open>auto simp: ExtractFrom_def Let_def wrote_def buffers_def no_delta_def follow_def\<close>)
  qed
qed

lemma follow_step:
  assumes "ExtractFrom gj e callCount provider chunks = (r, e')" "v = buffers e" "fresh_empty e"
  shows "follow r v = buffers e' \<and> fresh_empty e'"
  using assms(1)
proof (cases rule: ExtractFrom_cases[where v = v])
  case rebuild
  then show ?thesis using assms(2,3) by (auto simp: fresh_empty_def)
qed (use assms(2,3) in \<open>auto simp: fresh_empty_def wrote_def\<close>)

lemma run_ticks_follow:
  "fresh_empty e \<Longrightarrow> run_ticks gj ticks (buffers e) e = (v, e') \<Longrightarrow> v = buffers e'"
proof (induction ticks arbitrary: e)
  case (Cons t ticks)
  obtain callCount provider chunks where t: "t = (callCount, provider, chunks)" by (cases t) auto
  obtain r e1 where x: "ExtractFrom gj e callCount provider chunks = (r, e1)" by force
  from follow_step[OF x refl Cons.prems(1)] Cons.IH[of e1] Cons.prems(2) show ?case by (simp add: t x)
qed simp

text \<open>Ticks as a call log gives them: within a call the provider stays and the chunks grow, unless their
  number drops.\<close>

fun call_log :: "tick \<Rightarrow> tick list \<Rightarrow> bool" where
  "call_log t [] = True"
| "call_log (c, p, ch) ((c', p', ch') # ticks) \<longleftrightarrow>
     c' \<noteq> 0 \<and> (c' = c \<longrightarrow> length ch \<le> length ch' \<longrightarrow> p' = p \<and> prefix ch ch') \<and> call_log (c', p', ch') ticks"

definition call_text :: "'r gjson \<Rightarrow> string \<Rightarrow> bool \<Rightarrow> sse_chunk list \<Rightarrow> delta_parts" where
  "call_text gj provider inc chunks =
     \<lparr>dp_Parseable = chunks_text dp_Parseable gj provider inc chunks, dp_Raw = chunks_text dp_Raw gj provider inc chunks,
      dp_Reasoning = chunks_text dp_Reasoning gj provider inc chunks\<rparr>"

fun in_step :: "'r gjson \<Rightarrow> extractor \<Rightarrow> tick \<Rightarrow> bool" where
  "in_step gj e (c, p, ch) \<longleftrightarrow> c \<noteq> 0 \<and> ix_callCount e = c \<and> ix_cursor e = length ch \<and>
     buffers e = call_text gj p (ix_includeReasoning e) ch"

lemma in_step_rebuild:
  assumes "wrote gj provider chunks e0 e'" "buffers e0 = no_delta"
  shows "buffers e' = call_text gj provider (ix_includeReasoning e') chunks"
  using assms by (simp add: wrote_def buffers_def no_delta_def call_text_def)

lemma in_step_extend:
  assumes "wrote gj p (drop (length ch) ch') e e'" "buffers e = call_text gj p (ix_includeReasoning e) ch" "prefix ch ch'"
  shows "buffers e' = call_text gj p (ix_includeReasoning e') ch'"
  using assms by (auto simp: wrote_def buffers_def call_text_def elim!: prefixE)

lemma in_step_next:
  assumes "ExtractFrom gj e c' p' ch' = (r, e')" "c' \<noteq> 0" "ix_callCount e \<noteq> 0 \<Longrightarrow> in_step gj e t"
    and "ix_callCount e \<noteq> 0 \<Longrightarrow> call_log t [(c', p', ch')]"
  shows "in_step gj e' (c', p', ch')"
  using assms(1)
proof (cases rule: ExtractFrom_cases[where v = no_delta])
  case none
  then show ?thesis using assms(2) by simp
next
  case rebuild
  then show ?thesis using in_step_rebuild by simp
next
  case extend
  obtain c p ch where t: "t = (c, p, ch)" by (cases t) auto
  have "in_step gj e t" "call_log t [(c', p', ch')]" using assms(3,4) extend(1,2) by auto
  then show ?thesis using extend t in_step_extend[of gj p' ch ch' e e'] by (auto simp: wrote_def)
qed

lemma run_ticks_in_step:
  "in_step gj e t \<Longrightarrow> call_log t ticks \<Longrightarrow> in_step gj (snd (run_ticks gj ticks v e)) (last (t # ticks))"
proof (induction ticks arbitrary: e t v)
  case (Cons t' ticks)
  obtain c p ch c' p' ch' where t: "t = (c, p, ch)" "t' = (c', p', ch')" by (cases t; cases t') auto
  obtain r e' where x: "ExtractFrom gj e c' p' ch' = (r, e')" by force
  have "in_step gj e' t'" using in_step_next[OF x, of t] Cons.prems by (simp add: t)
  moreover have "call_log t' ticks" using Cons.prems(2) by (simp add: t)
  ultimately show ?case using Cons.IH[of e' t' "follow r v"] by (simp add: t x)
qed simp

lemma run_ticks_reasoning: "ix_includeReasoning (snd (run_ticks gj ticks v e)) = ix_includeReasoning e"
proof (induction ticks arbitrary: e v)
  case (Cons t ticks)
  obtain c p ch where t: "t = (c, p, ch)" by (cases t) auto
  obtain r e' where x: "ExtractFrom gj e c p ch = (r, e')" by force
  then have "ix_includeReasoning e' = ix_includeReasoning e"
    by (cases rule: ExtractFrom_cases[where v = no_delta]) (simp_all add: wrote_def)
  then show ?case using Cons by (simp add: t x)
qed simp

section \<open>The debug form: lemmas\<close>

text \<open>How the debug form escapes a text.\<close>

fun debug_escape :: "string \<Rightarrow> string" where
  "debug_escape [] = []"
| "debug_escape (c # t) = (if c = QUOTE \<or> c = BACKSLASH then [BACKSLASH, c] else [c]) @ debug_escape t"

fun half_escape :: "string \<Rightarrow> string" where
  "half_escape [] = []"
| "half_escape (c # t) = (if c = BACKSLASH then [BACKSLASH, c] else [c]) @ half_escape t"

lemma debug_escape_hd: "\<not> has_prefix (debug_escape t) [QUOTE]"
  by (cases t) (auto simp: has_prefix_def)

lemma debug_units_escape: "debug_units (debug_escape t @ QUOTE # s) = (debug_escape t, QUOTE # s)"
proof (induction t)
  case Nil
  then show ?case by (cases s) auto
next
  case (Cons c t)
  obtain d u where r: "debug_escape t @ QUOTE # s = d # u" by (cases "debug_escape t") auto
  show ?case
  proof (cases "c = QUOTE \<or> c = BACKSLASH")
    case True
    then show ?thesis using Cons r by (auto simp: r)
  next
    case False
    then show ?thesis using Cons r by (cases u) auto
  qed
qed

lemma replace_quotes: "replace_all [BACKSLASH, QUOTE] [QUOTE] (debug_escape t) = half_escape t"
proof (induction t)
  case (Cons c t)
  have "\<not> has_prefix (BACKSLASH # debug_escape t) [BACKSLASH, QUOTE]"
    using debug_escape_hd[of t] by (auto simp: has_prefix_def)
  then show ?case using Cons by (auto simp: has_prefix_def)
qed simp

lemma replace_backslashes: "replace_all [BACKSLASH, BACKSLASH] [BACKSLASH] (half_escape t) = t"
  by (induction t) (auto simp: has_prefix_def)

lemma match_text_escape:
  "match_text (''Text('' @ QUOTE # debug_escape t @ QUOTE # CHR '')'' # post) = Some (debug_escape t)"
proof -
  have "drop 6 (''Text('' @ QUOTE # debug_escape t @ QUOTE # CHR '')'' # post) = debug_escape t @ QUOTE # CHR '')'' # post"
    by (simp add: numeral_eq_Suc)
  then show ?thesis unfolding match_text_def by (simp add: debug_units_escape has_prefix_def)
qed

lemma no_match_text: "QUOTE \<notin> set (take 6 s) \<Longrightarrow> match_text s = None"
  by (auto simp: match_text_def has_prefix_iff)

lemma FindStringSubmatch_escape:
  assumes "QUOTE \<notin> set pre"
  shows "FindStringSubmatch (pre @ ''Text('' @ QUOTE # debug_escape t @ QUOTE # CHR '')'' # post) = Some (debug_escape t)"
  using assms
proof (induction pre)
  case Nil
  then show ?case using match_text_escape[of t post] by simp
next
  case (Cons c pre)
  let ?s = "(c # pre) @ ''Text('' @ QUOTE # debug_escape t @ QUOTE # CHR '')'' # post"
  have "QUOTE \<notin> set (take 6 ?s)"
    using Cons.prems by (auto simp: take_Cons' dest: in_set_takeD)
  then have "match_text ?s = None" by (rule no_match_text)
  then show ?case using Cons by simp
qed

section \<open>Properties\<close>

text \<open>Reasoning never reaches the text. For every provider and event, asking for the reasoning changes
  neither the parseable nor the raw text, which are equal, and without asking there is no reasoning; the events of a
  provider are refused exactly when it is not supported.\<close>

theorem reasoning_isolated:
  "case extractDeltaParts gj provider get True of
     Inl err \<Rightarrow> \<not> IsDeltaProviderSupported provider \<and> extractDeltaParts gj provider get False = Inl err
   | Inr a \<Rightarrow> IsDeltaProviderSupported provider \<and>
       (\<exists>b. extractDeltaParts gj provider get False = Inr b \<and> dp_Parseable b = dp_Parseable a \<and> dp_Raw b = dp_Raw a \<and>
          dp_Raw a = dp_Parseable a \<and> dp_Reasoning b = [])"
  using extractDeltaParts_reasoning[of provider gj get] extractDeltaParts_unsupported[of provider gj get]
  by (cases "IsDeltaProviderSupported provider") (auto simp: reasoning_apart_def)

text \<open>C22: (functional) A consumer of the extractor's results is in step with it: whatever the ticks, retries and shrinking
  chunk lists included, appending the deltas and dropping everything at a reset gives the extractor's buffers.\<close>

theorem consumer_in_step:
  "fst (run_ticks gj ticks no_delta (NewIncrementalExtractor includeReasoning)) =
     buffers (snd (run_ticks gj ticks no_delta (NewIncrementalExtractor includeReasoning)))"
proof -
  let ?e = "NewIncrementalExtractor includeReasoning"
  have "buffers ?e = no_delta" by (simp add: NewIncrementalExtractor_def buffers_def no_delta_def)
  then show ?thesis
    using run_ticks_follow[of ?e gj ticks] by (metis fresh_empty_def prod.collapse)
qed

text \<open>C23: (equivalence) Extracting incrementally is extracting afresh: over the ticks of a call log the extractor's raw
  text is the content that \<^verbatim>\<open>GetCurrentContent\<close> computes from all chunks of the last call.\<close>

theorem extract_is_content:
  assumes "c \<noteq> 0" "call_log (c, p, ch) ticks" "last ((c, p, ch) # ticks) = (c', p', ch')"
  shows "ix_raw (snd (run_ticks gj ((c, p, ch) # ticks) no_delta (NewIncrementalExtractor includeReasoning))) =
    GetCurrentContent gj (earlier @ [\<lparr>sc_Provider = p', sc_Chunks = ch'\<rparr>]) anyReasoning"
proof -
  let ?e = "NewIncrementalExtractor includeReasoning"
  obtain r e1 where x: "ExtractFrom gj ?e c p ch = (r, e1)" by force
  have "in_step gj e1 (c, p, ch)"
    by (rule in_step_next[OF x assms(1)]) (simp_all add: NewIncrementalExtractor_def)
  from run_ticks_in_step[OF this assms(2), of "follow r no_delta"]
  have "in_step gj (snd (run_ticks gj ((c, p, ch) # ticks) no_delta ?e)) (c', p', ch')" using assms(3) by (simp add: x)
  then show ?thesis
    by (simp add: buffers_def call_text_def GetCurrentContent_def content_loop_text)
      (rule chunks_text_raw)
qed

text \<open>A JSON value is its text, found at every path.\<close>

definition demo_gjson :: "string gjson" where
  "demo_gjson = \<lparr>gj_Get = \<lambda>t path. t, gj_GetBytes = \<lambda>t path. t, gj_is_String = \<lambda>r. True, gj_String = \<lambda>r. r, gj_Bool = \<lambda>r. False,
     gj_IsArray = \<lambda>r. False, gj_elements = \<lambda>r. [], gj_member = \<lambda>r path. [],
     gj_ValidBytes = \<lambda>t. True, gj_IsObject = \<lambda>r. False, gj_Exists = \<lambda>r. True, gj_TypeName = \<lambda>r. ''String''\<rparr>"

theorem extract_is_content_witness:
  "ix_raw (snd (run_ticks demo_gjson [(1, ''openai'', [Inr ''a'']), (1, ''openai'', [Inr ''a'', Inl (Err ''x''), Inr ''b''])]
     no_delta (NewIncrementalExtractor True))) = ''ab'' \<and>
   GetCurrentContent demo_gjson ([] @ [\<lparr>sc_Provider = ''openai'', sc_Chunks = [Inr ''a'', Inl (Err ''x''), Inr ''b'']\<rparr>]) False = ''ab''"
proof -
  let ?ch = "[Inr ''a'', Inl (Err ''x''), Inr ''b''] :: sse_chunk list"
  have "ix_raw (snd (run_ticks demo_gjson [(1, ''openai'', [Inr ''a'']), (1, ''openai'', ?ch)]
      no_delta (NewIncrementalExtractor True))) =
    GetCurrentContent demo_gjson ([] @ [\<lparr>sc_Provider = ''openai'', sc_Chunks = ?ch\<rparr>]) False"
    by (rule extract_is_content[where c' = 1]) simp_all
  moreover have "GetCurrentContent demo_gjson ([] @ [\<lparr>sc_Provider = ''openai'', sc_Chunks = ?ch\<rparr>]) False = ''ab''" by code_simp
  ultimately show ?thesis by simp
qed

text \<open>A text in the debug form of a Bedrock event, its quotes and backslashes escaped, is read back
  unchanged, whatever follows it in the event and whatever precedes it without a quote.\<close>

theorem bedrock_debug_roundtrip:
  assumes "QUOTE \<notin> set pre"
  shows "extractBedrockFromDebug (''ContentBlockDelta'' @ pre @ ''Text('' @ QUOTE # debug_escape t @ QUOTE # CHR '')'' # post) = t"
proof -
  have "QUOTE \<notin> set (''ContentBlockDelta'' @ pre)" using assms by simp
  from FindStringSubmatch_escape[OF this, of t post] show ?thesis
    by (simp add: extractBedrockFromDebug_def has_prefix_def replace_quotes replace_backslashes)
qed

theorem bedrock_debug_roundtrip_witness:
  "extractBedrockFromDebug (''ContentBlockDelta'' @ '' { delta: Some('' @ ''Text('' @
     QUOTE # debug_escape [CHR ''a'', QUOTE, BACKSLASH] @ QUOTE # CHR '')'' # '')}'') = [CHR ''a'', QUOTE, BACKSLASH]"
  by (rule bedrock_debug_roundtrip) simp

end
