(* ===== verification/Bedrock_Stream.thy ===== *)
theory Bedrock_Stream
  imports Sse_Extract
begin

text \<open>
  The AWS event stream of a Bedrock response: the decoder of \<^verbatim>\<open>awsstream/awsstream.go\<close> and the extractor
  of \<^verbatim>\<open>buildrequest/bedrock_stream_extract.go\<close>. The frames that the SDK decodes, or the errors it
  gives, are the input; the end of the list is the end of the body.
\<close>

section \<open>Decoding\<close>

text \<open>A header value is a string value or another, with its printed form.\<close>

datatype header_value = StringValue string | OtherValue string

record aws_message =
  am_Headers :: "(string \<times> header_value) list"
  am_Payload :: string

record aws_event =
  ae_Type :: string
  ae_MessageType :: string
  ae_ContentType :: string
  ae_Payload :: string

definition stringHeader :: "(string \<times> header_value) list \<Rightarrow> string \<Rightarrow> string" where
  "stringHeader hs name =
     (case map_of hs name of None \<Rightarrow> [] | Some (StringValue sv) \<Rightarrow> sv | Some (OtherValue printed) \<Rightarrow> printed)"

definition MessageTypeException :: string where "MessageTypeException = ''exception''"
definition MessageTypeError :: string where "MessageTypeError = ''error''"

definition Decoder_Next :: "go_error + aws_message \<Rightarrow> go_error + aws_event" where
  "Decoder_Next frame =
     (case frame of
        Inl err \<Rightarrow> Inl err
      | Inr msg \<Rightarrow>
          (let messageType = stringHeader (am_Headers msg) '':message-type''
           in if messageType = MessageTypeError
              then Inl (AwsTransportError (stringHeader (am_Headers msg) '':error-code'')
                     (stringHeader (am_Headers msg) '':error-message''))
              else Inr \<lparr>ae_Type = (if messageType = MessageTypeException
                           then stringHeader (am_Headers msg) '':exception-type''
                           else stringHeader (am_Headers msg) '':event-type''),
                        ae_MessageType = messageType,
                        ae_ContentType = stringHeader (am_Headers msg) '':content-type'',
                        ae_Payload = am_Payload msg\<rparr>))"

section \<open>Extraction\<close>

definition extractBedrockContentBlockDelta :: "'r gjson \<Rightarrow> string \<Rightarrow> bool \<Rightarrow> go_error + delta_parts" where
  "extractBedrockContentBlockDelta gj payload includeReasoning =
     (if payload = [] then Inr no_delta
      else if \<not> gj_ValidBytes gj payload
      then Inl (Err ''bedrock: contentBlockDelta payload is not valid JSON'')
      else
        (let delta = gj_GetBytes gj payload ''delta''
         in if \<not> gj_IsObject gj delta then Inr no_delta
            else
              (let text = gj_member gj delta ''text''
               in if gj_Exists gj text then
                    (if \<not> gj_is_String gj text
                     then Inl (Err (''bedrock: unexpected type for delta.text (got '' @ gj_TypeName gj text @ '')''))
                     else Inr (text_delta (gj_String gj text)))
                  else
                    (let rc = gj_member gj delta ''reasoningContent''
                     in if gj_IsObject gj rc then
                          (if \<not> includeReasoning then Inr no_delta
                           else
                             (let t = gj_member gj rc ''text''
                              in if gj_Exists gj t then
                                   (if \<not> gj_is_String gj t then Inr no_delta
                                    else Inr (no_delta\<lparr>dp_Reasoning := gj_String gj t\<rparr>))
                                 else Inr no_delta))
                        else Inr no_delta))))"

definition extractBedrockStreamDelta :: "'r gjson \<Rightarrow> aws_event option \<Rightarrow> bool \<Rightarrow> go_error + delta_parts" where
  "extractBedrockStreamDelta gj evt includeReasoning =
     (case evt of
        None \<Rightarrow> Inr no_delta
      | Some evt \<Rightarrow>
          if ae_MessageType evt = MessageTypeException then Inl (BedrockStreamException (ae_Type evt) (ae_Payload evt))
          else if ae_MessageType evt = MessageTypeError
          then Inl (AwsTransportError ''UnexpectedErrorMessageType''
                 (if ae_Type evt \<noteq> []
                  then ''bedrock: unexpected error message-type at extractor'' @ '': '' @ ae_Type evt
                  else ''bedrock: unexpected error message-type at extractor''))
          else if ae_Type evt = ''contentBlockDelta''
          then extractBedrockContentBlockDelta gj (ae_Payload evt) includeReasoning
          else Inr no_delta)"

text \<open>The message of an exception.\<close>

definition BedrockStreamException_Message :: "'r gjson \<Rightarrow> string \<Rightarrow> string" where
  "BedrockStreamException_Message gj payload =
     (if payload = [] then []
      else (let r = gj_GetBytes gj payload ''message'' in if \<not> gj_is_String gj r then [] else gj_String gj r))"

section \<open>Lemmas\<close>

text \<open>A decoded event is never an error frame, so the defensive branch of the extractor is not taken.\<close>

lemma Decoder_Next_not_error: "Decoder_Next frame = Inr evt \<Longrightarrow> ae_MessageType evt \<noteq> MessageTypeError"
  by (auto simp: Decoder_Next_def Let_def split: sum.splits if_splits)

lemma bedrock_block_apart:
  "case extractBedrockContentBlockDelta gj payload True of
     Inl err \<Rightarrow> extractBedrockContentBlockDelta gj payload False = Inl err
   | Inr a \<Rightarrow> (\<exists>b. extractBedrockContentBlockDelta gj payload False = Inr b \<and> reasoning_apart a b)"
  by (simp add: extractBedrockContentBlockDelta_def Let_def reasoning_apart_def no_delta_def text_delta_def)

end
