(* ===== verification/Stream_Orchestrator.thy ===== *)
theory Stream_Orchestrator
  imports Call_Orchestrator Llm_Http Stream_Cadence Bedrock_Stream
begin

text \<open>
  \<^verbatim>\<open>RunStreamOrchestration\<close> of \<^verbatim>\<open>buildrequest/orchestrator.go\<close> with the two native stream seams of
  \<^verbatim>\<open>native_stream_callback.go\<close> and \<^verbatim>\<open>native_stream_oracle_callback.go\<close>.

  The state has the events sent on the output channel, the variables that the closures share, and the
  external state \<open>'x\<close>. The HTTP client gives the body of a response; the scanner, the extractors and
  the cadence that run on it are those of the other theories. A native callback is a script: it looks
  at the external state, changes it, and calls the closures it is given and sees what they answer.
\<close>

section \<open>Configuration and environment\<close>

text \<open>What the select with a default does: the event is sent, the context has ended, with the error that
  \<^verbatim>\<open>ctx.Err()\<close> gives, or the channel is full.\<close>

datatype send_choice = Sent | CtxDone go_error | Full

datatype ('x, 'e, 'o) native_script =
    NDone 'o
  | NHeaders "('x, 'e, 'o) native_script"
  | NLook "'x \<Rightarrow> ('x, 'e, 'o) native_script"
  | NEffect "'x \<Rightarrow> 'x" "('x, 'e, 'o) native_script"
  | NEmit 'e "go_error option \<Rightarrow> ('x, 'e, 'o) native_script"

definition NativeStreamDeclined :: nat where "NativeStreamDeclined = 0"
definition NativeStreamCompleted :: nat where "NativeStreamCompleted = 1"
definition NativeStreamFailedAfterClaim :: nat where "NativeStreamFailedAfterClaim = 2"

record stream_outcome =
  nso_Disposition :: nat
  nso_WinnerEngine :: string
  nso_Err :: "go_error option"
  nso_RawDiagnostic :: string

record 'v oracle_outcome =
  noo_Disposition :: nat
  noo_Final :: "'v option"
  noo_Raw :: string
  noo_Reasoning :: string
  noo_WinnerEngine :: string
  noo_Err :: "go_error option"
  noo_RawDiagnostic :: string

text \<open>The constructors of outcomes. The stage and the reason of a decline are only reported.\<close>

definition DeclineNativeStream :: stream_outcome where
  "DeclineNativeStream = \<lparr>nso_Disposition = NativeStreamDeclined, nso_WinnerEngine = [], nso_Err = None, nso_RawDiagnostic = []\<rparr>"

definition CompleteNativeStream :: "string \<Rightarrow> stream_outcome" where
  "CompleteNativeStream winnerEngine =
     \<lparr>nso_Disposition = NativeStreamCompleted, nso_WinnerEngine = winnerEngine, nso_Err = None, nso_RawDiagnostic = []\<rparr>"

definition FailNativeStreamAfterClaim :: "go_error option \<Rightarrow> string \<Rightarrow> stream_outcome" where
  "FailNativeStreamAfterClaim err raw =
     \<lparr>nso_Disposition = NativeStreamFailedAfterClaim, nso_WinnerEngine = [],
      nso_Err = Some (case err of None \<Rightarrow> errNativeStreamFailedNil | Some e \<Rightarrow> e), nso_RawDiagnostic = raw\<rparr>"

definition DeclineNativeStreamOracle :: "'v oracle_outcome" where
  "DeclineNativeStreamOracle = \<lparr>noo_Disposition = NativeStreamDeclined, noo_Final = None, noo_Raw = [], noo_Reasoning = [],
     noo_WinnerEngine = [], noo_Err = None, noo_RawDiagnostic = []\<rparr>"

definition CompleteNativeStreamOracle :: "'v option \<Rightarrow> string \<Rightarrow> string \<Rightarrow> string \<Rightarrow> 'v oracle_outcome" where
  "CompleteNativeStreamOracle final raw reasoning winnerEngine =
     \<lparr>noo_Disposition = NativeStreamCompleted, noo_Final = final, noo_Raw = raw, noo_Reasoning = reasoning,
      noo_WinnerEngine = winnerEngine, noo_Err = None, noo_RawDiagnostic = []\<rparr>"

definition FailNativeStreamOracleAfterClaim :: "go_error option \<Rightarrow> string \<Rightarrow> 'v oracle_outcome" where
  "FailNativeStreamOracleAfterClaim err raw =
     \<lparr>noo_Disposition = NativeStreamFailedAfterClaim, noo_Final = None, noo_Raw = [], noo_Reasoning = [], noo_WinnerEngine = [],
      noo_Err = Some (case err of
        None \<Rightarrow> Err ''buildrequest: oracle-owned native stream attempt failed after claim (no error provided)''
      | Some e \<Rightarrow> e), noo_RawDiagnostic = raw\<rparr>"

text \<open>What the callbacks are given, \<^verbatim>\<open>NativeStreamAttempt\<close> or \<^verbatim>\<open>NativeStreamOracleAttempt\<close>. The sinks and the
  signals are the steps of the script that the callback returns; \<^verbatim>\<open>OutputSchema\<close>, which the orchestrator forwards
  without looking at it, is part of the callback.\<close>

record ('q, 'x) NativeStreamAttempt =
  nsa_Provider :: string
  nsa_ClientOverride :: string
  nsa_NeedsPartials :: bool
  nsa_NeedsRaw :: bool
  nsa_IncludeReasoning :: bool
  nsa_BuildBAMLRequest :: "'x \<Rightarrow> (go_error + 'q) \<times> 'x"

type_synonym ('q, 'x) native_stream_fun =
  "('q, 'x) NativeStreamAttempt \<Rightarrow> 'x \<Rightarrow> ('x, delta_triple, stream_outcome) native_script \<times> 'x"

type_synonym ('v, 'q, 'x) native_oracle_fun =
  "('q, 'x) NativeStreamAttempt \<Rightarrow> 'x \<Rightarrow> ('x, 'v cadence_event, 'v oracle_outcome) native_script \<times> 'x"

record ('v, 'q, 'r, 'x) stream_env =
  so_exec :: "'x exec_env"
  so_gjson :: "'r gjson"
  so_view :: error_view
  so_buildRequest :: "string \<Rightarrow> 'x \<Rightarrow> (go_error + 'q) \<times> 'x"
  so_buildBedrock :: "(string \<Rightarrow> 'x \<Rightarrow> (go_error + 'q) \<times> 'x) option"
  so_ExecuteStreamCallback :: "'q \<Rightarrow> 'x \<Rightarrow> (go_error + reader) \<times> 'x"
  so_ExecuteAWSStream :: "'q \<Rightarrow> 'x \<Rightarrow> (go_error + (go_error + aws_message) list) \<times> 'x"
  so_read :: "'x \<Rightarrow> 'x"
  so_parseStream :: "(string \<Rightarrow> 'x \<Rightarrow> (go_error + 'v option) \<times> 'x) option"
  so_parseFinal :: "string \<Rightarrow> 'x \<Rightarrow> (go_error + 'v option) \<times> 'x"
  so_native :: "('q, 'x) native_stream_fun option"
  so_nativeParseStream :: "(string \<Rightarrow> 'x \<Rightarrow> (go_error + 'v option) \<times> 'x) option"
  so_nativeParseFinal :: "(string \<Rightarrow> 'x \<Rightarrow> (go_error + 'v option) \<times> 'x) option"
  so_oracle :: "('v, 'q, 'x) native_oracle_fun option"
  so_legacy :: "(string \<Rightarrow> string \<Rightarrow> bool \<Rightarrow> 'x \<Rightarrow> (go_error + 'v option \<times> string \<times> string) \<times> nat \<times> 'x) option"
  so_send :: "'x \<Rightarrow> go_error option \<times> 'x"
  so_trysend :: "'x \<Rightarrow> bool \<times> 'x"
  so_partial :: "'x \<Rightarrow> send_choice \<times> 'x"
  so_now :: "'x \<Rightarrow> int"

record stream_config =
  sg_Provider :: string
  sg_RetryPolicy :: "policy option"
  sg_NeedsPartials :: bool
  sg_NeedsRaw :: bool
  sg_IncludeReasoning :: bool
  sg_ParseThrottleInterval :: int
  sg_SoftFinalParse :: bool
  sg_FallbackChain :: "string list"
  sg_ClientOverride :: string
  sg_ClientProviders :: "string gomap"
  sg_LegacyChildren :: "bool gomap"
  sg_FallbackTargets :: "string gomap"
  sg_MetadataPlan :: "metadata option"
  sg_NewMetadataResult :: bool
  sg_NativeAttemptEnabled :: bool
  sg_NativeOracleAttemptEnabled :: bool
  sg_PlannedEngine :: string

text \<open>\<open>SeStream\<close> is a result of the stream kind without the reset flag, \<open>SeReset\<close> one with it.\<close>

datatype 'v stream_event =
    SeHeartbeat
  | SeMetadata metadata
  | SeStream "'v option" string string
  | SeReset
  | SeFinal "'v option" string string
  | SeError string go_error

text \<open>\<open>st_dropped\<close> is a history variable, the number of partials dropped because the channel was full.\<close>

record ('v, 'x) stream_state =
  st_out :: "'v stream_event list"
  st_heartbeat :: bool
  st_saw :: bool
  st_planned :: bool
  st_nativeWinner :: string
  st_dropped :: nat
  st_ext :: 'x

type_synonym 'v stream_result = "go_error option + 'v option \<times> string \<times> string"

section \<open>Emission\<close>

definition stream_emitPlannedMetadata ::
    "('v, 'q, 'r, 'x) stream_env \<Rightarrow> stream_config \<Rightarrow> ('v, 'x) stream_state \<Rightarrow> ('v, 'x) stream_state" where
  "stream_emitPlannedMetadata env config s =
     (case sg_MetadataPlan config of
        None \<Rightarrow> s
      | Some plan \<Rightarrow>
          if \<not> sg_NewMetadataResult config then s
          else if st_planned s then s
          else (let plan = plan\<lparr>md_Phase := MetadataPhasePlanned, md_Attempt := 0\<rparr>;
                    (ok, x) = so_trysend env (st_ext s)
                in s\<lparr>st_planned := True, st_ext := x,
                     st_out := (if ok then st_out s @ [SeMetadata plan] else st_out s)\<rparr>))"

definition stream_sendHeartbeat ::
    "('v, 'q, 'r, 'x) stream_env \<Rightarrow> stream_config \<Rightarrow> ('v, 'x) stream_state \<Rightarrow> ('v, 'x) stream_state" where
  "stream_sendHeartbeat env config s =
     (let s = (if st_heartbeat s then s
               else (let (ok, x) = so_trysend env (st_ext s)
                     in s\<lparr>st_heartbeat := True, st_ext := x,
                          st_out := (if ok then st_out s @ [SeHeartbeat] else st_out s)\<rparr>))
      in stream_emitPlannedMetadata env config s)"

definition trySendPartialShared ::
    "('v, 'q, 'r, 'x) stream_env \<Rightarrow> 'v option \<Rightarrow> string \<Rightarrow> string \<Rightarrow> ('v, 'x) stream_state \<Rightarrow>
     go_error option \<times> ('v, 'x) stream_state" where
  "trySendPartialShared env parsed rawDelta reasoningDelta s =
     (case so_partial env (st_ext s) of
        (Sent, x) \<Rightarrow> (None, s\<lparr>st_out := st_out s @ [SeStream parsed rawDelta reasoningDelta], st_saw := True, st_ext := x\<rparr>)
      | (CtxDone err, x) \<Rightarrow> (Some err, s\<lparr>st_ext := x\<rparr>)
      | (Full, x) \<Rightarrow> (None, s\<lparr>st_dropped := Suc (st_dropped s), st_ext := x\<rparr>))"

definition newCadence ::
    "('v, 'q, 'r, 'x) stream_env \<Rightarrow> stream_config \<Rightarrow> (string \<Rightarrow> 'x \<Rightarrow> (go_error + 'v option) \<times> 'x) option \<Rightarrow>
     ('v, ('v, 'x) stream_state) cadence_config" where
  "newCadence env config parseStreamFn =
     \<lparr>cf_NeedsPartials = sg_NeedsPartials config, cf_NeedsRaw = sg_NeedsRaw config,
      cf_ParseThrottleInterval = sg_ParseThrottleInterval config,
      cf_ParsePartial = map_option (\<lambda>f accumulated s.
        (case f accumulated (st_ext s) of
           (Inl err, x) \<Rightarrow> (Inl err, s\<lparr>st_ext := x\<rparr>)
         | (Inr candidate, x) \<Rightarrow> (Inr (candidate, candidate \<noteq> None), s\<lparr>st_ext := x\<rparr>))) parseStreamFn,
      cf_Emit = \<lambda>ev s. trySendPartialShared env (cv_Partial ev) (cv_Raw ev) (cv_Reasoning ev) s,
      cf_ParsePolicy = CadenceParseErrorsAreNoEvent,
      cf_Now = \<lambda>s. (so_now env (st_ext s), s)\<rparr>"

section \<open>The final parse\<close>

text \<open>The end of a stream, the same for both transports.\<close>

definition final_parse ::
    "('v, 'q, 'r, 'x) stream_env \<Rightarrow> stream_config \<Rightarrow> accumulator \<Rightarrow> ('v, 'x) stream_state \<Rightarrow>
     'v stream_result \<times> ('v, 'x) stream_state" where
  "final_parse env config acc s =
     (case so_parseFinal env (ac_parseable acc) (st_ext s) of
        (Inl parseErr, x) \<Rightarrow>
          (if sg_NeedsPartials config \<and> sg_NeedsRaw config \<and> sg_SoftFinalParse config \<and>
              ctx_Err (so_exec env) x = None \<and>
              \<not> is_error_var parseErr ''context.Canceled'' \<and> \<not> is_error_var parseErr ''context.DeadlineExceeded''
           then (Inr (None, ac_raw acc, ac_reasoning acc), s\<lparr>st_ext := x\<rparr>)
           else (Inl (newRawError (wrapOutputParse (Some (ErrWrap ''buildrequest: failed to parse final result: '' parseErr)))
                  (ac_raw acc)), s\<lparr>st_ext := x\<rparr>))
      | (Inr finalResult, x) \<Rightarrow> (Inr (finalResult, ac_raw acc, ac_reasoning acc), s\<lparr>st_ext := x\<rparr>))"

section \<open>Bedrock\<close>

text \<open>The body of the loop over the frames. The accumulators are local; \<open>ac_parsed\<close> says that
  \<^verbatim>\<open>lastParseTime\<close> is not the zero time, since when more time has passed than a duration holds.\<close>

definition bedrock_should_parse :: "('v, 'q, 'r, 'x) stream_env \<Rightarrow> stream_config \<Rightarrow> accumulator \<Rightarrow> ('v, 'x) stream_state \<Rightarrow> bool" where
  "bedrock_should_parse env config acc s \<longleftrightarrow>
     sg_ParseThrottleInterval config = 0 \<or>
     (if ac_parsed acc then so_now env (st_ext s) - ac_lastParseTime acc else max_int64) \<ge> sg_ParseThrottleInterval config"

definition bedrock_parse ::
    "('v, 'q, 'r, 'x) stream_env \<Rightarrow> stream_config \<Rightarrow> accumulator \<Rightarrow> ('v, 'x) stream_state \<Rightarrow>
     'v option \<times> accumulator \<times> ('v, 'x) stream_state" where
  "bedrock_parse env config acc s =
     (case so_parseStream env of
        None \<Rightarrow> (None, acc, s)
      | Some parse \<Rightarrow>
          if \<not> bedrock_should_parse env config acc s then (None, acc, s)
          else (let acc = acc\<lparr>ac_parsed := True, ac_lastParseTime := so_now env (st_ext s)\<rparr>
                in case parse (ac_parseable acc) (st_ext s) of
                     (Inl parseErr, x) \<Rightarrow> (None, acc, s\<lparr>st_ext := x\<rparr>)
                   | (Inr candidate, x) \<Rightarrow> (candidate, acc, s\<lparr>st_ext := x\<rparr>)))"

definition bedrock_delta ::
    "('v, 'q, 'r, 'x) stream_env \<Rightarrow> stream_config \<Rightarrow> delta_parts \<Rightarrow> accumulator \<Rightarrow> ('v, 'x) stream_state \<Rightarrow>
     go_error option \<times> accumulator \<times> ('v, 'x) stream_state" where
  "bedrock_delta env config delta acc s =
     (if dp_Raw delta = [] \<and> dp_Parseable delta = [] \<and> dp_Reasoning delta = [] then (None, acc, s)
      else
        (let acc = accumulate (dp_Parseable delta) (dp_Raw delta) (dp_Reasoning delta) acc
         in if sg_NeedsPartials config \<and> dp_Parseable delta = [] then
              (if sg_NeedsRaw config
               then (case trySendPartialShared env None (dp_Raw delta) (dp_Reasoning delta) s of (err, s) \<Rightarrow> (err, acc, s))
               else (None, acc, s))
            else if sg_NeedsPartials config then
              (case bedrock_parse env config acc s of
                 (Some parsed, acc, s) \<Rightarrow>
                   (case trySendPartialShared env (Some parsed) (if sg_NeedsRaw config then dp_Raw delta else [])
                        (if sg_NeedsRaw config then dp_Reasoning delta else []) s of (err, s) \<Rightarrow> (err, acc, s))
               | (None, acc, s) \<Rightarrow>
                   (if sg_NeedsRaw config
                    then (case trySendPartialShared env None (dp_Raw delta) (dp_Reasoning delta) s of (err, s) \<Rightarrow> (err, acc, s))
                    else (None, acc, s)))
            else (None, acc, s)))"

fun bedrock_loop ::
    "('v, 'q, 'r, 'x) stream_env \<Rightarrow> stream_config \<Rightarrow> (go_error + aws_message) list \<Rightarrow> accumulator \<Rightarrow> ('v, 'x) stream_state \<Rightarrow>
     go_error option \<times> accumulator \<times> ('v, 'x) stream_state" where
  "bedrock_loop env config [] acc s = (None, acc, s\<lparr>st_ext := so_read env (st_ext s)\<rparr>)"
| "bedrock_loop env config (frame # frames) acc s =
     (let s = s\<lparr>st_ext := so_read env (st_ext s)\<rparr>
      in case Decoder_Next frame of
           Inl nextErr \<Rightarrow>
             (if nextErr = ErrVar ''io.EOF'' then (None, acc, s)
              else (newRawError (Some (ErrWrap ''buildrequest: stream error: '' nextErr)) (ac_raw acc), acc, s))
         | Inr evt \<Rightarrow>
             (case extractBedrockStreamDelta (so_gjson env) (Some evt) (sg_IncludeReasoning config) of
                Inl extractErr \<Rightarrow>
                  (newRawError (Some (ErrWrap ''buildrequest: delta extraction failed: '' extractErr)) (ac_raw acc), acc, s)
              | Inr delta \<Rightarrow>
                  (case bedrock_delta env config delta acc s of
                     (Some err, acc, s) \<Rightarrow> (Some err, acc, s)
                   | (None, acc, s) \<Rightarrow> bedrock_loop env config frames acc s)))"

definition tryOneBedrockStreamChild ::
    "('v, 'q, 'r, 'x) stream_env \<Rightarrow> stream_config \<Rightarrow> string \<Rightarrow> ('v, 'x) stream_state \<Rightarrow> 'v stream_result \<times> ('v, 'x) stream_state" where
  "tryOneBedrockStreamChild env config clientOverride s =
     (case so_buildBedrock env of
        None \<Rightarrow> (Inl (Some (Err ''buildrequest: aws-bedrock streaming requires StreamConfig.BuildBedrockStreamRequest to be set'')), s)
      | Some build \<Rightarrow>
          (case build clientOverride (st_ext s) of
             (Inl err, x) \<Rightarrow> (Inl (Some (ErrWrap ''buildrequest: failed to build request: '' err)), s\<lparr>st_ext := x\<rparr>)
           | (Inr req, x) \<Rightarrow>
               (case so_ExecuteAWSStream env req x of
                  (Inl err, x) \<Rightarrow> (Inl (Some err), s\<lparr>st_ext := x\<rparr>)
                | (Inr frames, x) \<Rightarrow>
                    (let s = stream_sendHeartbeat env config (s\<lparr>st_ext := x\<rparr>)
                     in case bedrock_loop env config frames (NewStreamCadence 0) s of
                          (Some err, acc, s) \<Rightarrow> (Inl (Some err), s)
                        | (None, acc, s) \<Rightarrow> final_parse env config acc s))))"

section \<open>The native seams\<close>

text \<open>A script runs over the closures \<open>SendHeaders\<close> and \<open>EmitDelta\<close> (or \<open>EmitResolved\<close>), which share a
  state \<open>'a\<close> of the seam beside the state of the run.\<close>

primrec run_script ::
    "(('v, 'x) stream_state \<Rightarrow> ('v, 'x) stream_state) \<Rightarrow>
     ('e \<Rightarrow> 'a \<Rightarrow> ('v, 'x) stream_state \<Rightarrow> go_error option \<times> 'a \<times> ('v, 'x) stream_state) \<Rightarrow>
     ('x, 'e, 'o) native_script \<Rightarrow> 'a \<Rightarrow> ('v, 'x) stream_state \<Rightarrow> 'o \<times> 'a \<times> ('v, 'x) stream_state" where
  "run_script headers sink (NDone oc) a s = (oc, a, s)"
| "run_script headers sink (NHeaders k) a s = run_script headers sink k a (headers s)"
| "run_script headers sink (NLook k) a s = run_script headers sink (k (st_ext s)) a s"
| "run_script headers sink (NEffect f k) a s = run_script headers sink k a (s\<lparr>st_ext := f (st_ext s)\<rparr>)"
| "run_script headers sink (NEmit e k) a s =
     (case sink e a s of (err, a, s) \<Rightarrow> run_script headers sink (k err) a s)"

definition EmitResolved ::
    "('v, 'q, 'r, 'x) stream_env \<Rightarrow> 'v cadence_event \<Rightarrow> unit \<Rightarrow> ('v, 'x) stream_state \<Rightarrow>
     go_error option \<times> unit \<times> ('v, 'x) stream_state" where
  "EmitResolved env ev u s =
     (if \<not> cv_HasPartial ev \<and> cv_Raw ev = [] \<and> cv_Reasoning ev = [] then (None, u, s)
      else (case trySendPartialShared env (cv_Partial ev) (cv_Raw ev) (cv_Reasoning ev) s of (err, s) \<Rightarrow> (err, u, s)))"

definition EmitDelta ::
    "('v, 'q, 'r, 'x) stream_env \<Rightarrow> stream_config \<Rightarrow> delta_triple \<Rightarrow> accumulator \<Rightarrow> ('v, 'x) stream_state \<Rightarrow>
     go_error option \<times> accumulator \<times> ('v, 'x) stream_state" where
  "EmitDelta env config d acc s =
     (case d of (p, r, q) \<Rightarrow> Delta (newCadence env config (so_nativeParseStream env)) p r q acc s)"

definition native_stream_attempt ::
    "('v, 'q, 'r, 'x) stream_env \<Rightarrow> stream_config \<Rightarrow> string \<Rightarrow> string \<Rightarrow> ('q, 'x) NativeStreamAttempt" where
  "native_stream_attempt env config provider clientOverride =
     \<lparr>nsa_Provider = provider, nsa_ClientOverride = clientOverride, nsa_NeedsPartials = sg_NeedsPartials config,
      nsa_NeedsRaw = sg_NeedsRaw config, nsa_IncludeReasoning = sg_IncludeReasoning config,
      nsa_BuildBAMLRequest = so_buildRequest env clientOverride\<rparr>"

text \<open>A seam either declines or has the result of the attempt.\<close>

type_synonym 'v seam_result = "'v stream_result option"

definition oracle_seam ::
    "('v, 'q, 'r, 'x) stream_env \<Rightarrow> stream_config \<Rightarrow>
     ('v, 'q, 'x) native_oracle_fun \<Rightarrow>
     string \<Rightarrow> string \<Rightarrow> ('v, 'x) stream_state \<Rightarrow> 'v seam_result \<times> ('v, 'x) stream_state" where
  "oracle_seam env config attempt provider clientOverride s =
     (if sg_NativeAttemptEnabled config \<and> so_native env \<noteq> None
      then (Some (Inl (newNativeStreamTerminalError (Some (Err
             ''buildrequest: both native stream seams are installed (NativeOracleAttempt and NativeAttempt); exactly one may own a claimed stream'')) [])), s)
      else
        (case attempt (native_stream_attempt env config provider clientOverride) (st_ext s) of (script, x) \<Rightarrow>
           (case run_script (stream_sendHeartbeat env config) (EmitResolved env) script () (s\<lparr>st_ext := x\<rparr>) of (oc, _, s) \<Rightarrow>
              if noo_Disposition oc = NativeStreamDeclined then (None, s)
              else if noo_Disposition oc = NativeStreamCompleted then
                (Some (Inr (noo_Final oc, noo_Raw oc, noo_Reasoning oc)),
                 s\<lparr>st_nativeWinner := allowedWinnerEngine (noo_WinnerEngine oc)\<rparr>)
              else if noo_Disposition oc = NativeStreamFailedAfterClaim then
                (Some (Inl (newNativeStreamTerminalError (noo_Err oc) (noo_RawDiagnostic oc))), s)
              else (Some (Inl (newNativeStreamTerminalError (Some (Err
                      (''buildrequest: oracle-owned native stream attempt returned unknown disposition '' @
                       itoa (int (noo_Disposition oc))))) [])), s))))"

definition native_seam ::
    "('v, 'q, 'r, 'x) stream_env \<Rightarrow> stream_config \<Rightarrow>
     ('q, 'x) native_stream_fun \<Rightarrow>
     string \<Rightarrow> string \<Rightarrow> ('v, 'x) stream_state \<Rightarrow> 'v seam_result \<times> ('v, 'x) stream_state" where
  "native_seam env config attempt provider clientOverride s =
     (case (so_nativeParseStream env, so_nativeParseFinal env) of
        (Some _, Some parseFinal) \<Rightarrow>
          (case attempt (native_stream_attempt env config provider clientOverride) (st_ext s) of (script, x) \<Rightarrow>
             (case run_script (stream_sendHeartbeat env config) (EmitDelta env config) script (NewStreamCadence 0)
                     (s\<lparr>st_ext := x\<rparr>) of (oc, acc, s) \<Rightarrow>
                if nso_Disposition oc = NativeStreamDeclined then (None, s)
                else if nso_Disposition oc = NativeStreamCompleted then
                  (case parseFinal (ac_parseable acc) (st_ext s) of
                     (Inl parseErr, x) \<Rightarrow>
                       (Some (Inl (newNativeStreamTerminalError
                          (wrapOutputParse (Some (ErrWrap ''buildrequest: failed to parse native final result: '' parseErr)))
                          (ac_raw acc))), s\<lparr>st_ext := x\<rparr>)
                   | (Inr finalResult, x) \<Rightarrow>
                       (Some (Inr (finalResult, ac_raw acc, ac_reasoning acc)),
                        s\<lparr>st_ext := x, st_nativeWinner := allowedWinnerEngine (nso_WinnerEngine oc)\<rparr>))
                else if nso_Disposition oc = NativeStreamFailedAfterClaim then
                  (Some (Inl (newNativeStreamTerminalError (nso_Err oc)
                     (let raw = nso_RawDiagnostic oc in if raw = [] then ac_raw acc else raw))), s)
                else (Some (Inl (newNativeStreamTerminalError (Some (Err
                        (''buildrequest: native stream attempt returned unknown disposition '' @
                         itoa (int (nso_Disposition oc))))) [])), s)))
      | _ \<Rightarrow>
          (Some (Inl (newNativeStreamTerminalError (Some (Err
             ''buildrequest: native stream seam enabled but native parser closure(s) are nil (NativeParseStream/NativeParseFinal must be installed with NativeAttempt)'')) [])), s))"

section \<open>Server-sent events\<close>

text \<open>The callback of \<^verbatim>\<open>ForEach\<close> works on the cadence, on \<^verbatim>\<open>callbackErr\<close> and on the state of the run.\<close>

type_synonym ('v, 'x) sse_window = "accumulator \<times> go_error option \<times> ('v, 'x) stream_state"

definition sse_callback ::
    "('v, 'q, 'r, 'x) stream_env \<Rightarrow> stream_config \<Rightarrow> string \<Rightarrow> sse_event \<Rightarrow> ('v, 'x) sse_window \<Rightarrow>
     go_error option \<times> ('v, 'x) sse_window" where
  "sse_callback env config provider ev = (\<lambda>(acc, callbackErr, s).
     (case ExtractDeltaPartsFromBytes (so_gjson env) provider (ev_Data ev) (sg_IncludeReasoning config) of
        Inl extractErr \<Rightarrow>
          (Some ErrStopScan, acc,
           newRawError (Some (ErrWrap ''buildrequest: delta extraction failed: '' extractErr)) (ac_raw acc), s)
      | Inr delta \<Rightarrow>
          (case Delta (newCadence env config (so_parseStream env))
                  (dp_Parseable delta) (dp_Raw delta) (dp_Reasoning delta) acc s of
             (Some err, acc, s) \<Rightarrow> (Some ErrStopScan, acc, Some err, s)
           | (None, acc, s) \<Rightarrow> (None, acc, callbackErr, s))))"

definition sse_scan_env :: "('v, 'q, 'r, 'x) stream_env \<Rightarrow> ('v, 'x) sse_window scan_env" where
  "sse_scan_env env =
     \<lparr>se_read = \<lambda>(acc, ce, s). (acc, ce, s\<lparr>st_ext := so_read env (st_ext s)\<rparr>),
      se_ctx = \<lambda>(acc, ce, s). (ctx_Err (so_exec env) (st_ext s), acc, ce, s)\<rparr>"

definition sse_attempt ::
    "('v, 'q, 'r, 'x) stream_env \<Rightarrow> stream_config \<Rightarrow> string \<Rightarrow> string \<Rightarrow> ('v, 'x) stream_state \<Rightarrow>
     'v stream_result \<times> ('v, 'x) stream_state" where
  "sse_attempt env config provider clientOverride s =
     (case so_buildRequest env clientOverride (st_ext s) of
        (Inl err, x) \<Rightarrow> (Inl (Some (ErrWrap ''buildrequest: failed to build request: '' err)), s\<lparr>st_ext := x\<rparr>)
      | (Inr req, x) \<Rightarrow>
          (case so_ExecuteStreamCallback env req x of
             (Inl err, x) \<Rightarrow> (Inl (Some err), s\<lparr>st_ext := x\<rparr>)
           | (Inr body, x) \<Rightarrow>
               (let s = stream_sendHeartbeat env config (s\<lparr>st_ext := x\<rparr>)
                in case ForEach (so_view env) (sse_scan_env env) (sse_callback env config provider) body
                          (NewStreamCadence 0, None, s) of
                     (streamErr, acc, callbackErr, s) \<Rightarrow>
                       (case callbackErr of
                          Some err \<Rightarrow> (Inl (Some err), s)
                        | None \<Rightarrow>
                            (case streamErr of
                               Some err \<Rightarrow>
                                 (Inl (newRawError (Some (ErrWrap ''buildrequest: stream error: '' err)) (ac_raw acc)), s)
                             | None \<Rightarrow> final_parse env config acc s)))))"

definition tryOneStreamChild ::
    "('v, 'q, 'r, 'x) stream_env \<Rightarrow> stream_config \<Rightarrow> string \<Rightarrow> string \<Rightarrow> ('v, 'x) stream_state \<Rightarrow>
     'v stream_result \<times> ('v, 'x) stream_state" where
  "tryOneStreamChild env config provider clientOverride s =
     (if provider = ''aws-bedrock'' then tryOneBedrockStreamChild env config clientOverride s
      else
        (case (case (if sg_NativeOracleAttemptEnabled config then so_oracle env else None) of
                 None \<Rightarrow> (None, s)
               | Some attempt \<Rightarrow> oracle_seam env config attempt provider clientOverride s) of
           (Some res, s) \<Rightarrow> (res, s)
         | (None, s) \<Rightarrow>
             (case (case (if sg_NativeAttemptEnabled config then so_native env else None) of
                      None \<Rightarrow> (None, s)
                    | Some attempt \<Rightarrow> native_seam env config attempt provider clientOverride s) of
                (Some res, s) \<Rightarrow> (res, s)
              | (None, s) \<Rightarrow> sse_attempt env config provider clientOverride s)))"

section \<open>Attempts\<close>

text \<open>\<^verbatim>\<open>winnerClient\<close>, \<^verbatim>\<open>winnerProvider\<close>, \<^verbatim>\<open>winnerPath\<close> and \<^verbatim>\<open>finalRetryCount\<close>, set before \<^verbatim>\<open>emitFinal\<close>.\<close>

record stream_winner =
  sw_client :: string
  sw_provider :: string
  sw_path :: string
  sw_retryCount :: int

text \<open>\<^verbatim>\<open>Milliseconds\<close> of a duration, which truncates toward zero.\<close>

definition milliseconds :: "int \<Rightarrow> int" where
  "milliseconds d = sgn d * (\<bar>d\<bar> div Millisecond)"

definition stream_outcome_metadata :: "stream_config \<Rightarrow> metadata \<Rightarrow> stream_winner \<Rightarrow> string \<Rightarrow> int \<Rightarrow> metadata" where
  "stream_outcome_metadata config plan winner engine dur =
     plan\<lparr>md_Phase := MetadataPhaseOutcome, md_Attempt := 0, md_RetryMax := None, md_RetryPolicy := [],
          md_Chain := [], md_LegacyChildren := [], md_FallbackTargets := [], md_FallbackRoundRobin := [],
          md_Strategy := [], md_Provider := [], md_RetryCount := Some (sw_retryCount winner),
          md_WinnerClient := sw_client winner, md_WinnerProvider := sw_provider winner,
          md_WinnerPath := sw_path winner, md_WinnerEngine := engine,
          md_PlannedEngine := allowedPlannedEngine (sg_PlannedEngine config), md_UpstreamDurMs := Some dur\<rparr>"

text \<open>The select on the channel and the context: the error is the one of a context that has ended.\<close>

definition stream_send ::
    "('v, 'q, 'r, 'x) stream_env \<Rightarrow> 'v stream_event \<Rightarrow> ('v, 'x) stream_state \<Rightarrow> go_error option \<times> ('v, 'x) stream_state" where
  "stream_send env e s =
     (case so_send env (st_ext s) of
        (None, x) \<Rightarrow> (None, s\<lparr>st_ext := x, st_out := st_out s @ [e]\<rparr>)
      | (Some err, x) \<Rightarrow> (Some err, s\<lparr>st_ext := x\<rparr>))"

definition emitOutcomeMetadata ::
    "('v, 'q, 'r, 'x) stream_env \<Rightarrow> stream_config \<Rightarrow> int \<Rightarrow> stream_winner \<Rightarrow> ('v, 'x) stream_state \<Rightarrow> ('v, 'x) stream_state" where
  "emitOutcomeMetadata env config startTime winner s =
     (case sg_MetadataPlan config of
        None \<Rightarrow> s
      | Some plan \<Rightarrow>
          if \<not> sg_NewMetadataResult config then s
          else snd (stream_send env (SeMetadata (stream_outcome_metadata config plan winner (st_nativeWinner s)
                 (milliseconds (so_now env (st_ext s) - startTime)))) s))"

definition emitFinal ::
    "('v, 'q, 'r, 'x) stream_env \<Rightarrow> stream_config \<Rightarrow> int \<Rightarrow> stream_winner \<Rightarrow> 'v option \<Rightarrow> string \<Rightarrow> string \<Rightarrow>
     ('v, 'x) stream_state \<Rightarrow> go_error option \<times> ('v, 'x) stream_state" where
  "emitFinal env config startTime winner finalResult raw reasoning s =
     (let s = emitOutcomeMetadata env config startTime winner s
      in stream_send env (SeFinal finalResult (if sg_NeedsRaw config then raw else [])
           (if sg_NeedsRaw config then reasoning else [])) s)"

text \<open>The end of an attempt that has a result.\<close>

definition finish ::
    "('v, 'q, 'r, 'x) stream_env \<Rightarrow> stream_config \<Rightarrow> int \<Rightarrow> stream_winner \<Rightarrow> 'v option \<times> string \<times> string \<Rightarrow>
     ('v, 'x) stream_state \<Rightarrow> ('v option \<times> go_error option) \<times> ('v, 'x) stream_state" where
  "finish env config startTime winner res s =
     (case res of (finalResult, raw, reasoning) \<Rightarrow>
        (case emitFinal env config startTime winner finalResult raw reasoning s of
           (Some emitErr, s) \<Rightarrow> ((None, Some emitErr), s)
         | (None, s) \<Rightarrow> ((finalResult, None), s)))"

text \<open>The reset marker, the same at the handoff to the next child and before a retry.\<close>

definition send_reset ::
    "('v, 'q, 'r, 'x) stream_env \<Rightarrow> stream_config \<Rightarrow> ('v, 'x) stream_state \<Rightarrow> go_error option \<times> ('v, 'x) stream_state" where
  "send_reset env config s =
     (if sg_NeedsPartials config \<and> st_saw s then stream_send env SeReset s else (None, s))"

definition new_window :: "('v, 'x) stream_state \<Rightarrow> ('v, 'x) stream_state" where
  "new_window s = s\<lparr>st_saw := False, st_heartbeat := False\<rparr>"

text \<open>The handoff between two children: an error ends the attempt.\<close>

definition handoff ::
    "('v, 'q, 'r, 'x) stream_env \<Rightarrow> stream_config \<Rightarrow> go_error option \<Rightarrow> ('v, 'x) stream_state \<Rightarrow>
     go_error option \<times> ('v, 'x) stream_state" where
  "handoff env config lastErr s =
     (if lastErr = None then (None, s)
      else (case send_reset env config s of
              (Some err, s) \<Rightarrow> (Some err, s)
            | (None, s) \<Rightarrow> (None, new_window s)))"

text \<open>One child of the chain: the client contacted, the path, and the result. The legacy callback is not nil
  here, since the run was validated.\<close>

definition run_child ::
    "('v, 'q, 'r, 'x) stream_env \<Rightarrow> stream_config \<Rightarrow> string \<Rightarrow> ('v, 'x) stream_state \<Rightarrow>
     (string \<times> string) \<times> 'v stream_result \<times> ('v, 'x) stream_state" where
  "run_child env config child s =
     (if gomap_flag (sg_LegacyChildren config) child then
        (case so_legacy env of
           None \<Rightarrow> ((child, ''legacy''), Inl (Some (Err ''LegacyStreamChild is nil'')), s)
         | Some legacy \<Rightarrow>
             (case legacy child (gomap_str (sg_ClientProviders config) child) (sg_NeedsRaw config) (st_ext s) of
                (res, hb, x) \<Rightarrow>
                  ((child, ''legacy''), (case res of Inl err \<Rightarrow> Inl (Some err) | Inr r \<Rightarrow> Inr r),
                   (stream_sendHeartbeat env config ^^ hb) (s\<lparr>st_ext := x\<rparr>))))
      else
        (let target = (let t = gomap_str (sg_FallbackTargets config) child in if t \<noteq> [] then t else child)
         in ((target, ''buildrequest''), tryOneStreamChild env config (gomap_str (sg_ClientProviders config) child) target s)))"

fun stream_chain ::
    "('v, 'q, 'r, 'x) stream_env \<Rightarrow> stream_config \<Rightarrow> int \<Rightarrow> int \<Rightarrow> string list \<Rightarrow> go_error option \<Rightarrow> ('v, 'x) stream_state \<Rightarrow>
     ('v option \<times> go_error option) \<times> ('v, 'x) stream_state" where
  "stream_chain env config startTime attempt [] lastErr s = ((None, lastErr), s)"
| "stream_chain env config startTime attempt (child # chain) lastErr s =
     (case ctx_Err (so_exec env) (st_ext s) of
        Some ce \<Rightarrow> ((None, Some ce), s)
      | None \<Rightarrow>
          (case handoff env config lastErr s of
             (Some err, s) \<Rightarrow> ((None, Some err), s)
           | (None, s) \<Rightarrow>
               (case run_child env config child s of
                  ((target, path), Inr res, s) \<Rightarrow>
                    finish env config startTime
                      \<lparr>sw_client = target, sw_provider = gomap_str (sg_ClientProviders config) child, sw_path = path,
                       sw_retryCount = attempt\<rparr> res s
                | (_, Inl err, s) \<Rightarrow>
                    if isNativeStreamTerminal err then ((None, err), s)
                    else stream_chain env config startTime attempt chain err s)))"

definition stream_attemptFull ::
    "('v, 'q, 'r, 'x) stream_env \<Rightarrow> stream_config \<Rightarrow> int \<Rightarrow> ('v option, ('v, 'x) stream_state) attempt_fun" where
  "stream_attemptFull env config startTime attempt s =
     (if length (sg_FallbackChain config) = 0 then
        (case tryOneStreamChild env config (sg_Provider config) (sg_ClientOverride config) s of
           (Inl err, s) \<Rightarrow> ((None, err), s)
         | (Inr res, s) \<Rightarrow>
             finish env config startTime
               \<lparr>sw_client = (case sg_MetadataPlan config of None \<Rightarrow> [] | Some plan \<Rightarrow> md_Client plan),
                sw_provider = sg_Provider config, sw_path = ''buildrequest'', sw_retryCount = attempt\<rparr> res s)
      else stream_chain env config startTime attempt (sg_FallbackChain config) None s)"

definition stream_onRetry ::
    "('v, 'q, 'r, 'x) stream_env \<Rightarrow> stream_config \<Rightarrow> int \<Rightarrow> ('v, 'x) stream_state \<Rightarrow> ('v, 'x) stream_state" where
  "stream_onRetry env config attempt s = new_window (snd (send_reset env config s))"

section \<open>The run\<close>

text \<open>The check of the children: an error, or whether one of them is for bedrock.\<close>

fun stream_validate_children :: "stream_config \<Rightarrow> string list \<Rightarrow> bool \<Rightarrow> go_error + bool" where
  "stream_validate_children config [] bedrockInChain = Inr bedrockInChain"
| "stream_validate_children config (child # chain) bedrockInChain =
     (if gomap_flag (sg_LegacyChildren config) child then stream_validate_children config chain bedrockInChain
      else (let provider = gomap_str (sg_ClientProviders config) child
            in if provider = [] \<or> \<not> IsProviderSupported provider
               then Inl (Err (''buildrequest: unsupported or empty provider '' @ go_quote provider @ '' for child '' @ go_quote child))
               else stream_validate_children config chain (bedrockInChain \<or> provider = ''aws-bedrock'')))"

definition stream_validate :: "('v, 'q, 'r, 'x) stream_env \<Rightarrow> stream_config \<Rightarrow> go_error option" where
  "stream_validate env config =
     (if length (sg_FallbackChain config) = 0 then
        (if sg_Provider config = [] \<or> \<not> IsProviderSupported (sg_Provider config)
         then Some (Err (''buildrequest: unsupported or empty provider '' @ go_quote (sg_Provider config)))
         else if sg_Provider config = ''aws-bedrock'' \<and> so_buildBedrock env = None
         then Some (Err ''buildrequest: aws-bedrock streaming requires StreamConfig.BuildBedrockStreamRequest to be set'')
         else None)
      else if 0 < length (sg_LegacyChildren config) \<and> so_legacy env = None
      then Some (Err ''buildrequest: LegacyChildren set but LegacyStreamChild is nil'')
      else
        (case stream_validate_children config (sg_FallbackChain config) False of
           Inl err \<Rightarrow> Some err
         | Inr bedrockInChain \<Rightarrow>
             if bedrockInChain \<and> so_buildBedrock env = None
             then Some (Err ''buildrequest: aws-bedrock child in fallback chain requires StreamConfig.BuildBedrockStreamRequest to be set'')
             else None))"

definition stream_exec :: "('v, 'q, 'r, 'x) stream_env \<Rightarrow> ('v, 'x) stream_state exec_env" where
  "stream_exec env = \<lparr>ctx_Err = \<lambda>s. ctx_Err (so_exec env) (st_ext s),
     wait_timer = \<lambda>d s. (case wait_timer (so_exec env) d (st_ext s) of (r, x) \<Rightarrow> (r, s\<lparr>st_ext := x\<rparr>)),
     pow_scaled = pow_scaled (so_exec env)\<rparr>"

definition stream_start :: "'x \<Rightarrow> ('v, 'x) stream_state" where
  "stream_start x = \<lparr>st_out = [], st_heartbeat = False, st_saw = False, st_planned = False, st_nativeWinner = [],
     st_dropped = 0, st_ext = x\<rparr>"

definition RunStreamOrchestration ::
    "('v, 'q, 'r, 'x) stream_env \<Rightarrow> stream_config \<Rightarrow> 'x \<Rightarrow> go_error option \<times> ('v, 'x) stream_state" where
  "RunStreamOrchestration env config x =
     (let s = stream_emitPlannedMetadata env config (stream_start x)
      in case stream_validate env config of
           Some err \<Rightarrow> (Some err, s)
         | None \<Rightarrow>
             (case Execute (stream_exec env) None (sg_RetryPolicy config)
                     (stream_attemptFull env config (so_now env (st_ext s))) (Some (stream_onRetry env config)) s of
                ((_, Some err), s) \<Rightarrow>
                  (None, if ctx_Err (so_exec env) (st_ext s) = None
                         then snd (stream_send env (SeError (rawFromError (Some err)) err) s) else s)
              | ((_, None), s) \<Rightarrow> (None, s)))"


section \<open>The two transports\<close>

text \<open>The body of the bedrock loop is the cadence that the other transport uses, with its clock
  spelled out; a Go duration is at most the largest \<^verbatim>\<open>int64\<close>.\<close>

lemma bedrock_parse_cadence:
  assumes "sg_ParseThrottleInterval config \<le> max_int64"
  shows "parse_partial (newCadence env config (so_parseStream env)) acc s =
    (case bedrock_parse env config acc s of (v, acc, s) \<Rightarrow> (Inr (map_option Some v), acc, s))"
  using assms
  by (auto simp: parse_partial_def bedrock_parse_def shouldParse_def bedrock_should_parse_def newCadence_def
      classifyParseError_def Let_def split: option.split prod.split sum.split)

lemma bedrock_delta_cadence:
  assumes "sg_ParseThrottleInterval config \<le> max_int64"
  shows "bedrock_delta env config d acc s =
    Delta (newCadence env config (so_parseStream env)) (dp_Parseable d) (dp_Raw d) (dp_Reasoning d) acc s"
  unfolding bedrock_delta_def Delta_def bedrock_parse_cadence[OF assms] Let_def
  by (auto simp: newCadence_def emitRawOnly_def split: option.split prod.split)

section \<open>What a child may do\<close>

text \<open>
  A predicate on the state of a run that the effects of a child keep: changes of the external state,
  heartbeats, partials and the name of the winning engine.
\<close>

locale window_invariant =
  fixes env :: "('v, 'q, 'r, 'x) stream_env"
    and config :: stream_config
    and I :: "('v, 'x) stream_state \<Rightarrow> bool"
  assumes I_ext: "I s \<Longrightarrow> I (s\<lparr>st_ext := x\<rparr>)"
    and I_winner: "I s \<Longrightarrow> I (s\<lparr>st_nativeWinner := allowedWinnerEngine e\<rparr>)"
    and I_heartbeat: "I s \<Longrightarrow> I (stream_sendHeartbeat env config s)"
    and I_partial: "I s \<Longrightarrow> trySendPartialShared env v r q s = (err, s') \<Longrightarrow> I s'"
begin

lemma Delta_keeps:
  assumes "Delta (newCadence env config f) p r q acc s = (err, acc', s')" "I s"
  shows "I s'"
  by (rule Delta_invariant[where J = I, OF assms])
    (auto simp: newCadence_def I_ext intro: I_partial split: prod.splits sum.splits)

lemma bedrock_parse_keeps: "bedrock_parse env config acc s = (v, acc', s') \<Longrightarrow> I s \<Longrightarrow> I s'"
  by (auto simp: bedrock_parse_def Let_def I_ext split: option.splits prod.splits sum.splits if_splits)

lemma bedrock_delta_keeps:
  assumes "bedrock_delta env config d acc s = (err, acc', s')" "I s"
  shows "I s'"
proof -
  obtain v acc1 s1 where P: "bedrock_parse env config (accumulate (dp_Parseable d) (dp_Raw d) (dp_Reasoning d) acc) s
      = (v, acc1, s1)" by (metis prod_cases3)
  have "s' = s \<or> s' = s1 \<or> (\<exists>v r q e. trySendPartialShared env v r q s = (e, s')) \<or>
      (\<exists>v r q e. trySendPartialShared env v r q s1 = (e, s'))"
    using assms(1) P by (auto simp: bedrock_delta_def Let_def split: if_splits option.splits prod.splits)
  then show ?thesis using assms(2) bedrock_parse_keeps[OF P assms(2)] I_partial by blast
qed

lemma bedrock_loop_keeps: "bedrock_loop env config frames acc s = (err, acc', s') \<Longrightarrow> I s \<Longrightarrow> I s'"
proof (induction frames arbitrary: acc s)
  case (Cons frame frames)
  let ?s = "s\<lparr>st_ext := so_read env (st_ext s)\<rparr>"
  have r: "I ?s" using Cons.prems(2) by (rule I_ext)
  show ?case
  proof (cases "Decoder_Next frame")
    case (Inl e)
    then show ?thesis using Cons.prems(1) r by (auto simp: Let_def split: if_splits)
  next
    case evt: (Inr evt)
    show ?thesis
    proof (cases "extractBedrockStreamDelta (so_gjson env) (Some evt) (sg_IncludeReasoning config)")
      case (Inl e)
      then show ?thesis using Cons.prems(1) evt r by (auto simp: Let_def)
    next
      case (Inr d)
      obtain e1 acc1 s1 where D: "bedrock_delta env config d acc ?s = (e1, acc1, s1)" by (metis prod_cases3)
      then have "I s1" using bedrock_delta_keeps r by blast
      then show ?thesis using Cons.prems(1) Cons.IH evt Inr D by (cases e1) (auto simp: Let_def)
    qed
  qed
qed (auto simp: I_ext)

lemma final_parse_keeps: "final_parse env config acc s = (res, s') \<Longrightarrow> I s \<Longrightarrow> I s'"
  by (auto simp: final_parse_def I_ext split: prod.splits sum.splits if_splits)

lemma tryOneBedrockStreamChild_keeps:
  assumes "tryOneBedrockStreamChild env config co s = (res, s')" "I s"
  shows "I s'"
  using assms
  by (auto simp: tryOneBedrockStreamChild_def Let_def I_ext I_heartbeat
      split: option.splits prod.splits sum.splits
      dest!: bedrock_loop_keeps final_parse_keeps)

lemma run_script_keeps:
  assumes "\<And>e a s err a' s'. I s \<Longrightarrow> sink e a s = (err, a', s') \<Longrightarrow> I s'"
  shows "run_script (stream_sendHeartbeat env config) sink script a s = (oc, a', s') \<Longrightarrow> I s \<Longrightarrow> I s'"
proof (induction script arbitrary: a s)
  case (NEmit e k)
  obtain err a1 s1 where k: "sink e a s = (err, a1, s1)" by (metis prod_cases3)
  then have "I s1" using assms NEmit.prems(2) by blast
  then show ?case using NEmit.IH[OF rangeI] NEmit.prems(1) k by simp
next
  case (NLook k)
  then show ?case using NLook.IH[OF rangeI] by simp
qed (auto simp: I_ext I_heartbeat)

lemma oracle_seam_keeps:
  assumes "oracle_seam env config attempt provider co s = (res, s')" "I s"
  shows "I s'"
proof (cases "sg_NativeAttemptEnabled config \<and> so_native env \<noteq> None")
  case True
  then show ?thesis using assms by (simp add: oracle_seam_def)
next
  case False
  obtain script x where A: "attempt (native_stream_attempt env config provider co) (st_ext s) = (script, x)" by force
  obtain oc u s1 where R: "run_script (stream_sendHeartbeat env config) (EmitResolved env) script () (s\<lparr>st_ext := x\<rparr>)
      = (oc, u, s1)" by (metis prod_cases3)
  have "I s1"
    by (rule run_script_keeps[OF _ R]) (auto simp: EmitResolved_def I_ext assms(2) intro: I_partial split: if_splits prod.splits)
  then show ?thesis using assms(1) False A R by (auto simp: oracle_seam_def I_winner split: if_splits)
qed

lemma native_seam_keeps:
  assumes "native_seam env config attempt provider co s = (res, s')" "I s"
  shows "I s'"
proof (cases "so_nativeParseStream env = None \<or> so_nativeParseFinal env = None")
  case True
  then show ?thesis using assms by (auto simp: native_seam_def split: option.splits)
next
  case False
  then obtain f g where fg: "so_nativeParseStream env = Some f" "so_nativeParseFinal env = Some g" by auto
  obtain script x where A: "attempt (native_stream_attempt env config provider co) (st_ext s) = (script, x)" by force
  obtain oc acc s1 where R: "run_script (stream_sendHeartbeat env config) (EmitDelta env config) script (NewStreamCadence 0)
      (s\<lparr>st_ext := x\<rparr>) = (oc, acc, s1)" by (metis prod_cases3)
  obtain pr y where G: "g (ac_parseable acc) (st_ext s1) = (pr, y)" by force
  have "I s1"
    by (rule run_script_keeps[OF _ R]) (auto simp: EmitDelta_def I_ext assms(2) intro: Delta_keeps split: prod.splits)
  then have "I s1" "I (s1\<lparr>st_ext := y\<rparr>)" "I (s1\<lparr>st_ext := y, st_nativeWinner := allowedWinnerEngine (nso_WinnerEngine oc)\<rparr>)"
    using I_ext I_winner by blast+
  moreover have "s' = s1 \<or> s' = s1\<lparr>st_ext := y\<rparr> \<or>
      s' = s1\<lparr>st_ext := y, st_nativeWinner := allowedWinnerEngine (nso_WinnerEngine oc)\<rparr>"
    using assms(1) fg A R G by (cases pr) (auto simp: native_seam_def split: if_splits)
  ultimately show ?thesis by auto
qed

lemma sse_callback_keeps:
  "sse_callback env config provider ev (acc, ce, s) = (err, acc', ce', s') \<Longrightarrow> I s \<Longrightarrow> I s'"
  by (auto simp: sse_callback_def split: sum.splits prod.splits option.splits dest!: Delta_keeps)

lemma ForEach_keeps:
  assumes "ForEach view (sse_scan_env env) (sse_callback env config provider) body (acc, ce, s) = (err, acc', ce', s')" "I s"
  shows "I s'"
proof -
  obtain e where "ScanEvents (sse_scan_env env) (sse_callback env config provider) body (acc, ce, s) = (e, acc', ce', s')"
    using assms(1) by (auto simp: ForEach_def split: prod.splits)
  then have "(\<lambda>(acc, ce, s). I s) (acc', ce', s')"
    by (rule ScanEvents_invariant)
      (use assms(2) in \<open>auto simp: sse_scan_env_def I_ext intro: sse_callback_keeps split: prod.splits\<close>)
  then show ?thesis by simp
qed

lemma sse_attempt_keeps:
  assumes "sse_attempt env config provider co s = (res, s')" "I s"
  shows "I s'"
  using assms
  by (auto simp: sse_attempt_def Let_def I_ext I_heartbeat split: option.splits prod.splits sum.splits
      dest!: ForEach_keeps final_parse_keeps)

lemma tryOneStreamChild_keeps:
  assumes "tryOneStreamChild env config provider co s = (res, s')" "I s"
  shows "I s'"
  using assms
  by (auto simp: tryOneStreamChild_def tryOneBedrockStreamChild_keeps
      split: if_splits option.splits prod.splits
      dest!: oracle_seam_keeps native_seam_keeps sse_attempt_keeps)

lemma run_child_keeps:
  assumes "run_child env config child s = (target, res, s')" "I s"
  shows "I s'"
proof -
  have "I ((stream_sendHeartbeat env config ^^ n) (s\<lparr>st_ext := x\<rparr>))" for n x
    by (induction n) (simp_all add: I_ext I_heartbeat assms(2))
  then show ?thesis using assms
    by (auto simp: run_child_def Let_def split: if_splits option.splits prod.splits dest!: tryOneStreamChild_keeps)
qed

end


section \<open>The order of the events\<close>

definition planned_stream :: "stream_config \<Rightarrow> 'v stream_event list" where
  "planned_stream config = (case sg_MetadataPlan config of None \<Rightarrow> []
     | Some plan \<Rightarrow> if sg_NewMetadataResult config
                    then [SeMetadata (plan\<lparr>md_Phase := MetadataPhasePlanned, md_Attempt := 0\<rparr>)] else [])"

text \<open>The events of the windows of a run: a reset stands only after a frame that no reset followed yet.\<close>

fun windows_ok :: "bool \<Rightarrow> 'v stream_event list \<Rightarrow> bool" where
  "windows_ok saw [] = True"
| "windows_ok saw (SeHeartbeat # es) = windows_ok saw es"
| "windows_ok saw (SeStream v r q # es) = windows_ok True es"
| "windows_ok saw (SeReset # es) = (saw \<and> windows_ok False es)"
| "windows_ok saw (_ # es) = False"

fun saw_after :: "bool \<Rightarrow> 'v stream_event list \<Rightarrow> bool" where
  "saw_after saw [] = saw"
| "saw_after saw (SeStream v r q # es) = saw_after True es"
| "saw_after saw (SeReset # es) = saw_after False es"
| "saw_after saw (_ # es) = saw_after saw es"

lemma windows_ok_append: "windows_ok b (es @ fs) \<longleftrightarrow> windows_ok b es \<and> windows_ok (saw_after b es) fs"
  by (induction b es rule: windows_ok.induct) auto

lemma saw_after_append: "saw_after b (es @ fs) = saw_after (saw_after b es) fs"
  by (induction b es rule: saw_after.induct) auto

lemma windows_ok_mono: "windows_ok b es \<Longrightarrow> windows_ok True es"
  by (induction b es rule: windows_ok.induct) auto

lemma saw_after_mono: "saw_after b es \<Longrightarrow> saw_after True es"
  by (induction b es rule: saw_after.induct) auto

definition windows_open :: "stream_config \<Rightarrow> ('v, 'x) stream_state \<Rightarrow> bool" where
  "windows_open config s \<longleftrightarrow>
     (planned_stream config \<noteq> ([] :: 'v stream_event list) \<longrightarrow> st_planned s) \<and>
     st_nativeWinner s \<in> {[], nativeEngineMarker, nativeBAMLParseEngineMarker} \<and>
     (\<exists>p w. st_out s = p @ w \<and> (p = [] \<or> p = planned_stream config) \<and> windows_ok False w \<and>
        (st_saw s \<longrightarrow> saw_after False w))"

lemma windows_open_start: "windows_open config (stream_emitPlannedMetadata env config (stream_start x))"
proof -
  let ?s = "stream_emitPlannedMetadata env config (stream_start x) :: ('a, 'b) stream_state"
  have "st_out ?s = [] \<or> st_out ?s = planned_stream config"
    "planned_stream config \<noteq> ([] :: 'a stream_event list) \<longrightarrow> st_planned ?s" "st_nativeWinner ?s = []" "\<not> st_saw ?s"
    by (auto simp: stream_emitPlannedMetadata_def planned_stream_def stream_start_def Let_def split: option.splits prod.splits)
  then show ?thesis unfolding windows_open_def by (metis append_Nil2 insertI1 windows_ok.simps(1))
qed

lemma windows_open_append:
  assumes "windows_open config s" "windows_ok (st_saw s) es" "st_out s' = st_out s @ es"
    "st_planned s' = st_planned s" "st_nativeWinner s' = st_nativeWinner s" "st_saw s' \<longrightarrow> saw_after (st_saw s) es"
  shows "windows_open config s'"
proof -
  obtain p w where w: "st_out s = p @ w" "p = [] \<or> p = planned_stream config" "windows_ok False w"
      "st_saw s \<longrightarrow> saw_after False w"
    using assms(1) by (auto simp: windows_open_def)
  have "windows_ok (saw_after False w) es" "saw_after (st_saw s) es \<longrightarrow> saw_after (saw_after False w) es"
    using w(4) assms(2) windows_ok_mono[of False es] saw_after_mono[of False es] by (cases "st_saw s"; cases "saw_after False w"; simp)+
  then have "windows_ok False (w @ es)" "st_saw s' \<longrightarrow> saw_after False (w @ es)"
    using w(3) assms(6) by (simp_all add: windows_ok_append saw_after_append)
  then show ?thesis using assms w unfolding windows_open_def by (metis append.assoc)
qed

lemma plan_again:
  "planned_stream config \<noteq> ([] :: 'v stream_event list) \<longrightarrow> st_planned s \<Longrightarrow>
     stream_emitPlannedMetadata env config (s :: ('v, 'x) stream_state) = s"
  by (auto simp: stream_emitPlannedMetadata_def planned_stream_def split: option.splits if_splits)

lemma sendHeartbeat_open:
  assumes "windows_open config s"
  shows "windows_open config (stream_sendHeartbeat env config s)"
proof -
  have pd: "planned_stream config \<noteq> ([] :: 'a stream_event list) \<longrightarrow> st_planned s"
    using assms by (simp add: windows_open_def)
  obtain ok x where o: "so_trysend env (st_ext s) = (ok, x)" by force
  let ?s = "s\<lparr>st_heartbeat := True, st_ext := x, st_out := (if ok then st_out s @ [SeHeartbeat] else st_out s)\<rparr>"
  have "windows_open config ?s"
    by (rule windows_open_append[OF assms, of "if ok then [SeHeartbeat] else []"]) auto
  then show ?thesis using assms o plan_again[of config s env] plan_again[of config ?s env] pd
    by (auto simp: stream_sendHeartbeat_def Let_def)
qed

lemma trySendPartial_open:
  assumes "windows_open config s" "trySendPartialShared env v r q s = (err, s')"
  shows "windows_open config s'"
proof -
  obtain es where "st_out s' = st_out s @ es" "es = [] \<and> st_saw s' = st_saw s \<or> es = [SeStream v r q]"
      "st_planned s' = st_planned s" "st_nativeWinner s' = st_nativeWinner s"
    using assms(2) by (auto simp: trySendPartialShared_def split: prod.splits send_choice.splits)
  then show ?thesis by (intro windows_open_append[OF assms(1), of es]) auto
qed

interpretation win: window_invariant env config "windows_open config" for env config
proof unfold_locales
  show "windows_open config (s\<lparr>st_ext := x\<rparr>)" if "windows_open config s" for s x
    using that by (simp add: windows_open_def)
  show "windows_open config (s\<lparr>st_nativeWinner := allowedWinnerEngine e\<rparr>)" if "windows_open config s" for s e
    using that by (auto simp: windows_open_def allowedWinnerEngine_def)
qed (blast intro: sendHeartbeat_open trySendPartial_open)+


text \<open>The documented behaviour of the context: a send that gave up found it ended, and it stays ended.\<close>

definition stream_lawful :: "('v, 'q, 'r, 'x) stream_env \<Rightarrow> bool" where
  "stream_lawful env \<longleftrightarrow>
     (\<forall>x e x'. so_send env x = (e, x') \<longrightarrow> e \<noteq> None \<or> ctx_Err (so_exec env) x \<noteq> None \<longrightarrow> ctx_Err (so_exec env) x' \<noteq> None) \<and>
     (\<forall>d x r x'. wait_timer (so_exec env) d x = (r, x') \<longrightarrow> ctx_Err (so_exec env) x \<noteq> None \<longrightarrow> ctx_Err (so_exec env) x' \<noteq> None)"

abbreviation stream_ended :: "('v, 'q, 'r, 'x) stream_env \<Rightarrow> ('v, 'x) stream_state \<Rightarrow> bool" where
  "stream_ended env s \<equiv> ctx_Err (so_exec env) (st_ext s) \<noteq> None"

text \<open>The winner that a result names is the client of the configuration that produced it.\<close>

definition stream_winner_ok :: "stream_config \<Rightarrow> stream_winner \<Rightarrow> bool" where
  "stream_winner_ok config w \<longleftrightarrow>
     (if sg_FallbackChain config = []
      then sw_provider w = sg_Provider config \<and> sw_path w = ''buildrequest'' \<and>
        sw_client w = (case sg_MetadataPlan config of None \<Rightarrow> [] | Some plan \<Rightarrow> md_Client plan)
      else (\<exists>child \<in> set (sg_FallbackChain config).
        sw_provider w = gomap_str (sg_ClientProviders config) child \<and>
        (if gomap_flag (sg_LegacyChildren config) child
         then sw_client w = child \<and> sw_path w = ''legacy''
         else sw_client w = (let t = gomap_str (sg_FallbackTargets config) child in if t \<noteq> [] then t else child) \<and>
           sw_path w = ''buildrequest'')))"

text \<open>The events that end a run. One of them is the error or the final, unless the context ended or the
  run made no attempt.\<close>

inductive stream_tail :: "stream_config \<Rightarrow> bool \<Rightarrow> bool \<Rightarrow> 'v stream_event list \<Rightarrow> bool" for config idle ended where
  none: "idle \<or> ended \<Longrightarrow> stream_tail config idle ended []"
| error: "stream_tail config idle ended [SeError (rawFromError (Some e)) e]"
| final: "planned_stream config = ([] :: 'v stream_event list) \<or> ended \<Longrightarrow>
    (\<not> sg_NeedsRaw config \<longrightarrow> raw = [] \<and> reasoning = []) \<Longrightarrow>
    stream_tail config idle ended [SeFinal (v :: 'v option) raw reasoning]"
| outcome: "stream_winner_ok config w \<Longrightarrow> sg_MetadataPlan config = Some plan \<Longrightarrow> sg_NewMetadataResult config \<Longrightarrow>
    engine \<in> {[], nativeEngineMarker, nativeBAMLParseEngineMarker} \<Longrightarrow>
    (\<not> sg_NeedsRaw config \<longrightarrow> raw = [] \<and> reasoning = []) \<Longrightarrow>
    t = [] \<and> ended \<or> t = [SeFinal v raw reasoning] \<Longrightarrow>
    stream_tail config idle ended (SeMetadata (stream_outcome_metadata config plan w engine dur) # t)"

lemma stream_tail_idle: "stream_tail config False ended t \<Longrightarrow> stream_tail config idle ended t"
  by (induction rule: stream_tail.induct) (auto intro: stream_tail.intros)

definition stream_trace :: "stream_config \<Rightarrow> bool \<Rightarrow> bool \<Rightarrow> 'v stream_event list \<Rightarrow> bool" where
  "stream_trace config idle ended out \<longleftrightarrow> (\<exists>p w t. out = p @ w @ t \<and> (p = [] \<or> p = planned_stream config) \<and>
     windows_ok False w \<and> stream_tail config idle ended t)"

lemma windows_open_trace:
  assumes "windows_open config s" "stream_tail config idle ended t"
  shows "stream_trace config idle ended (st_out s @ t)"
  using assms unfolding windows_open_def stream_trace_def by (metis append.assoc)

lemma stream_send_out:
  "stream_send env e s = (err, s') \<Longrightarrow> stream_lawful env \<Longrightarrow>
     st_out s' = st_out s @ (if err = None then [e] else []) \<and> (err \<noteq> None \<or> stream_ended env s \<longrightarrow> stream_ended env s') \<and>
     st_saw s' = st_saw s \<and> st_planned s' = st_planned s \<and> st_nativeWinner s' = st_nativeWinner s \<and> st_dropped s' = st_dropped s"
  unfolding stream_send_def stream_lawful_def
  by (cases "so_send env (st_ext s)"; cases "fst (so_send env (st_ext s))") fastforce+

text \<open>After an attempt that failed, and after one that delivered its result.\<close>

definition attempt_failed :: "('v, 'q, 'r, 'x) stream_env \<Rightarrow> stream_config \<Rightarrow> ('v, 'x) stream_state \<Rightarrow> bool" where
  "attempt_failed env config s \<longleftrightarrow>
     windows_open config s \<or> stream_ended env s \<and> stream_trace config False True (st_out s)"

definition attempt_done :: "('v, 'q, 'r, 'x) stream_env \<Rightarrow> stream_config \<Rightarrow> ('v, 'x) stream_state \<Rightarrow> bool" where
  "attempt_done env config s \<longleftrightarrow> stream_trace config False (stream_ended env s) (st_out s)"

lemma finish_trace:
  assumes law: "stream_lawful env" and w: "windows_open config s" "stream_winner_ok config winner"
    and fin: "finish env config t0 winner (v, raw, reasoning) s = ((r, e), s')"
  shows "if e = None then attempt_done env config s' else attempt_failed env config s'"
proof -
  let ?raw = "if sg_NeedsRaw config then raw else []" and ?rea = "if sg_NeedsRaw config then reasoning else []"
  let ?s1 = "emitOutcomeMetadata env config t0 winner s"
  obtain e2 s2 where F: "stream_send env (SeFinal v ?raw ?rea) ?s1 = (e2, s2)" by force
  have s2: "s' = s2" "e = e2" using fin F by (cases e2; simp add: finish_def emitFinal_def Let_def)+
  note o2 = stream_send_out[OF F law]
  show ?thesis
  proof (cases "planned_stream config = ([] :: 'a stream_event list)")
    case True
    then have s1: "?s1 = s" by (auto simp: emitOutcomeMetadata_def planned_stream_def split: option.splits if_splits)
    have "stream_tail config False ended [SeFinal v ?raw ?rea]" for ended
      by (rule stream_tail.final) (use True in auto)
    moreover have "stream_tail config False True ([] :: 'a stream_event list)" by (rule stream_tail.none) simp
    ultimately have "stream_trace config False ended (st_out s @ [SeFinal v ?raw ?rea])"
      "stream_trace config False True (st_out s)" for ended
      using windows_open_trace[OF w(1)] by (blast, metis append_Nil2)
    then show ?thesis using o2 s1 s2 by (cases e2) (simp_all add: attempt_done_def attempt_failed_def)
  next
    case False
    then obtain plan where plan: "sg_MetadataPlan config = Some plan" "sg_NewMetadataResult config"
      by (auto simp: planned_stream_def split: option.splits if_splits)
    let ?m = "stream_outcome_metadata config plan winner (st_nativeWinner s) (milliseconds (so_now env (st_ext s) - t0))"
    obtain e1 s1 where M: "stream_send env (SeMetadata ?m) s = (e1, s1)" by force
    have s1: "?s1 = s1" using plan M by (simp add: emitOutcomeMetadata_def)
    note o1 = stream_send_out[OF M law]
    have eng: "st_nativeWinner s \<in> {[], nativeEngineMarker, nativeBAMLParseEngineMarker}"
      using w(1) by (simp add: windows_open_def)
    have t1: "stream_tail config False ended [SeMetadata ?m, SeFinal v ?raw ?rea]" for ended
      by (rule stream_tail.outcome[OF w(2) plan eng, of ?raw ?rea]) simp_all
    have t2: "stream_tail config False True [SeMetadata ?m]"
      by (rule stream_tail.outcome[OF w(2) plan eng, of "[]" "[]"]) simp_all
    have t3: "stream_tail config False True [SeFinal v ?raw ?rea]" by (rule stream_tail.final) simp_all
    have t4: "stream_tail config False True ([] :: 'a stream_event list)" by (rule stream_tail.none) simp
    note traces = windows_open_trace[OF w(1) t1] windows_open_trace[OF w(1) t2] windows_open_trace[OF w(1) t3]
      windows_open_trace[OF w(1) t4]
    show ?thesis using o1 o2 s1 s2 traces(1) traces(2-4)
      by (cases e1; cases e2) (simp_all add: attempt_done_def attempt_failed_def)
  qed
qed


lemma send_reset_open:
  assumes "stream_lawful env" "windows_open config s" "send_reset env config s = (err, s')"
  shows "windows_open config (new_window s')" "err \<noteq> None \<Longrightarrow> windows_open config s'"
proof -
  let ?es = "if sg_NeedsPartials config \<and> st_saw s \<and> err = None then [SeReset] else []"
  have o: "st_out s' = st_out s @ ?es \<and> st_saw s' = st_saw s \<and> st_planned s' = st_planned s \<and>
      st_nativeWinner s' = st_nativeWinner s"
    using assms(3) stream_send_out[OF _ assms(1), of SeReset s err s']
    by (cases "sg_NeedsPartials config \<and> st_saw s") (auto simp: send_reset_def)
  show "windows_open config (new_window s')"
    by (rule windows_open_append[OF assms(2), of ?es]) (use o in \<open>auto simp: new_window_def\<close>)
  show "windows_open config s'" if "err \<noteq> None"
    by (rule windows_open_append[OF assms(2), of ?es]) (use o that in auto)
qed

lemma handoff_open:
  assumes "stream_lawful env" "windows_open config s" "handoff env config le s = (err, s')"
  shows "windows_open config s'"
proof (cases "send_reset env config s")
  case (Pair e s1)
  note send_reset_open[OF assms(1,2) Pair]
  then show ?thesis using assms Pair by (cases e) (auto simp: handoff_def split: if_splits)
qed

text \<open>A failed attempt always carries an error.\<close>

lemma tryOneStreamChild_error: "tryOneStreamChild env config provider co s \<noteq> (Inl None, s')"
proof -
  have fp: "final_parse env config acc s1 \<noteq> (Inl None, s')" for acc s1
    by (auto simp: final_parse_def newRawError_def wrapOutputParse_def split: prod.splits sum.splits if_splits)
  have b: "tryOneBedrockStreamChild env config co s1 \<noteq> (Inl None, s')" for s1
    by (auto simp: tryOneBedrockStreamChild_def Let_def fp split: option.splits prod.splits sum.splits)
  have a: "sse_attempt env config provider co s1 \<noteq> (Inl None, s')" for s1
    by (auto simp: sse_attempt_def Let_def fp newRawError_def split: option.splits prod.splits sum.splits if_splits)
  have nt: "newNativeStreamTerminalError e raw \<noteq> None" for e raw
    using newNativeStreamTerminalError_terminal[of e raw] by auto
  have o: "oracle_seam env config f provider co s1 \<noteq> (Some (Inl None), s')" for f s1
    by (auto simp: oracle_seam_def nt split: prod.splits if_splits)
  have n: "native_seam env config f provider co s1 \<noteq> (Some (Inl None), s')" for f s1
    by (auto simp: native_seam_def nt split: prod.splits if_splits option.splits sum.splits)
  show ?thesis
    by (auto simp: tryOneStreamChild_def a b o n split: if_splits option.splits prod.splits)
qed

lemma run_child_error: "run_child env config child s \<noteq> (tp, Inl None, s')"
  by (auto simp: run_child_def Let_def tryOneStreamChild_error split: if_splits option.splits prod.splits sum.splits)

lemma run_child_winner:
  assumes "run_child env config child s = ((target, path), res, s')"
  shows "if gomap_flag (sg_LegacyChildren config) child then target = child \<and> path = ''legacy''
    else target = (let t = gomap_str (sg_FallbackTargets config) child in if t \<noteq> [] then t else child) \<and> path = ''buildrequest''"
  using assms by (auto simp: run_child_def Let_def split: option.splits prod.splits)

lemma stream_chain_trace:
  assumes law: "stream_lawful env"
  shows "stream_chain env config t0 a chain le s = ((r, e), s') \<Longrightarrow> windows_open config s \<Longrightarrow>
    set chain \<subseteq> set (sg_FallbackChain config) \<Longrightarrow> chain \<noteq> [] \<or> le \<noteq> None \<Longrightarrow>
    if e = None then attempt_done env config s' else attempt_failed env config s'"
proof (induction chain arbitrary: le s)
  case (Cons child chain)
  show ?case
  proof (cases "ctx_Err (so_exec env) (st_ext s)")
    case (Some ce)
    then show ?thesis using Cons.prems by (auto simp: attempt_failed_def)
  next
    case ctx: None
    obtain he s1 where H: "handoff env config le s = (he, s1)" by force
    note h = handoff_open[OF law Cons.prems(2) H]
    show ?thesis
    proof (cases he)
      case (Some ce)
      then show ?thesis using Cons.prems(1) ctx H h by (auto simp: attempt_failed_def)
    next
      case None
      obtain tp pa res s2 where R: "run_child env config child s1 = ((tp, pa), res, s2)" by (metis prod.exhaust)
      note o = win.run_child_keeps[OF R h]
      show ?thesis
      proof (cases res)
        case (Inr y)
        obtain v raw rea where y: "y = (v, raw, rea)" by (cases y) auto
        show ?thesis
        proof (rule finish_trace[OF law o])
          let ?w = "\<lparr>sw_client = tp, sw_provider = gomap_str (sg_ClientProviders config) child, sw_path = pa, sw_retryCount = a\<rparr>"
          show "stream_winner_ok config ?w"
            using run_child_winner[OF R] Cons.prems(3) by (auto simp: stream_winner_ok_def)
          show "finish env config t0 ?w (v, raw, rea) s2 = ((r, e), s')"
            using Cons.prems(1) ctx H None R Inr y by simp
        qed
      next
        case (Inl err)
        then have "err \<noteq> None" using R run_child_error by metis
        moreover have "isNativeStreamTerminal err \<and> r = None \<and> e = err \<and> s' = s2 \<or>
            stream_chain env config t0 a chain err s2 = ((r, e), s')"
          using Cons.prems(1) ctx H None R Inl by (auto split: if_splits)
        ultimately show ?thesis using Cons.IH[OF _ o] Cons.prems(3) o by (auto simp: attempt_failed_def)
      qed
    qed
  qed
qed (auto simp: attempt_failed_def)

lemma stream_attemptFull_trace:
  assumes law: "stream_lawful env" and w: "windows_open config s"
    and A: "stream_attemptFull env config t0 a s = ((r, e), s')"
  shows "if e = None then attempt_done env config s' else attempt_failed env config s'"
proof (cases "sg_FallbackChain config = []")
  case True
  obtain res s1 where T: "tryOneStreamChild env config (sg_Provider config) (sg_ClientOverride config) s = (res, s1)" by force
  note o = win.tryOneStreamChild_keeps[OF T w]
  show ?thesis
  proof (cases res)
    case (Inl err)
    then have "err \<noteq> None" using T tryOneStreamChild_error by metis
    then show ?thesis using A True T Inl o by (auto simp: stream_attemptFull_def attempt_failed_def)
  next
    case (Inr y)
    obtain v raw rea where y: "y = (v, raw, rea)" by (cases y) auto
    show ?thesis
      by (rule finish_trace[OF law o, of _ t0 v raw rea r])
        (use A True T Inr y in \<open>auto simp: stream_attemptFull_def stream_winner_ok_def\<close>)
  qed
next
  case False
  then show ?thesis using stream_chain_trace[OF law _ w] A by (auto simp: stream_attemptFull_def)
qed

lemma stream_onRetry_open:
  assumes "stream_lawful env" "windows_open config s"
  shows "windows_open config (stream_onRetry env config a s)"
  using send_reset_open(1)[OF assms] by (cases "send_reset env config s") (simp add: stream_onRetry_def)

lemma stream_run_trace:
  assumes law: "stream_lawful env" and run: "RunStreamOrchestration env config x = (res, s)"
  shows "stream_trace config (stream_validate env config \<noteq> None \<or>
    (\<exists>p. sg_RetryPolicy config = Some p \<and> po_MaxRetries p \<ge> max_int64)) (stream_ended env s) (st_out s)"
proof -
  let ?idle = "stream_validate env config \<noteq> None \<or> (\<exists>p. sg_RetryPolicy config = Some p \<and> po_MaxRetries p \<ge> max_int64)"
  let ?s0 = "stream_emitPlannedMetadata env config (stream_start x)"
  have w0: "windows_open config ?s0" by (rule windows_open_start)
  have quiet: "stream_trace config ?idle ended (st_out t)" if "windows_open config t" "?idle \<or> ended" for t ended
    using windows_open_trace[OF that(1) stream_tail.none[of ?idle ended config]] that(2) by simp
  have weak: "stream_trace config b ended out" if "stream_trace config False ended out" for b ended out
    using that stream_tail_idle unfolding stream_trace_def by metis
  show ?thesis
  proof (cases "stream_validate env config")
    case (Some e)
    then have "s = ?s0" using run by (simp add: RunStreamOrchestration_def Let_def)
    then show ?thesis using Some quiet[OF w0, of "stream_ended env s"] by simp
  next
    case v: None
    obtain r err s1 where E: "Execute (stream_exec env) None (sg_RetryPolicy config)
        (stream_attemptFull env config (so_now env (st_ext ?s0))) (Some (stream_onRetry env config)) ?s0 = ((r, err), s1)"
      by (metis surj_pair)
    have I: "(err = None \<longrightarrow> attempt_done env config s1 \<or> (r = None \<and> windows_open config s1 \<and>
        (\<exists>p. sg_RetryPolicy config = Some p \<and> po_MaxRetries p \<ge> max_int64))) \<and> (err \<noteq> None \<longrightarrow> attempt_failed env config s1)"
    proof (rule Execute_rule[where I = "windows_open config" and Q = "\<lambda>r. attempt_done env config"
          and F = "attempt_failed env config", OF E w0])
      show "windows_open config w'" if "windows_open config w" "wait_timer (stream_exec env) d w = (r, w')" for d w r w'
        using that win.I_ext by (auto simp: stream_exec_def split: prod.splits)
      show "windows_open config (case Some (stream_onRetry env config) of None \<Rightarrow> w | Some f \<Rightarrow> f a w)"
        if "attempt_failed env config w" "ctx_Err (stream_exec env) w = None" for a w
        using that stream_onRetry_open[OF law] by (auto simp: attempt_failed_def stream_exec_def)
    qed (use stream_attemptFull_trace[OF law] in \<open>fastforce simp: attempt_failed_def\<close>)+
    show ?thesis
    proof (cases err)
      case None
      then have "s = s1" using run v E by (simp add: RunStreamOrchestration_def Let_def)
      then show ?thesis using I None quiet[of s1] weak by (auto simp: attempt_done_def)
    next
      case (Some e)
      show ?thesis
      proof (cases "stream_ended env s1")
        case True
        then have "s = s1" using run v E Some by (auto simp: RunStreamOrchestration_def Let_def)
        then show ?thesis using I Some True quiet[of s1] weak by (auto simp: attempt_failed_def)
      next
        case False
        obtain e2 s2 where S: "stream_send env (SeError (rawFromError (Some e)) e) s1 = (e2, s2)" by force
        have s: "s = s2" using run v E Some False S by (simp add: RunStreamOrchestration_def Let_def)
        have w1: "windows_open config s1" using I Some False by (auto simp: attempt_failed_def)
        note o = stream_send_out[OF S law]
        have "stream_trace config ?idle ended (st_out s1 @ [SeError (rawFromError (Some e)) e])" for ended
          by (rule windows_open_trace[OF w1 stream_tail.error])
        then show ?thesis using o s quiet[OF w1, of True] by (cases e2) auto
      qed
    qed
  qed
qed


section \<open>The partials of the last window\<close>

text \<open>The raw text and the reasoning of the frames since the last reset.\<close>

fun frames_after :: "(string \<times> string) list \<Rightarrow> 'v stream_event list \<Rightarrow> (string \<times> string) list" where
  "frames_after fs [] = fs"
| "frames_after fs (SeStream v r q # es) = frames_after (fs @ [(r, q)]) es"
| "frames_after fs (SeReset # es) = frames_after [] es"
| "frames_after fs (_ # es) = frames_after fs es"

definition window_hist :: "('v, 'x) stream_state \<Rightarrow> (string \<times> string) list" where
  "window_hist s = frames_after [] (st_out s)"

lemma frames_after_append: "frames_after fs (es @ es') = frames_after (frames_after fs es) es'"
  by (induction fs es rule: frames_after.induct) auto

text \<open>Steps that send no frame and no reset.\<close>

definition same_window :: "('v, 'x) stream_state \<Rightarrow> ('v, 'x) stream_state \<Rightarrow> bool" where
  "same_window s s' \<longleftrightarrow> window_hist s' = window_hist s \<and> st_dropped s' = st_dropped s \<and> st_saw s' = st_saw s"

lemma same_window_ext [simp]:
  "same_window s s" "same_window s (s\<lparr>st_ext := x\<rparr>)" "same_window s (s\<lparr>st_nativeWinner := e\<rparr>)"
  "same_window s (s\<lparr>st_ext := x, st_nativeWinner := e\<rparr>)"
  by (simp_all add: same_window_def window_hist_def)

lemma same_window_trans: "same_window s t \<Longrightarrow> same_window t u \<Longrightarrow> same_window s u"
  by (simp add: same_window_def)

lemma same_window_heartbeat: "same_window s (stream_sendHeartbeat env config s)"
  by (auto simp: same_window_def window_hist_def stream_sendHeartbeat_def stream_emitPlannedMetadata_def
      frames_after_append Let_def split: option.splits prod.splits)

lemma same_window_connect: "same_window s0 s \<Longrightarrow> same_window s0 (stream_sendHeartbeat env config (s\<lparr>st_ext := x\<rparr>))"
  by (rule same_window_trans[OF same_window_trans[OF _ same_window_ext(2)] same_window_heartbeat])

text \<open>The sink of the cadence is the consumer's window, whole as long as nothing was dropped.\<close>

interpretation window: event_sink "newCadence env config f" window_hist "\<lambda>s. st_dropped s = 0" for env config f
proof unfold_locales
  show "st_dropped s = 0 \<and> window_hist s' = window_hist s @ [(cv_Raw ev, cv_Reasoning ev)]"
    if "cf_Emit (newCadence env config f) ev s = (None, s')" "st_dropped s' = 0" for ev s s'
    using that by (auto simp: newCadence_def trySendPartialShared_def window_hist_def frames_after_append
        split: prod.splits send_choice.splits)
  show "(st_dropped s' = 0) = (st_dropped s = 0) \<and> window_hist s' = window_hist s"
    if "cf_Now (newCadence env config f) s = (n, s')" for s n s'
    using that by (auto simp: newCadence_def)
  show "(st_dropped s' = 0) = (st_dropped s = 0) \<and> window_hist s' = window_hist s"
    if "cf_ParsePartial (newCadence env config f) = Some g" "g a s = (res, s')" for g a s res s'
    using that by (auto simp: newCadence_def window_hist_def split: prod.splits sum.splits)
qed

text \<open>What the consumer got since the state \<open>s0\<close> is what the accumulator has, if it missed nothing.\<close>

definition in_step :: "('v, 'x) stream_state \<Rightarrow> string \<Rightarrow> string \<Rightarrow> ('v, 'x) stream_state \<Rightarrow> bool" where
  "in_step s0 raw reasoning s \<longleftrightarrow> (st_dropped s = 0 \<longrightarrow> st_dropped s0 = 0 \<and>
     concat (map fst (window_hist s)) = concat (map fst (window_hist s0)) @ raw \<and>
     concat (map snd (window_hist s)) = concat (map snd (window_hist s0)) @ reasoning)"

lemma in_step_same: "in_step s0 r q s \<Longrightarrow> same_window s s' \<Longrightarrow> in_step s0 r q s'"
  by (simp add: in_step_def same_window_def)

lemma in_step_start: "same_window s0 s \<Longrightarrow> in_step s0 [] [] s"
  by (simp add: in_step_def same_window_def)

definition acc_in_step :: "('v, 'x) stream_state \<Rightarrow> accumulator \<Rightarrow> ('v, 'x) stream_state \<Rightarrow> bool" where
  "acc_in_step s0 acc s = in_step s0 (ac_raw acc) (ac_reasoning acc) s"

lemma NewStreamCadence_in_step: "same_window s0 s \<Longrightarrow> acc_in_step s0 (NewStreamCadence t) s"
  by (simp add: acc_in_step_def NewStreamCadence_def in_step_start)

lemma Delta_in_step:
  assumes "sg_NeedsPartials config" "sg_NeedsRaw config" and ok: "acc_in_step s0 acc s"
    and D: "Delta (newCadence env config f) p r q acc s = (None, acc', s')"
  shows "acc_in_step s0 acc' s'"
proof -
  have n: "cf_NeedsPartials (newCadence env config f)" "cf_NeedsRaw (newCadence env config f)"
    using assms(1,2) by (simp_all add: newCadence_def)
  show ?thesis using window.Delta_hist[OF n D] Delta_channels[OF D] ok
    by (auto simp: acc_in_step_def in_step_def channels_def)
qed

lemma final_parse_in_step:
  "final_parse env config acc s = (Inr (v, raw, rea), s') \<Longrightarrow> acc_in_step s0 acc s \<Longrightarrow> in_step s0 raw rea s'"
  by (auto simp: final_parse_def acc_in_step_def intro: in_step_same split: prod.splits sum.splits if_splits)

lemma ForEach_in_step:
  assumes "sg_NeedsPartials config" "sg_NeedsRaw config" "acc_in_step s0 acc s"
    and F: "ForEach view (sse_scan_env env) (sse_callback env config provider) body (acc, None, s) = (err, acc', None, s')"
  shows "acc_in_step s0 acc' s'"
proof -
  obtain e where "ScanEvents (sse_scan_env env) (sse_callback env config provider) body (acc, None, s) = (e, acc', None, s')"
    using F by (auto simp: ForEach_def split: prod.splits)
  then have "(\<lambda>(acc, ce :: go_error option, s). ce = None \<longrightarrow> acc_in_step s0 acc s) (acc', None, s')"
  proof (rule ScanEvents_invariant[where J = "\<lambda>(acc, ce :: go_error option, s). ce = None \<longrightarrow> acc_in_step s0 acc s"])
    show "(\<lambda>(acc, ce, s). ce = None \<longrightarrow> acc_in_step s0 acc s) x'"
      if "(\<lambda>(acc, ce, s). ce = None \<longrightarrow> acc_in_step s0 acc s) x" "sse_callback env config provider ev x = (e, x')" for ev x e x'
      using that Delta_in_step[OF assms(1,2)]
      by (auto simp: sse_callback_def split: prod.splits sum.splits option.splits)
  qed (use assms(3) in \<open>auto simp: sse_scan_env_def acc_in_step_def intro: in_step_same split: prod.splits\<close>)
  then show ?thesis by simp
qed

lemma sse_attempt_in_step:
  assumes "sg_NeedsPartials config" "sg_NeedsRaw config"
    and "sse_attempt env config provider co s = (Inr (v, raw, rea), s')" "same_window s0 s"
  shows "in_step s0 raw rea s'"
proof -
  have st: "acc_in_step s0 (NewStreamCadence 0) (stream_sendHeartbeat env config (s\<lparr>st_ext := x\<rparr>))" for x
    by (rule NewStreamCadence_in_step[OF same_window_connect[OF assms(4)]])
  show ?thesis using assms(3)
    by (auto simp: sse_attempt_def Let_def split: prod.splits sum.splits option.splits
        intro: final_parse_in_step[OF _ ForEach_in_step[OF assms(1,2) st]])
qed

lemma bedrock_loop_in_step:
  assumes "sg_NeedsPartials config" "sg_NeedsRaw config" "sg_ParseThrottleInterval config \<le> max_int64"
  shows "bedrock_loop env config frames acc s = (None, acc', s') \<Longrightarrow> acc_in_step s0 acc s \<Longrightarrow> acc_in_step s0 acc' s'"
proof (induction frames arbitrary: acc s)
  case Nil
  then show ?case by (auto simp: acc_in_step_def intro: in_step_same)
next
  case (Cons frame frames)
  let ?s = "s\<lparr>st_ext := so_read env (st_ext s)\<rparr>"
  have ok: "acc_in_step s0 acc ?s" using Cons.prems(2) by (auto simp: acc_in_step_def intro: in_step_same)
  consider (eof) "acc' = acc" "s' = ?s" | (more) d acc1 s1 where "bedrock_delta env config d acc ?s = (None, acc1, s1)"
      "bedrock_loop env config frames acc1 s1 = (None, acc', s')"
    using Cons.prems(1) by (auto simp: Let_def split: sum.splits if_splits option.splits prod.splits)
  then show ?case
  proof cases
    case more
    show ?thesis
      by (rule Cons.IH[OF more(2) Delta_in_step[OF assms(1,2) ok more(1)[unfolded bedrock_delta_cadence[OF assms(3)]]]])
  qed (use ok in simp)
qed

lemma bedrock_in_step:
  assumes "sg_NeedsPartials config" "sg_NeedsRaw config" "sg_ParseThrottleInterval config \<le> max_int64"
    and "tryOneBedrockStreamChild env config co s = (Inr (v, raw, rea), s')" "same_window s0 s"
  shows "in_step s0 raw rea s'"
proof -
  have st: "acc_in_step s0 (NewStreamCadence 0) (stream_sendHeartbeat env config (s\<lparr>st_ext := x\<rparr>))" for x
    by (rule NewStreamCadence_in_step[OF same_window_connect[OF assms(5)]])
  show ?thesis using assms(4)
    by (auto simp: tryOneBedrockStreamChild_def Let_def split: prod.splits sum.splits option.splits
        intro: final_parse_in_step[OF _ bedrock_loop_in_step[OF assms(1-3) _ st]])
qed


text \<open>
  The contract of a native callback as \<^verbatim>\<open>native_stream_callback.go\<close> documents it: one that emitted a delta
  does not decline, and one that was asked to stop does not complete.
\<close>

primrec script_ends :: "('o \<Rightarrow> bool) \<Rightarrow> ('x, 'e, 'o) native_script \<Rightarrow> bool" where
  "script_ends P (NDone oc) = P oc"
| "script_ends P (NHeaders k) = script_ends P k"
| "script_ends P (NLook k) = (\<forall>x. script_ends P (k x))"
| "script_ends P (NEffect f k) = script_ends P k"
| "script_ends P (NEmit e k) = (\<forall>r. script_ends P (k r))"

primrec script_lawful :: "('x, 'e, stream_outcome) native_script \<Rightarrow> bool" where
  "script_lawful (NDone oc) = True"
| "script_lawful (NHeaders k) = script_lawful k"
| "script_lawful (NLook k) = (\<forall>x. script_lawful (k x))"
| "script_lawful (NEffect f k) = script_lawful k"
| "script_lawful (NEmit e k) = (\<forall>r. script_lawful (k r) \<and>
     script_ends (\<lambda>oc. nso_Disposition oc \<noteq> NativeStreamDeclined \<and> (r \<noteq> None \<longrightarrow> nso_Disposition oc \<noteq> NativeStreamCompleted)) (k r))"

lemma run_script_ends: "run_script headers sink script a s = (oc, a', s') \<Longrightarrow> script_ends P script \<Longrightarrow> P oc"
proof (induction script arbitrary: a s)
  case (NLook k)
  show ?case by (rule NLook.IH[OF rangeI, of "st_ext s"]) (use NLook.prems in simp_all)
next
  case (NEmit e k)
  obtain err a1 s1 where "sink e a s = (err, a1, s1)" by (metis prod_cases3)
  then show ?case using NEmit.IH[OF rangeI, of err a1 s1] NEmit.prems by simp
qed simp_all

lemma native_script_in_step:
  assumes n: "sg_NeedsPartials config" "sg_NeedsRaw config"
  shows "run_script (stream_sendHeartbeat env config) (EmitDelta env config) script acc s = (oc, acc', s') \<Longrightarrow>
    script_lawful script \<Longrightarrow> acc_in_step s0 acc s \<Longrightarrow>
    (nso_Disposition oc = NativeStreamCompleted \<longrightarrow> acc_in_step s0 acc' s') \<and>
    (nso_Disposition oc = NativeStreamDeclined \<longrightarrow> same_window s s')"
proof (induction script arbitrary: acc s)
  case (NHeaders k)
  have h: "same_window s (stream_sendHeartbeat env config s)" by (rule same_window_heartbeat)
  then have "acc_in_step s0 acc (stream_sendHeartbeat env config s)"
    using NHeaders.prems(3) by (auto simp: acc_in_step_def intro: in_step_same)
  then show ?case
    using NHeaders.IH[of acc "stream_sendHeartbeat env config s"] NHeaders.prems(1,2) same_window_trans[OF h] by simp
next
  case (NLook k)
  then show ?case using NLook.IH[OF rangeI] by simp
next
  case (NEffect f k)
  have "acc_in_step s0 acc (s\<lparr>st_ext := f (st_ext s)\<rparr>)"
    using NEffect.prems(3) by (auto simp: acc_in_step_def intro: in_step_same)
  then show ?case
    using NEffect.IH[of acc "s\<lparr>st_ext := f (st_ext s)\<rparr>"] NEffect.prems(1,2) same_window_trans[OF same_window_ext(2)[of s "f (st_ext s)"]]
    by simp
next
  case (NEmit d k)
  obtain p r q where d: "d = (p, r, q)" by (cases d) auto
  obtain err acc1 s1 where D: "Delta (newCadence env config (so_nativeParseStream env)) p r q acc s = (err, acc1, s1)"
    by (metis prod_cases3)
  then have "EmitDelta env config d acc s = (err, acc1, s1)" by (simp add: EmitDelta_def d)
  then have run: "run_script (stream_sendHeartbeat env config) (EmitDelta env config) (k err) acc1 s1 = (oc, acc', s')"
    using NEmit.prems(1) by simp
  have e: "nso_Disposition oc \<noteq> NativeStreamDeclined \<and> (err \<noteq> None \<longrightarrow> nso_Disposition oc \<noteq> NativeStreamCompleted)"
    by (rule run_script_ends[OF run]) (use NEmit.prems(2) in simp)
  show ?case
  proof (cases err)
    case None
    then have "acc_in_step s0 acc1 s1" using Delta_in_step[OF n NEmit.prems(3)] D by blast
    then show ?thesis using NEmit.IH[OF rangeI run] NEmit.prems(2) e by simp
  qed (use e in simp)
qed simp

lemma native_seam_in_step:
  assumes n: "sg_NeedsPartials config" "sg_NeedsRaw config" and law: "script_lawful (fst (f (native_stream_attempt env config provider co) (st_ext s)))"
    and S: "native_seam env config f provider co s = (res, s')" and w: "same_window s0 s"
  shows "(res = Some (Inr (v, raw, rea)) \<longrightarrow> in_step s0 raw rea s') \<and> (res = None \<longrightarrow> same_window s0 s')"
proof (cases "so_nativeParseStream env = None \<or> so_nativeParseFinal env = None")
  case True
  then show ?thesis using S by (auto simp: native_seam_def split: option.splits)
next
  case False
  then obtain f0 g where fg: "so_nativeParseStream env = Some f0" "so_nativeParseFinal env = Some g" by auto
  obtain script x where A: "f (native_stream_attempt env config provider co) (st_ext s) = (script, x)" by force
  obtain oc acc s1 where R: "run_script (stream_sendHeartbeat env config) (EmitDelta env config) script (NewStreamCadence 0)
      (s\<lparr>st_ext := x\<rparr>) = (oc, acc, s1)" by (metis prod_cases3)
  have w1: "same_window s0 (s\<lparr>st_ext := x\<rparr>)" by (rule same_window_trans[OF w same_window_ext(2)])
  have st: "(nso_Disposition oc = NativeStreamCompleted \<longrightarrow> acc_in_step s0 acc s1) \<and>
      (nso_Disposition oc = NativeStreamDeclined \<longrightarrow> same_window (s\<lparr>st_ext := x\<rparr>) s1)"
    by (rule native_script_in_step[OF n R _ NewStreamCadence_in_step[OF w1]]) (use law A in simp)
  obtain pr y where G: "g (ac_parseable acc) (st_ext s1) = (pr, y)" by force
  let ?s2 = "s1\<lparr>st_ext := y, st_nativeWinner := allowedWinnerEngine (nso_WinnerEngine oc)\<rparr>"
  consider (declined) "res = None" "s' = s1" "nso_Disposition oc = NativeStreamDeclined" | (failed) e where "res = Some (Inl e)"
    | (completed) v where "res = Some (Inr (v, ac_raw acc, ac_reasoning acc))" "s' = ?s2"
        "nso_Disposition oc = NativeStreamCompleted"
    using S fg A R G by (cases pr) (auto simp: native_seam_def split: if_splits)
  then show ?thesis
  proof cases
    case declined
    then show ?thesis using st same_window_trans[OF w1, of s1] by simp
  next
    case completed
    then have "in_step s0 (ac_raw acc) (ac_reasoning acc) s1" using st by (simp add: acc_in_step_def)
    then show ?thesis using completed in_step_same[OF _ same_window_ext(4)] by auto
  qed simp
qed

text \<open>The configurations for which the partials and the final come from the same accumulators: raw wanted, no
  legacy child and no callback that brings its own result. A Go duration is at most the largest \<^verbatim>\<open>int64\<close>.\<close>

definition raw_stream :: "('v, 'q, 'r, 'x) stream_env \<Rightarrow> stream_config \<Rightarrow> bool" where
  "raw_stream env config \<longleftrightarrow> sg_NeedsPartials config \<and> sg_NeedsRaw config \<and> sg_ParseThrottleInterval config \<le> max_int64 \<and>
     \<not> sg_NativeOracleAttemptEnabled config \<and> sg_LegacyChildren config = [] \<and>
     (\<forall>f provider co x. so_native env = Some f \<longrightarrow> script_lawful (fst (f (native_stream_attempt env config provider co) x)))"

lemma tryOneStreamChild_in_step:
  assumes c: "raw_stream env config" and T: "tryOneStreamChild env config provider co s = (Inr (v, raw, rea), s')"
    and w: "same_window s0 s"
  shows "in_step s0 raw rea s'"
proof -
  have n: "sg_NeedsPartials config" "sg_NeedsRaw config" "sg_ParseThrottleInterval config \<le> max_int64"
    using c by (simp_all add: raw_stream_def)
  show ?thesis
  proof (cases "provider = ''aws-bedrock''")
    case True
    then show ?thesis using T bedrock_in_step[OF n _ w] by (simp add: tryOneStreamChild_def)
  next
    case False
    show ?thesis
    proof (cases "if sg_NativeAttemptEnabled config then so_native env else None")
      case None
      then show ?thesis using T c False sse_attempt_in_step[OF n(1,2) _ w] by (simp add: tryOneStreamChild_def raw_stream_def)
    next
      case (Some f)
      then have law: "script_lawful (fst (f (native_stream_attempt env config provider co) (st_ext s)))"
        using c by (auto simp: raw_stream_def split: if_splits)
      obtain res s1 where S: "native_seam env config f provider co s = (res, s1)" by force
      note st = native_seam_in_step[OF n(1,2) law S w, of v raw rea]
      have "res = Some (Inr (v, raw, rea)) \<and> s' = s1 \<or> res = None \<and> sse_attempt env config provider co s1 = (Inr (v, raw, rea), s')"
        using T c False Some S by (cases res) (auto simp: tryOneStreamChild_def raw_stream_def)
      then show ?thesis using st sse_attempt_in_step[OF n(1,2)] by blast
    qed
  qed
qed


text \<open>Before the final: the consumer has no final yet, and frames since the last reset were noticed.\<close>

definition window_seen :: "('v, 'x) stream_state \<Rightarrow> bool" where
  "window_seen s \<longleftrightarrow> (\<forall>v r q. SeFinal v r q \<notin> set (st_out s)) \<and> (window_hist s \<noteq> [] \<longrightarrow> st_saw s)"

lemma window_seen_append:
  assumes "window_seen s" "st_out s' = st_out s @ es" "\<forall>e \<in> set es. e = SeHeartbeat \<or> (\<exists>m. e = SeMetadata m)" "st_saw s' = st_saw s"
  shows "window_seen s'"
proof -
  have "frames_after fs es = fs" for fs using assms(3) by (induction es) auto
  then show ?thesis using assms by (auto simp: window_seen_def window_hist_def frames_after_append)
qed

interpretation seen: window_invariant env config window_seen for env config
proof unfold_locales
  show "window_seen (stream_sendHeartbeat env config s)" if "window_seen s" for s
  proof -
    have "\<exists>es. st_out (stream_sendHeartbeat env config s) = st_out s @ es \<and>
        (\<forall>e \<in> set es. e = SeHeartbeat \<or> (\<exists>m. e = SeMetadata m)) \<and> st_saw (stream_sendHeartbeat env config s) = st_saw s"
      by (auto simp: stream_sendHeartbeat_def stream_emitPlannedMetadata_def Let_def split: option.splits prod.splits)
    then show ?thesis using window_seen_append[OF that] by blast
  qed
  show "window_seen s'" if "window_seen s" "trySendPartialShared env v r q s = (err, s')" for s v r q err s'
    using that by (auto simp: trySendPartialShared_def window_seen_def window_hist_def split: prod.splits send_choice.splits)
qed (auto simp: window_seen_def window_hist_def)

text \<open>The final that was sent is what the last window had.\<close>

definition final_in_step :: "('v, 'x) stream_state \<Rightarrow> bool" where
  "final_in_step s \<longleftrightarrow> (\<forall>v raw rea. SeFinal v raw rea \<in> set (st_out s) \<longrightarrow> st_dropped s = 0 \<longrightarrow>
     concat (map fst (window_hist s)) = raw \<and> concat (map snd (window_hist s)) = rea)"

definition window_pre :: "('v, 'q, 'r, 'x) stream_env \<Rightarrow> ('v, 'x) stream_state \<Rightarrow> bool" where
  "window_pre env s \<longleftrightarrow> (\<forall>v r q. SeFinal v r q \<notin> set (st_out s)) \<and> (window_hist s \<noteq> [] \<longrightarrow> stream_ended env s)"

definition window_failed :: "('v, 'q, 'r, 'x) stream_env \<Rightarrow> ('v, 'x) stream_state \<Rightarrow> bool" where
  "window_failed env s \<longleftrightarrow> (\<forall>v r q. SeFinal v r q \<notin> set (st_out s)) \<and> (window_seen s \<or> stream_ended env s)"

lemma final_in_step_none: "\<forall>v r q. SeFinal v r q \<notin> set (st_out s) \<Longrightarrow> final_in_step s"
  by (simp add: final_in_step_def)

lemma window_pre_seen: "window_pre env s \<Longrightarrow> \<not> stream_ended env s \<Longrightarrow> window_seen s \<and> window_hist s = []"
  by (auto simp: window_pre_def window_seen_def)

lemma finish_in_step:
  assumes law: "stream_lawful env" and n: "sg_NeedsRaw config" and st: "in_step s0 raw rea s" "window_hist s0 = []"
    and seen: "window_seen s" and fin: "finish env config t0 winner (v, raw, rea) s = ((r, e), s')"
  shows "if e = None then final_in_step s' else window_failed env s'"
proof -
  let ?s1 = "emitOutcomeMetadata env config t0 winner s"
  have s1: "\<exists>es. st_out ?s1 = st_out s @ es \<and> (\<forall>e \<in> set es. \<exists>m. e = SeMetadata m) \<and> st_saw ?s1 = st_saw s \<and>
      st_dropped ?s1 = st_dropped s"
    by (auto simp: emitOutcomeMetadata_def stream_send_def split: option.splits prod.splits)
  then have seen1: "window_seen ?s1" using window_seen_append[OF seen] by blast
  have h1: "window_hist ?s1 = window_hist s"
  proof -
    obtain es where es: "st_out ?s1 = st_out s @ es" "\<forall>e \<in> set es. \<exists>m. e = SeMetadata m" using s1 by blast
    have "frames_after fs es = fs" for fs using es(2) by (induction es) auto
    then show ?thesis using es(1) by (simp add: window_hist_def frames_after_append)
  qed
  obtain e2 s2 where F: "stream_send env (SeFinal v raw rea) ?s1 = (e2, s2)" by force
  have s2: "s' = s2" "e = e2" using fin F n by (cases e2; simp add: finish_def emitFinal_def Let_def)+
  note o2 = stream_send_out[OF F law]
  show ?thesis
  proof (cases e2)
    case None
    then have "st_out s' = st_out ?s1 @ [SeFinal v raw rea]" "st_dropped s' = st_dropped s" using o2 s1 s2 by auto
    moreover from this have "window_hist s' = window_hist s" using h1 by (simp add: window_hist_def frames_after_append)
    ultimately show ?thesis using None s2 st seen1
      by (auto simp: final_in_step_def in_step_def window_seen_def)
  next
    case (Some ce)
    then show ?thesis using o2 s2 seen1 by (auto simp: window_failed_def window_seen_def)
  qed
qed

lemma send_reset_clean:
  assumes "stream_lawful env" "sg_NeedsPartials config" "window_seen s" "send_reset env config s = (err, s')"
  shows "(\<forall>v r q. SeFinal v r q \<notin> set (st_out s')) \<and> (err = None \<longrightarrow> window_hist s' = []) \<and> (err \<noteq> None \<longrightarrow> stream_ended env s')"
proof (cases "st_saw s")
  case True
  then have S: "stream_send env SeReset s = (err, s')" using assms(2,4) by (simp add: send_reset_def)
  show ?thesis using stream_send_out[OF S assms(1)] assms(3)
    by (auto simp: window_seen_def window_hist_def frames_after_append)
next
  case False
  then show ?thesis using assms(3,4) by (auto simp: send_reset_def window_seen_def)
qed

lemma new_window_out [simp]:
  "st_out (new_window s) = st_out s" "st_ext (new_window s) = st_ext s" "window_hist (new_window s) = window_hist s"
  by (simp_all add: new_window_def window_hist_def)

lemma run_child_in_step:
  assumes "raw_stream env config" "run_child env config child s = (tp, Inr (v, raw, rea), s')"
  shows "in_step s raw rea s'"
proof -
  have "\<not> gomap_flag (sg_LegacyChildren config) child" using assms(1) by (simp add: raw_stream_def gomap_flag_def)
  then show ?thesis using assms(2) tryOneStreamChild_in_step[OF assms(1) _ same_window_ext(1)]
    by (auto simp: run_child_def Let_def split: prod.splits)
qed

lemma stream_chain_in_step:
  assumes law: "stream_lawful env" and c: "raw_stream env config"
  shows "stream_chain env config t0 a chain le s = ((r, e), s') \<Longrightarrow> window_seen s \<Longrightarrow> le = None \<longrightarrow> window_hist s = [] \<Longrightarrow>
    chain \<noteq> [] \<or> le \<noteq> None \<Longrightarrow> if e = None then final_in_step s' else window_failed env s'"
proof (induction chain arbitrary: le s)
  case (Cons child chain)
  have n: "sg_NeedsPartials config" "sg_NeedsRaw config" using c by (simp_all add: raw_stream_def)
  show ?case
  proof (cases "ctx_Err (so_exec env) (st_ext s)")
    case (Some ce)
    then show ?thesis using Cons.prems by (auto simp: window_failed_def window_seen_def)
  next
    case ctx: None
    obtain he s1 where H: "handoff env config le s = (he, s1)" by force
    have h: "(he \<noteq> None \<longrightarrow> window_failed env s1) \<and> (he = None \<longrightarrow> window_seen s1 \<and> window_hist s1 = [])"
    proof (cases "le = None")
      case True
      then show ?thesis using H Cons.prems by (simp add: handoff_def)
    next
      case False
      then show ?thesis using H send_reset_clean[OF law n(1) Cons.prems(2)]
        by (cases "send_reset env config s"; cases "fst (send_reset env config s)")
          (auto simp: handoff_def window_failed_def window_seen_def)
    qed
    show ?thesis
    proof (cases he)
      case (Some ce)
      then show ?thesis using Cons.prems(1) ctx H h by auto
    next
      case None
      then have h1: "window_seen s1" "window_hist s1 = []" using h by simp_all
      obtain tp pa res s2 where R: "run_child env config child s1 = ((tp, pa), res, s2)" by (metis prod.exhaust)
      note o = seen.run_child_keeps[OF R h1(1)]
      show ?thesis
      proof (cases res)
        case (Inr y)
        obtain v raw rea where y: "y = (v, raw, rea)" by (cases y) auto
        show ?thesis
          by (rule finish_in_step[OF law n(2) run_child_in_step[OF c R[unfolded Inr y]] h1(2) o])
            (use Cons.prems(1) ctx H None R Inr y in simp)
      next
        case (Inl err)
        then have "err \<noteq> None" using R run_child_error by metis
        moreover have "isNativeStreamTerminal err \<and> r = None \<and> e = err \<and> s' = s2 \<or>
            stream_chain env config t0 a chain err s2 = ((r, e), s')"
          using Cons.prems(1) ctx H None R Inl by (auto split: if_splits)
        ultimately show ?thesis using Cons.IH[OF _ o] o by (auto simp: window_failed_def window_seen_def)
      qed
    qed
  qed
qed (auto simp: window_failed_def window_seen_def)

lemma stream_attemptFull_in_step:
  assumes law: "stream_lawful env" and c: "raw_stream env config" and s: "window_seen s" "window_hist s = []"
    and A: "stream_attemptFull env config t0 a s = ((r, e), s')"
  shows "if e = None then final_in_step s' else window_failed env s'"
proof (cases "sg_FallbackChain config = []")
  case True
  obtain res s1 where T: "tryOneStreamChild env config (sg_Provider config) (sg_ClientOverride config) s = (res, s1)" by force
  note o = seen.tryOneStreamChild_keeps[OF T s(1)]
  show ?thesis
  proof (cases res)
    case (Inl err)
    then have "err \<noteq> None" using T tryOneStreamChild_error by metis
    then show ?thesis using A True T Inl o by (auto simp: stream_attemptFull_def window_failed_def window_seen_def)
  next
    case (Inr y)
    obtain v raw rea where y: "y = (v, raw, rea)" by (cases y) auto
    have "sg_NeedsRaw config" using c by (simp add: raw_stream_def)
    then show ?thesis
      by (rule finish_in_step[OF law _ tryOneStreamChild_in_step[OF c T[unfolded Inr y] same_window_ext(1)] s(2) o])
        (use A True T Inr y in \<open>simp add: stream_attemptFull_def\<close>)
  qed
next
  case False
  then show ?thesis using stream_chain_in_step[OF law c _ s(1)] s(2) A by (auto simp: stream_attemptFull_def)
qed


lemma stream_run_in_step:
  assumes law: "stream_lawful env" and c: "raw_stream env config" and run: "RunStreamOrchestration env config x = (res, s)"
  shows "final_in_step s"
proof -
  let ?s0 = "stream_emitPlannedMetadata env config (stream_start x)"
  have s0: "window_hist ?s0 = []" "\<forall>v r q. SeFinal v r q \<notin> set (st_out ?s0)"
    by (auto simp: stream_emitPlannedMetadata_def stream_start_def window_hist_def Let_def split: option.splits prod.splits)
  then have w0: "window_pre env ?s0" by (simp add: window_pre_def)
  show ?thesis
  proof (cases "stream_validate env config")
    case (Some e)
    then have "s = ?s0" using run by (simp add: RunStreamOrchestration_def Let_def)
    then show ?thesis using s0(2) final_in_step_none by blast
  next
    case v: None
    obtain r err s1 where E: "Execute (stream_exec env) None (sg_RetryPolicy config)
        (stream_attemptFull env config (so_now env (st_ext ?s0))) (Some (stream_onRetry env config)) ?s0 = ((r, err), s1)"
      by (metis surj_pair)
    have I: "(err = None \<longrightarrow> final_in_step s1 \<or> (r = None \<and> window_pre env s1 \<and>
        (\<exists>p. sg_RetryPolicy config = Some p \<and> po_MaxRetries p \<ge> max_int64))) \<and> (err \<noteq> None \<longrightarrow> window_failed env s1)"
    proof (rule Execute_rule[where I = "window_pre env" and Q = "\<lambda>r. final_in_step" and F = "window_failed env", OF E w0])
      show "window_pre env w'" if "window_pre env w" "wait_timer (stream_exec env) d w = (r, w')" for d w r w'
        using that law by (auto simp: stream_exec_def window_pre_def window_hist_def stream_lawful_def split: prod.splits)
      show "window_pre env (case Some (stream_onRetry env config) of None \<Rightarrow> w | Some f \<Rightarrow> f a w)"
        if "window_failed env w" "ctx_Err (stream_exec env) w = None" for a w
      proof -
        have "window_seen w" using that by (auto simp: window_failed_def stream_exec_def)
        then show ?thesis using send_reset_clean[OF law, of config w] c
          by (cases "send_reset env config w") (auto simp: stream_onRetry_def window_pre_def raw_stream_def)
      qed
      show "window_failed env w" if "window_pre env w" for w
        using that by (auto simp: window_failed_def window_pre_def window_seen_def)
      note att = stream_attemptFull_in_step[OF law c]
      have pre: "window_seen w" "window_hist w = []" if "window_pre env w" "ctx_Err (stream_exec env) w = None" for w
        using window_pre_seen[OF that(1)] that(2) by (simp_all add: stream_exec_def)
      show "window_failed env w'" if "window_pre env w" "ctx_Err (stream_exec env) w = None"
        "stream_attemptFull env config (so_now env (st_ext ?s0)) a w = ((r, Some e), w')" for a w r e w'
        using att[OF pre[OF that(1,2)] that(3)] by simp
      show "final_in_step w'" if "window_pre env w" "ctx_Err (stream_exec env) w = None"
        "stream_attemptFull env config (so_now env (st_ext ?s0)) a w = ((r, None), w')" for a w r w'
        using att[OF pre[OF that(1,2)] that(3)] by simp
    qed
    show ?thesis
    proof (cases err)
      case None
      then have "s = s1" using run v E by (simp add: RunStreamOrchestration_def Let_def)
      then show ?thesis using I None final_in_step_none[of s1] by (auto simp: window_pre_def)
    next
      case (Some e)
      then have nf: "\<forall>v r q. SeFinal v r q \<notin> set (st_out s1)" using I by (simp add: window_failed_def)
      have "s = s1 \<or> s = snd (stream_send env (SeError (rawFromError (Some e)) e) s1)"
        using run v E Some by (auto simp: RunStreamOrchestration_def Let_def)
      then show ?thesis using nf
        by (intro final_in_step_none) (auto simp: stream_send_def split: prod.splits option.splits)
    qed
  qed
qed

section \<open>Failures after a claim\<close>

text \<open>A native callback that is contacted in \<open>s\<close> claims the stream and fails, by its own outcome or because the native
  final parser rejects the text; \<open>s'\<close> is the state after that, with the cause and the raw diagnostic.\<close>

inductive native_fails ::
    "('v, 'q, 'r, 'x) stream_env \<Rightarrow> stream_config \<Rightarrow> string \<Rightarrow> string \<Rightarrow> ('v, 'x) stream_state \<Rightarrow>
     ('v, 'x) stream_state \<Rightarrow> go_error option \<Rightarrow> string \<Rightarrow> bool"
  for env config provider client s where
  claimed: "\<not> sg_NativeOracleAttemptEnabled config \<or> so_oracle env = None \<Longrightarrow>
    sg_NativeAttemptEnabled config \<Longrightarrow> so_native env = Some f \<Longrightarrow> so_nativeParseStream env \<noteq> None \<Longrightarrow> so_nativeParseFinal env \<noteq> None \<Longrightarrow>
    f (native_stream_attempt env config provider client) (st_ext s) = (script, y) \<Longrightarrow>
    run_script (stream_sendHeartbeat env config) (EmitDelta env config) script (NewStreamCadence 0) (s\<lparr>st_ext := y\<rparr>) = (oc, acc, s') \<Longrightarrow>
    nso_Disposition oc = NativeStreamFailedAfterClaim \<Longrightarrow>
    native_fails env config provider client s s' (nso_Err oc) (if nso_RawDiagnostic oc = [] then ac_raw acc else nso_RawDiagnostic oc)"
| unparsed: "\<not> sg_NativeOracleAttemptEnabled config \<or> so_oracle env = None \<Longrightarrow>
    sg_NativeAttemptEnabled config \<Longrightarrow> so_native env = Some f \<Longrightarrow> so_nativeParseStream env \<noteq> None \<Longrightarrow> so_nativeParseFinal env = Some g \<Longrightarrow>
    f (native_stream_attempt env config provider client) (st_ext s) = (script, y) \<Longrightarrow>
    run_script (stream_sendHeartbeat env config) (EmitDelta env config) script (NewStreamCadence 0) (s\<lparr>st_ext := y\<rparr>) = (oc, acc, s1) \<Longrightarrow>
    nso_Disposition oc = NativeStreamCompleted \<Longrightarrow> g (ac_parseable acc) (st_ext s1) = (Inl parseErr, z) \<Longrightarrow>
    native_fails env config provider client s (s1\<lparr>st_ext := z\<rparr>)
      (wrapOutputParse (Some (ErrWrap ''buildrequest: failed to parse native final result: '' parseErr))) (ac_raw acc)"
| oracle_claimed: "sg_NativeOracleAttemptEnabled config \<Longrightarrow> so_oracle env = Some h \<Longrightarrow>
    \<not> sg_NativeAttemptEnabled config \<or> so_native env = None \<Longrightarrow>
    h (native_stream_attempt env config provider client) (st_ext s) = (oscript, y) \<Longrightarrow>
    run_script (stream_sendHeartbeat env config) (EmitResolved env) oscript () (s\<lparr>st_ext := y\<rparr>) = (ooc, u, s') \<Longrightarrow>
    noo_Disposition ooc = NativeStreamFailedAfterClaim \<Longrightarrow>
    native_fails env config provider client s s' (noo_Err ooc) (noo_RawDiagnostic ooc)"

lemma native_fails_child:
  assumes "native_fails env config provider client s s' cause raw" "provider \<noteq> ''aws-bedrock''"
  shows "tryOneStreamChild env config provider client s = (Inl (newNativeStreamTerminalError cause raw), s')"
  using assms
proof cases
  case (claimed f script y oc acc)
  then show ?thesis using assms(2)
    by (auto simp: tryOneStreamChild_def native_seam_def Let_def NativeStreamDeclined_def NativeStreamCompleted_def
        NativeStreamFailedAfterClaim_def)
next
  case (unparsed f g script y oc acc s1 parseErr z)
  then show ?thesis using assms(2)
    by (auto simp: tryOneStreamChild_def native_seam_def Let_def NativeStreamDeclined_def NativeStreamCompleted_def)
next
  case (oracle_claimed h oscript y ooc u)
  then show ?thesis using assms(2)
    by (auto simp: tryOneStreamChild_def oracle_seam_def NativeStreamDeclined_def NativeStreamCompleted_def
        NativeStreamFailedAfterClaim_def)
qed

definition stream_target :: "stream_config \<Rightarrow> string \<Rightarrow> string" where
  "stream_target config child = (let t = gomap_str (sg_FallbackTargets config) child in if t \<noteq> [] then t else child)"

text \<open>The chain comes to a child: the children before it failed, not by a native claim, and the handoffs between them
  went through.\<close>

inductive chain_reaches ::
    "('v, 'q, 'r, 'x) stream_env \<Rightarrow> stream_config \<Rightarrow> string list \<Rightarrow> go_error option \<Rightarrow> ('v, 'x) stream_state \<Rightarrow>
     string \<Rightarrow> ('v, 'x) stream_state \<Rightarrow> bool" for env config where
  here: "ctx_Err (so_exec env) (st_ext s) = None \<Longrightarrow> handoff env config lastErr s = (None, s1) \<Longrightarrow>
    chain_reaches env config (child # chain) lastErr s child s1"
| later: "ctx_Err (so_exec env) (st_ext s) = None \<Longrightarrow> handoff env config lastErr s = (None, s1) \<Longrightarrow>
    run_child env config c s1 = (tp, Inl err, s2) \<Longrightarrow> \<not> isNativeStreamTerminal err \<Longrightarrow>
    chain_reaches env config chain err s2 child s' \<Longrightarrow> chain_reaches env config (c # chain) lastErr s child s'"

lemma chain_terminal:
  assumes "chain_reaches env config chain le s child s1" "run_child env config child s1 = (tp, Inl err, s2)"
    "isNativeStreamTerminal err"
  shows "stream_chain env config t a chain le s = ((None, err), s2)"
  using assms
proof (induction rule: chain_reaches.induct)
  case here
  then show ?case by (cases tp) simp
next
  case (later s lastErr s1 c tp0 err0 s2 chain child s')
  then show ?case by (cases tp0) simp
qed

text \<open>The run that starts in \<open>x\<close> contacts \<open>client\<close> for \<open>provider\<close>, in the state \<open>s\<close>: in any of its attempts, as its only
  client or as a child of the chain that is not a legacy child.\<close>

definition contacts ::
    "('v, 'q, 'r, 'x) stream_env \<Rightarrow> stream_config \<Rightarrow> 'x \<Rightarrow> string \<Rightarrow> string \<Rightarrow> ('v, 'x) stream_state \<Rightarrow> bool" where
  "contacts env config x provider client s \<longleftrightarrow> stream_validate env config = None \<and>
     (\<exists>a s0 start. start = stream_emitPlannedMetadata env config (stream_start x) \<and>
        attempt_begins (stream_exec env) (sg_RetryPolicy config) (stream_attemptFull env config (so_now env (st_ext start)))
          (Some (stream_onRetry env config)) start a s0 \<and>
        (if sg_FallbackChain config = []
         then provider = sg_Provider config \<and> client = sg_ClientOverride config \<and> s = s0
         else \<exists>child. chain_reaches env config (sg_FallbackChain config) None s0 child s \<and>
           \<not> gomap_flag (sg_LegacyChildren config) child \<and> provider = gomap_str (sg_ClientProviders config) child \<and>
           client = stream_target config child))"

lemma terminal_child_ends:
  assumes c: "contacts env config x provider client s"
    and T: "tryOneStreamChild env config provider client s = (Inl (Some e), s')" "isTerminal e" "as_native_terminal e"
  shows "RunStreamOrchestration env config x =
    (None, if ctx_Err (so_exec env) (st_ext s') = None then snd (stream_send env (SeError (rawFromError (Some e)) e) s') else s')"
proof -
  let ?start = "stream_emitPlannedMetadata env config (stream_start x)"
  obtain a s0 where a: "attempt_begins (stream_exec env) (sg_RetryPolicy config)
      (stream_attemptFull env config (so_now env (st_ext ?start))) (Some (stream_onRetry env config)) ?start a s0"
    and at: "if sg_FallbackChain config = []
         then provider = sg_Provider config \<and> client = sg_ClientOverride config \<and> s = s0
         else \<exists>child. chain_reaches env config (sg_FallbackChain config) None s0 child s \<and>
           \<not> gomap_flag (sg_LegacyChildren config) child \<and> provider = gomap_str (sg_ClientProviders config) child \<and>
           client = stream_target config child"
    using c unfolding contacts_def by blast
  have "stream_attemptFull env config (so_now env (st_ext ?start)) a s0 = ((None, Some e), s')"
  proof (cases "sg_FallbackChain config = []")
    case True
    then show ?thesis using at T(1) by (simp add: stream_attemptFull_def)
  next
    case False
    then obtain child where child: "chain_reaches env config (sg_FallbackChain config) None s0 child s"
      "\<not> gomap_flag (sg_LegacyChildren config) child" "provider = gomap_str (sg_ClientProviders config) child"
      "client = stream_target config child" using at by auto
    have "run_child env config child s = ((client, ''buildrequest''), Inl (Some e), s')"
      using child T(1) by (simp add: run_child_def stream_target_def Let_def)
    from chain_terminal[OF child(1) this] show ?thesis
      using False T(3) by (simp add: stream_attemptFull_def isNativeStreamTerminal_def)
  qed
  from attempt_ends[OF a this, of None] T(2) obtain v where
    "Execute (stream_exec env) None (sg_RetryPolicy config) (stream_attemptFull env config (so_now env (st_ext ?start)))
       (Some (stream_onRetry env config)) ?start = ((v, Some e), s')" by auto
  then show ?thesis using c by (simp add: contacts_def RunStreamOrchestration_def)
qed

section \<open>Properties\<close>

text \<open>An environment in which the body of the first response breaks off after one event and that of the
  second is complete; the external state counts the requests sent.\<close>

definition demo_stream_env :: "(string, string, string, nat) stream_env" where
  "demo_stream_env = \<lparr>so_exec = demo_exec, so_gjson = demo_gjson, so_view = \<lparr>vw_text = \<lambda>e. [], vw_goAway = \<lambda>e. False\<rparr>,
     so_buildRequest = \<lambda>client x. (Inr client, x), so_buildBedrock = None,
     so_ExecuteStreamCallback = \<lambda>q x. (Inr \<lparr>rd_data = ''data:a'' @ [LF, LF],
        rd_err = (if x = 0 then Some (ErrVar ''syscall.ECONNRESET'') else None)\<rparr>, Suc x),
     so_ExecuteAWSStream = \<lambda>q x. (Inl (Err ''no''), x), so_read = \<lambda>x. x,
     so_parseStream = Some (\<lambda>t x. (Inr (Some t), x)), so_parseFinal = \<lambda>t x. (Inr (Some t), x),
     so_native = None, so_nativeParseStream = None, so_nativeParseFinal = None, so_oracle = None,
     so_legacy = None, so_send = \<lambda>x. (None, x), so_trysend = \<lambda>x. (True, x), so_partial = \<lambda>x. (Sent, x), so_now = int\<rparr>"

definition demo_stream_config :: stream_config where
  "demo_stream_config = \<lparr>sg_Provider = ''openai'', sg_RetryPolicy = Some demo_policy, sg_NeedsPartials = True, sg_NeedsRaw = True,
     sg_IncludeReasoning = False, sg_ParseThrottleInterval = 0, sg_SoftFinalParse = False, sg_FallbackChain = [],
     sg_ClientOverride = ''A'', sg_ClientProviders = [], sg_LegacyChildren = [], sg_FallbackTargets = [],
     sg_MetadataPlan = None, sg_NewMetadataResult = True, sg_NativeAttemptEnabled = False, sg_NativeOracleAttemptEnabled = False, sg_PlannedEngine = []\<rparr>"

lemma demo_stream_lawful: "stream_lawful demo_stream_env"
  by (simp add: stream_lawful_def demo_stream_env_def demo_exec_def)

text \<open>What the consumer sees of a run.\<close>

definition shown :: "'v stream_event list \<Rightarrow> string list" where
  "shown = map (\<lambda>e. case e of SeStream v r q \<Rightarrow> r | SeReset \<Rightarrow> ''reset'' | SeFinal v r q \<Rightarrow> ''final '' @ r
     | SeHeartbeat \<Rightarrow> ''heartbeat'' | SeMetadata m \<Rightarrow> ''metadata'' | SeError r e \<Rightarrow> ''error'')"

text \<open>C5: (invariant) For every environment whose context behaves as Go documents it, the events of a streaming run
  are, in this order: the planned metadata at most once and only as the first event; then heartbeats, partial
  frames and resets, where a reset stands only after a partial frame that no reset has discarded yet; then exactly
  one error or exactly one final, and nothing after it. A final is preceded by the outcome metadata whenever
  metadata is configured; the outcome names a client of the configuration with its provider and path, and a
  declared engine. Only a run whose context ended, whose configuration was rejected or whose retry count overflows
  may end without an error or a final.\<close>

theorem stream_events:
  assumes "stream_lawful env" "RunStreamOrchestration env config x = (res, s)"
  shows "stream_trace config
    (stream_validate env config \<noteq> None \<or> (\<exists>p. sg_RetryPolicy config = Some p \<and> po_MaxRetries p \<ge> max_int64))
    (stream_ended env s) (st_out s)"
  by (rule stream_run_trace[OF assms])

theorem stream_events_witness:
  "shown (st_out (snd (RunStreamOrchestration demo_stream_env demo_stream_config 0))) =
     [''heartbeat'', ''a'', ''reset'', ''heartbeat'', ''a'', ''final a''] \<and>
   stream_trace demo_stream_config False False (st_out (snd (RunStreamOrchestration demo_stream_env demo_stream_config 0)))"
proof -
  obtain res s where r: "RunStreamOrchestration demo_stream_env demo_stream_config 0 = (res, s)" by force
  have "shown (st_out (snd (RunStreamOrchestration demo_stream_env demo_stream_config 0))) =
     [''heartbeat'', ''a'', ''reset'', ''heartbeat'', ''a'', ''final a'']" by code_simp
  moreover have "stream_validate demo_stream_env demo_stream_config = None" by code_simp
  moreover have "(\<exists>p. sg_RetryPolicy demo_stream_config = Some p \<and> po_MaxRetries p \<ge> max_int64) = False"
    by (simp add: demo_stream_config_def demo_policy_def max_int64_def)
  moreover have "\<not> stream_ended demo_stream_env s" by (simp add: demo_stream_env_def demo_exec_def)
  ultimately show ?thesis using stream_events[OF demo_stream_lawful r] r by (simp only: snd_conv) simp
qed

text \<open>C6: (functional) In a streaming run for a consumer that asked for partials and raw text, with no legacy child
  and no callback that brings its own final, if no partial was dropped then the raw texts of the partials after the
  last reset, joined, are exactly the raw text of the final, and likewise the reasoning: across broken streams,
  retries and fallbacks on either transport, the consumer that follows the resets has what the final repeats.\<close>

theorem stream_partials_are_final:
  assumes "stream_lawful env" "raw_stream env config" "RunStreamOrchestration env config x = (res, s)"
    and "SeFinal v raw reasoning \<in> set (st_out s)" "st_dropped s = 0"
  shows "concat (map fst (frames_after [] (st_out s))) = raw \<and> concat (map snd (frames_after [] (st_out s))) = reasoning"
  using stream_run_in_step[OF assms(1-3)] assms(4,5) unfolding final_in_step_def window_hist_def by blast

theorem stream_partials_are_final_witness:
  "concat (map fst (frames_after [] (st_out (snd (RunStreamOrchestration demo_stream_env demo_stream_config 0))))) = ''a''"
proof -
  obtain res s where r: "RunStreamOrchestration demo_stream_env demo_stream_config 0 = (res, s)" by force
  have "SeFinal (Some ''a'') ''a'' [] \<in> set (st_out (snd (RunStreamOrchestration demo_stream_env demo_stream_config 0))) \<and>
      st_dropped (snd (RunStreamOrchestration demo_stream_env demo_stream_config 0)) = 0" by code_simp
  moreover have "raw_stream demo_stream_env demo_stream_config"
    by (simp add: raw_stream_def demo_stream_env_def demo_stream_config_def max_int64_def)
  ultimately show ?thesis
    using stream_partials_are_final[OF demo_stream_lawful _ r, of "Some ''a''" "''a''" "[]"] r by simp
qed

text \<open>C7: (safety) Once a native callback has claimed a stream and failed, the run is over. This holds of either native
  seam, in any attempt of the run and at any position of the fallback chain, for a failure that the callback reports
  and for a text that the native final parser rejects, and whatever the retry policy: there is no retry, no reset, no
  next child and no request through the other transport. The run ends in the state that the callback left, with one
  error event unless the context has ended, which carries the callback's diagnostic, or else the raw text accumulated.\<close>

theorem native_failure_ends_stream:
  assumes "contacts env config x provider client s" "provider \<noteq> ''aws-bedrock''"
    and "native_fails env config provider client s s' cause raw"
  shows "\<exists>e. newNativeStreamTerminalError cause raw = Some e \<and> (raw \<noteq> [] \<longrightarrow> rawFromError (Some e) = raw) \<and>
    RunStreamOrchestration env config x =
      (None, if ctx_Err (so_exec env) (st_ext s') = None then snd (stream_send env (SeError (rawFromError (Some e)) e) s') else s')"
proof -
  obtain e where e: "newNativeStreamTerminalError cause raw = Some e" "isTerminal e" "as_native_terminal e"
    using newNativeStreamTerminalError_terminal by blast
  have "raw \<noteq> [] \<longrightarrow> rawFromError (Some e) = raw"
    using e(1) by (auto simp: newNativeStreamTerminalError_def newRawError_def rawFromError_def Let_def)
  then show ?thesis
    using e terminal_child_ends[OF assms(1) _ e(2,3)] native_fails_child[OF assms(3,2)] by auto
qed

text \<open>A chain of a child whose stream breaks off and one that a native callback claims: the callback compares the
  ordinary request, declines the first child and fails after a claim of the second.\<close>

definition demo_claim :: "(string, nat) native_stream_fun" where
  "demo_claim att x =
     (case nsa_BuildBAMLRequest att x of
        (Inr q, x) \<Rightarrow>
          if q = ''B''
          then (NHeaders (NEmit (''b'', ''b'', []) (\<lambda>r. NDone (FailNativeStreamAfterClaim (Some (Err ''cut'')) []))), x)
          else (NDone DeclineNativeStream, x)
      | (Inl e, x) \<Rightarrow> (NDone DeclineNativeStream, x))"

definition demo_native_stream :: "(string, string, string, nat) stream_env" where
  "demo_native_stream = demo_stream_env\<lparr>so_native := Some demo_claim, so_nativeParseStream := Some (\<lambda>t x. (Inr (Some t), x)),
     so_nativeParseFinal := Some (\<lambda>t x. (Inr (Some t), x))\<rparr>"

definition demo_native_config :: stream_config where
  "demo_native_config = demo_stream_config\<lparr>sg_NativeAttemptEnabled := True, sg_FallbackChain := [''A'', ''B''],
     sg_ClientProviders := [(''A'', ''openai''), (''B'', ''openai'')]\<rparr>"

text \<open>The states of the run when the chain comes to each child.\<close>

definition demo_first :: "(string, nat) stream_state" where
  "demo_first = stream_emitPlannedMetadata demo_native_stream demo_native_config (stream_start 0)"

definition demo_broken :: "(string, nat) stream_state" where
  "demo_broken = snd (snd (run_child demo_native_stream demo_native_config ''A'' demo_first))"

definition demo_second :: "(string, nat) stream_state" where
  "demo_second = snd (handoff demo_native_stream demo_native_config (Some (Err [])) demo_broken)"

lemma demo_handoff:
  assumes "err \<noteq> None"
  shows "handoff demo_native_stream demo_native_config err demo_broken = (None, demo_second)"
proof -
  have "fst (handoff demo_native_stream demo_native_config (Some (Err [])) demo_broken) = None" by code_simp
  then have "handoff demo_native_stream demo_native_config (Some (Err [])) demo_broken = (None, demo_second)"
    unfolding demo_second_def by (metis prod.collapse)
  then show ?thesis using assms by (cases err) (simp_all add: handoff_def)
qed

lemma demo_alive [simp]:
  "ctx_Err (so_exec demo_native_stream) y = None" "so_send demo_native_stream y = (None, y)"
  by (simp_all add: demo_native_stream_def demo_stream_env_def demo_exec_def)

lemma demo_contacts: "contacts demo_native_stream demo_native_config 0 ''openai'' ''B'' demo_second"
proof -
  let ?start = "stream_emitPlannedMetadata demo_native_stream demo_native_config (stream_start 0) :: (string, nat) stream_state"
  obtain tp r where R: "run_child demo_native_stream demo_native_config ''A'' demo_first = (tp, r, demo_broken)"
    unfolding demo_broken_def by (metis prod.collapse)
  have "case fst (snd (run_child demo_native_stream demo_native_config ''A'' demo_first)) of
      Inl err \<Rightarrow> err \<noteq> None \<and> \<not> isNativeStreamTerminal err | Inr _ \<Rightarrow> False" by code_simp
  then obtain err where err: "r = Inl err" "err \<noteq> None" "\<not> isNativeStreamTerminal err"
    unfolding R by (auto split: sum.splits)
  have "chain_reaches demo_native_stream demo_native_config [''A'', ''B''] None demo_first ''B'' demo_second"
    by (rule chain_reaches.later[OF _ _ R[unfolded err(1)] err(3) chain_reaches.here[OF _ demo_handoff[OF err(2)]]])
      (simp_all add: handoff_def)
  moreover have "attempt_begins (stream_exec demo_native_stream) (sg_RetryPolicy demo_native_config)
      (stream_attemptFull demo_native_stream demo_native_config (so_now demo_native_stream (st_ext ?start)))
      (Some (stream_onRetry demo_native_stream demo_native_config)) ?start 0 ?start"
    by (rule attempt_begins.first)
      (auto simp: stream_exec_def demo_native_config_def demo_stream_config_def demo_policy_def total_attempts_def
        max_retries_def wrap_int64_def)
  moreover have "stream_validate demo_native_stream demo_native_config = None" by code_simp
  moreover have "sg_FallbackChain demo_native_config = [''A'', ''B'']" "\<not> gomap_flag (sg_LegacyChildren demo_native_config) ''B''"
    "gomap_str (sg_ClientProviders demo_native_config) ''B'' = ''openai''" "stream_target demo_native_config ''B'' = ''B''"
    by code_simp+
  ultimately show ?thesis unfolding contacts_def
    by (intro conjI exI[of _ 0] exI[of _ demo_first] exI[of _ ?start]) (auto simp: demo_first_def intro!: exI[of _ "''B''"])
qed

definition demo_claimed :: "stream_outcome \<times> accumulator \<times> (string, nat) stream_state" where
  "demo_claimed = (case demo_claim (native_stream_attempt demo_native_stream demo_native_config ''openai'' ''B'') (st_ext demo_second) of
     (script, y) \<Rightarrow> run_script (stream_sendHeartbeat demo_native_stream demo_native_config)
       (EmitDelta demo_native_stream demo_native_config) script (NewStreamCadence 0) (demo_second\<lparr>st_ext := y\<rparr>))"

theorem native_failure_ends_stream_witness:
  "shown (st_out (snd (RunStreamOrchestration demo_native_stream demo_native_config 0))) =
     [''heartbeat'', ''a'', ''reset'', ''heartbeat'', ''b'', ''error'']"
proof -
  obtain script y where S: "demo_claim (native_stream_attempt demo_native_stream demo_native_config ''openai'' ''B'')
      (st_ext demo_second) = (script, y)" by force
  obtain oc acc s' where C: "demo_claimed = (oc, acc, s')" by (metis prod_cases3)
  have d: "nso_Disposition oc = NativeStreamFailedAfterClaim \<and> ac_raw acc = ''b'' \<and>
      shown (st_out s') = [''heartbeat'', ''a'', ''reset'', ''heartbeat'', ''b'']"
  proof -
    have "nso_Disposition (fst demo_claimed) = NativeStreamFailedAfterClaim \<and> ac_raw (fst (snd demo_claimed)) = ''b'' \<and>
      shown (st_out (snd (snd demo_claimed))) = [''heartbeat'', ''a'', ''reset'', ''heartbeat'', ''b'']" by code_simp
    then show ?thesis unfolding C fst_conv snd_conv .
  qed
  have "native_fails demo_native_stream demo_native_config ''openai'' ''B'' demo_second s' (nso_Err oc)
      (if nso_RawDiagnostic oc = [] then ac_raw acc else nso_RawDiagnostic oc)"
    by (rule native_fails.claimed[where f = demo_claim, OF _ _ _ _ _ S _ conjunct1[OF d]])
      (use C S in \<open>simp_all add: demo_claimed_def demo_native_stream_def demo_native_config_def demo_stream_config_def\<close>)
  from native_failure_ends_stream[OF demo_contacts _ this] obtain e where
    "RunStreamOrchestration demo_native_stream demo_native_config 0 =
       (None, snd (stream_send demo_native_stream (SeError (rawFromError (Some e)) e) s'))" by auto
  then show ?thesis using d by (simp add: stream_send_def shown_def)
qed

end
