(* ===== verification/Response_Extract.thy ===== *)
theory Response_Extract
  imports Call_Orchestrator Sse_Extract
begin

text \<open>
  \<^verbatim>\<open>buildrequest/response_extract.go\<close> and \<^verbatim>\<open>response_extract_borrowed.go\<close>: the text and the reasoning of a
  unary response. The extractors write text into a joiner, of which there are two: one concatenates,
  the other keeps a single segment as it is. The locale \<open>lawful_joiner\<close> is what the extractors need of it.
  Then each response is described by its blocks, and the extractors are shown to join them. The JSON
  library stays a parameter, as in \<open>Sse_Extract\<close>, with \<^verbatim>\<open>gjson.Valid\<close> and the type \<^verbatim>\<open>gjson.Null\<close> added.
\<close>

record 'r gjson_lib = "'r gjson" +
  gj_Valid :: "string \<Rightarrow> bool"
  gj_is_Null :: "'r \<Rightarrow> bool"

section \<open>Joiners\<close>

record 'j parseableJoiner =
  jn_WriteString :: "string \<Rightarrow> 'j \<Rightarrow> 'j"
  jn_String :: "'j \<Rightarrow> string"

record copyingJoiner =
  cj_sb :: string

definition copyingJoiner_WriteString :: "string \<Rightarrow> copyingJoiner \<Rightarrow> copyingJoiner" where
  "copyingJoiner_WriteString s j = j\<lparr>cj_sb := cj_sb j @ s\<rparr>"

definition copyingJoiner_String :: "copyingJoiner \<Rightarrow> string" where
  "copyingJoiner_String j = cj_sb j"

record aliasJoiner =
  aj_first :: string
  aj_count :: nat
  aj_sb :: string

definition aliasJoiner_WriteString :: "string \<Rightarrow> aliasJoiner \<Rightarrow> aliasJoiner" where
  "aliasJoiner_WriteString s j0 =
     (let j = j0\<lparr>aj_count := aj_count j0 + 1\<rparr>
      in if aj_count j = 1 then j\<lparr>aj_first := s\<rparr>
         else if aj_count j = 2
         then (let j1 = j\<lparr>aj_sb := aj_sb j @ aj_first j\<rparr>; j2 = j1\<lparr>aj_first := []\<rparr>
               in j2\<lparr>aj_sb := aj_sb j2 @ s\<rparr>)
         else j\<lparr>aj_sb := aj_sb j @ s\<rparr>)"

definition aliasJoiner_String :: "aliasJoiner \<Rightarrow> string" where
  "aliasJoiner_String j = (if aj_count j = 1 then aj_first j else aj_sb j)"

definition copying :: "copyingJoiner parseableJoiner" where
  "copying = \<lparr>jn_WriteString = copyingJoiner_WriteString, jn_String = copyingJoiner_String\<rparr>"

definition aliasing :: "aliasJoiner parseableJoiner" where
  "aliasing = \<lparr>jn_WriteString = aliasJoiner_WriteString, jn_String = aliasJoiner_String\<rparr>"

definition new_copyingJoiner :: copyingJoiner where
  "new_copyingJoiner = \<lparr>cj_sb = []\<rparr>"

definition new_aliasJoiner :: aliasJoiner where
  "new_aliasJoiner = \<lparr>aj_first = [], aj_count = 0, aj_sb = []\<rparr>"

section \<open>The extractors\<close>

text \<open>The variables that the callback of a \<^verbatim>\<open>ForEach\<close> captures: the joiner, the builder of the reasoning, the
  error, and the flag \<^verbatim>\<open>foundMessage\<close> or \<^verbatim>\<open>sawAnyBlock\<close>. The callback tells whether to go on.\<close>

record 'j extraction =
  ex_pj :: 'j
  ex_reasoningSB :: string
  ex_iterErr :: "go_error option"
  ex_saw :: bool

fun gjson_ForEach :: "('r \<Rightarrow> 's \<Rightarrow> bool \<times> 's) \<Rightarrow> 'r list \<Rightarrow> 's \<Rightarrow> 's" where
  "gjson_ForEach f [] s = s"
| "gjson_ForEach f (x # xs) s = (case f x s of (continue, s') \<Rightarrow> if continue then gjson_ForEach f xs s' else s')"

definition start_extraction :: "'j \<Rightarrow> 'j extraction" where
  "start_extraction pj = \<lparr>ex_pj = pj, ex_reasoningSB = [], ex_iterErr = None, ex_saw = False\<rparr>"

definition stop_with :: "string \<Rightarrow> 'j extraction \<Rightarrow> bool \<times> 'j extraction" where
  "stop_with msg s = (False, s\<lparr>ex_iterErr := Some (Err msg)\<rparr>)"

definition write_text :: "'j parseableJoiner \<Rightarrow> string \<Rightarrow> 'j extraction \<Rightarrow> 'j extraction" where
  "write_text jn t s = s\<lparr>ex_pj := jn_WriteString jn t (ex_pj s)\<rparr>"

definition write_reasoning :: "string \<Rightarrow> 'j extraction \<Rightarrow> 'j extraction" where
  "write_reasoning t s = s\<lparr>ex_reasoningSB := ex_reasoningSB s @ t\<rparr>"

definition set_saw :: "'j extraction \<Rightarrow> 'j extraction" where
  "set_saw s = s\<lparr>ex_saw := True\<rparr>"

definition extraction_result :: "'j parseableJoiner \<Rightarrow> 'j extraction \<Rightarrow> go_error + string \<times> string \<times> string" where
  "extraction_result jn s =
     (case ex_iterErr s of Some e \<Rightarrow> Inl e
      | None \<Rightarrow> Inr (jn_String jn (ex_pj s), jn_String jn (ex_pj s), ex_reasoningSB s))"

definition refusal_text :: "'r gjson_lib \<Rightarrow> 'r \<Rightarrow> string" where
  "refusal_text gj r = (if gj_is_String gj r \<and> gj_String gj r \<noteq> [] then gj_String gj r else ''unknown reason'')"

definition openai_part ::
    "'r gjson_lib \<Rightarrow> string \<Rightarrow> 'j parseableJoiner \<Rightarrow> 'r \<Rightarrow> 'j extraction \<Rightarrow> bool \<times> 'j extraction" where
  "openai_part gj provider jn part s =
     (let partTypeField = gj_member gj part ''type''
      in if \<not> gj_IsObject gj part
         then stop_with (provider @ '': non-object element in content array (got '' @ gj_TypeName gj part @ '')'') s
         else if \<not> gj_is_String gj partTypeField \<or> gj_String gj partTypeField = []
         then stop_with (provider @ '': content array element missing required 'type' field'') s
         else if gj_String gj partTypeField = ''text''
         then (let textField = gj_member gj part ''text''
               in if \<not> gj_is_String gj textField
                  then stop_with (provider @ '': unexpected type for content part text field (got '' @
                         gj_TypeName gj textField @ '')'') s
                  else (True, write_text jn (gj_String gj textField) s))
         else if gj_String gj partTypeField = ''refusal''
         then stop_with (provider @ '': model refused request: '' @ refusal_text gj (gj_member gj part ''refusal'')) s
         else (True, s))"

definition extractOpenAIContent ::
    "'r gjson_lib \<Rightarrow> string \<Rightarrow> (string \<Rightarrow> 'r) \<Rightarrow> bool \<Rightarrow> 'j parseableJoiner \<Rightarrow> 'j \<Rightarrow> go_error + string \<times> string \<times> string" where
  "extractOpenAIContent gj provider get includeReasoning jn pj =
     (let extractReasoning =
            (if \<not> includeReasoning then []
             else let r = get ''choices.0.message.reasoning_content''
                  in if \<not> gj_is_String gj r then [] else gj_String gj r);
          refusal = get ''choices.0.message.refusal'';
          content = get ''choices.0.message.content''
      in if gj_Exists gj refusal \<and> \<not> gj_is_Null gj refusal
         then Inl (Err (provider @ '': model refused request: '' @ refusal_text gj refusal))
         else if gj_is_String gj content
         then Inr (gj_String gj content, gj_String gj content, extractReasoning)
         else if gj_IsArray gj content
         then (let s = gjson_ForEach (openai_part gj provider jn) (gj_elements gj content) (start_extraction pj)
               in case ex_iterErr s of Some e \<Rightarrow> Inl e
                  | None \<Rightarrow> Inr (jn_String jn (ex_pj s), jn_String jn (ex_pj s), extractReasoning))
         else if gj_Exists gj content \<and> gj_is_Null gj content then Inr ([], [], extractReasoning)
         else if gj_Exists gj content
         then Inl (Err (provider @ '': unexpected content type in response (got '' @ gj_TypeName gj content @ '')''))
         else Inl (Err (provider @
           '': could not extract text content from response (choices[0].message.content not found)'')))"

definition anthropic_part ::
    "'r gjson_lib \<Rightarrow> string \<Rightarrow> bool \<Rightarrow> 'j parseableJoiner \<Rightarrow> 'r \<Rightarrow> 'j extraction \<Rightarrow> bool \<times> 'j extraction" where
  "anthropic_part gj provider includeReasoning jn val s =
     (let blockTypeField = gj_member gj val ''type''
      in if \<not> gj_IsObject gj val
         then stop_with (provider @ '': non-object element in content array (got '' @ gj_TypeName gj val @ '')'') s
         else if \<not> gj_is_String gj blockTypeField \<or> gj_String gj blockTypeField = []
         then stop_with (provider @ '': content array element missing required 'type' field'') s
         else if gj_String gj blockTypeField = ''text''
         then (let textField = gj_member gj val ''text''
               in if \<not> gj_is_String gj textField
                  then stop_with (provider @ '': unexpected type for text block (got '' @ gj_TypeName gj textField @ '')'') s
                  else (True, write_text jn (gj_String gj textField) s))
         else if gj_String gj blockTypeField = ''thinking''
         then (let thinkField = gj_member gj val ''thinking''
               in if \<not> gj_is_String gj thinkField
                  then stop_with (provider @ '': unexpected type for thinking block (got '' @ gj_TypeName gj thinkField @ '')'') s
                  else (True, if includeReasoning then write_reasoning (gj_String gj thinkField) s else s))
         else (True, s))"

definition extractAnthropicContent ::
    "'r gjson_lib \<Rightarrow> string \<Rightarrow> (string \<Rightarrow> 'r) \<Rightarrow> bool \<Rightarrow> 'j parseableJoiner \<Rightarrow> 'j \<Rightarrow> go_error + string \<times> string \<times> string" where
  "extractAnthropicContent gj provider get includeReasoning jn pj =
     (let contentArray = get ''content''
      in if gj_IsArray gj contentArray
         then extraction_result jn (gjson_ForEach (anthropic_part gj provider includeReasoning jn)
                (gj_elements gj contentArray) (start_extraction pj))
         else Inl (Err (provider @ '': could not extract text content from response (content array not found)'')))"

definition gemini_part ::
    "'r gjson_lib \<Rightarrow> string \<Rightarrow> bool \<Rightarrow> 'j parseableJoiner \<Rightarrow> 'r \<Rightarrow> 'j extraction \<Rightarrow> bool \<times> 'j extraction" where
  "gemini_part gj provider includeReasoning jn part s =
     (let text = gj_member gj part ''text''
      in if \<not> gj_IsObject gj part
         then stop_with (provider @ '': non-object element in parts array (got '' @ gj_TypeName gj part @ '')'') s
         else if gj_Bool gj (gj_member gj part ''thought'')
         then (True, if includeReasoning \<and> gj_is_String gj text then write_reasoning (gj_String gj text) s else s)
         else if gj_Exists gj text
         then (if \<not> gj_is_String gj text
               then stop_with (provider @ '': unexpected type for part text field (got '' @ gj_TypeName gj text @ '')'') s
               else (True, write_text jn (gj_String gj text) s))
         else (True, s))"

definition extractGeminiContent ::
    "'r gjson_lib \<Rightarrow> string \<Rightarrow> (string \<Rightarrow> 'r) \<Rightarrow> bool \<Rightarrow> 'j parseableJoiner \<Rightarrow> 'j \<Rightarrow> go_error + string \<times> string \<times> string" where
  "extractGeminiContent gj provider get includeReasoning jn pj =
     (let parts = get ''candidates.0.content.parts''
      in if gj_IsArray gj parts
         then extraction_result jn (gjson_ForEach (gemini_part gj provider includeReasoning jn)
                (gj_elements gj parts) (start_extraction pj))
         else Inl (Err (provider @
           '': could not extract text content from response (candidates[0].content.parts not found)'')))"

definition summary_entry :: "'r gjson_lib \<Rightarrow> 'r \<Rightarrow> string \<Rightarrow> bool \<times> string" where
  "summary_entry gj entry sb =
     (let text = gj_member gj entry ''text''
      in (True, if gj_is_String gj text then sb @ gj_String gj text else sb))"

definition appendOpenAIResponsesReasoningSummary :: "'r gjson_lib \<Rightarrow> 'r \<Rightarrow> string \<Rightarrow> string" where
  "appendOpenAIResponsesReasoningSummary gj item sb =
     (let summary = gj_member gj item ''summary''
      in if \<not> gj_IsArray gj summary then sb else gjson_ForEach (summary_entry gj) (gj_elements gj summary) sb)"

definition message_entry ::
    "'r gjson_lib \<Rightarrow> string \<Rightarrow> 'j parseableJoiner \<Rightarrow> 'r \<Rightarrow> 'j extraction \<Rightarrow> bool \<times> 'j extraction" where
  "message_entry gj provider jn entry s =
     (let entryTypeField = gj_member gj entry ''type''
      in if \<not> gj_IsObject gj entry
         then stop_with (provider @ '': non-object element in message content array (got '' @ gj_TypeName gj entry @ '')'') s
         else if \<not> gj_is_String gj entryTypeField \<or> gj_String gj entryTypeField = []
         then stop_with (provider @ '': message content element missing required 'type' field'') s
         else if gj_String gj entryTypeField = ''output_text''
         then (let textField = gj_member gj entry ''text''
               in if \<not> gj_is_String gj textField
                  then stop_with (provider @ '': unexpected type for output_text text field (got '' @
                         gj_TypeName gj textField @ '')'') s
                  else (True, write_text jn (gj_String gj textField) s))
         else if gj_String gj entryTypeField = ''refusal''
         then stop_with (provider @ '': model refused request: '' @ refusal_text gj (gj_member gj entry ''refusal'')) s
         else (True, s))"

definition output_item ::
    "'r gjson_lib \<Rightarrow> string \<Rightarrow> bool \<Rightarrow> 'j parseableJoiner \<Rightarrow> 'r \<Rightarrow> 'j extraction \<Rightarrow> bool \<times> 'j extraction" where
  "output_item gj provider includeReasoning jn item s0 =
     (let itemTypeField = gj_member gj item ''type''
      in if \<not> gj_IsObject gj item
         then stop_with (provider @ '': non-object element in output array (got '' @ gj_TypeName gj item @ '')'') s0
         else if \<not> gj_is_String gj itemTypeField \<or> gj_String gj itemTypeField = []
         then stop_with (provider @ '': output array element missing required 'type' field'') s0
         else if gj_String gj itemTypeField = ''message''
         then (let s = set_saw s0; contentArray = gj_member gj item ''content''
               in if \<not> gj_IsArray gj contentArray
                  then stop_with (provider @ '': message item has no content array'') s
                  else (let s' = gjson_ForEach (message_entry gj provider jn) (gj_elements gj contentArray) s
                        in (ex_iterErr s' = None, s')))
         else if gj_String gj itemTypeField = ''reasoning''
         then (True, if includeReasoning
                     then s0\<lparr>ex_reasoningSB := appendOpenAIResponsesReasoningSummary gj item (ex_reasoningSB s0)\<rparr>
                     else s0)
         else (True, s0))"

definition extractOpenAIResponsesContent ::
    "'r gjson_lib \<Rightarrow> string \<Rightarrow> (string \<Rightarrow> 'r) \<Rightarrow> bool \<Rightarrow> 'j parseableJoiner \<Rightarrow> 'j \<Rightarrow> go_error + string \<times> string \<times> string" where
  "extractOpenAIResponsesContent gj provider get includeReasoning jn pj =
     (let output = get ''output''
      in if \<not> gj_IsArray gj output
         then Inl (Err (provider @ '': could not extract text content from response (output array not found)''))
         else (let s = gjson_ForEach (output_item gj provider includeReasoning jn) (gj_elements gj output) (start_extraction pj)
               in if ex_iterErr s = None \<and> \<not> ex_saw s
                  then Inl (Err (provider @ '': no message item found in output array''))
                  else extraction_result jn s))"

definition bedrock_block ::
    "'r gjson_lib \<Rightarrow> string \<Rightarrow> bool \<Rightarrow> 'j parseableJoiner \<Rightarrow> 'r \<Rightarrow> 'j extraction \<Rightarrow> bool \<times> 'j extraction" where
  "bedrock_block gj provider includeReasoning jn block s =
     (let textField = gj_member gj block ''text'';
          reasoningContent = gj_member gj block ''reasoningContent'';
          rt = gj_member gj reasoningContent ''reasoningText'';
          t = gj_member gj rt ''text''
      in if \<not> gj_IsObject gj block
         then stop_with (provider @ '': non-object element in content array (got '' @ gj_TypeName gj block @ '')'') s
         else if gj_Exists gj textField
         then (if \<not> gj_is_String gj textField
               then stop_with (provider @ '': unexpected type for text block (got '' @ gj_TypeName gj textField @ '')'') s
               else (True, set_saw (write_text jn (gj_String gj textField) s)))
         else if gj_IsObject gj reasoningContent
         then (True, if \<not> includeReasoning then set_saw s
                     else if gj_IsObject gj rt \<and> gj_is_String gj t then write_reasoning (gj_String gj t) (set_saw s)
                     else set_saw s)
         else (True, s))"

definition extractAWSBedrockContent ::
    "'r gjson_lib \<Rightarrow> string \<Rightarrow> (string \<Rightarrow> 'r) \<Rightarrow> bool \<Rightarrow> 'j parseableJoiner \<Rightarrow> 'j \<Rightarrow> go_error + string \<times> string \<times> string" where
  "extractAWSBedrockContent gj provider get includeReasoning jn pj =
     (let message = get ''output.message''; contentArray = gj_member gj message ''content''
      in if \<not> gj_IsObject gj message
         then Inl (Err (provider @ '': could not extract text content from response (output.message not found)''))
         else if \<not> gj_IsArray gj contentArray
         then Inl (Err (provider @ '': output.message.content is not an array''))
         else (let s = gjson_ForEach (bedrock_block gj provider includeReasoning jn) (gj_elements gj contentArray)
                         (start_extraction pj)
               in if ex_iterErr s = None \<and> \<not> ex_saw s
                  then Inl (Err (provider @ '': output.message.content array has no recognised content blocks''))
                  else extraction_result jn s))"

definition dispatchResponseContent ::
    "'r gjson_lib \<Rightarrow> string \<Rightarrow> (string \<Rightarrow> 'r) \<Rightarrow> bool \<Rightarrow> 'j parseableJoiner \<Rightarrow> 'j \<Rightarrow> go_error + string \<times> string \<times> string" where
  "dispatchResponseContent gj provider get includeReasoning jn pj =
     (if provider \<in> {''openai'', ''openai-generic'', ''azure-openai'', ''ollama'', ''openrouter''}
      then extractOpenAIContent gj provider get includeReasoning jn pj
      else if provider = ''anthropic'' then extractAnthropicContent gj provider get includeReasoning jn pj
      else if provider = ''openai-responses'' then extractOpenAIResponsesContent gj provider get includeReasoning jn pj
      else if provider = ''google-ai'' \<or> provider = ''vertex-ai''
      then extractGeminiContent gj provider get includeReasoning jn pj
      else if provider = ''aws-bedrock'' then extractAWSBedrockContent gj provider get includeReasoning jn pj
      else Inl (Err (''unsupported provider for non-streaming extraction: '' @ provider)))"

definition ExtractResponseContent :: "'r gjson_lib \<Rightarrow> extract_fun" where
  "ExtractResponseContent gj provider responseBody includeReasoning =
     (if trim_space responseBody = [] then Inl (Err (''provider '' @ provider @ '': empty response body''))
      else if \<not> gj_Valid gj responseBody
      then Inl (Err (''provider '' @ provider @ '': response body is not valid JSON''))
      else dispatchResponseContent gj provider (gj_Get gj responseBody) includeReasoning copying new_copyingJoiner)"

definition ExtractResponseContentBytes :: "'r gjson_lib \<Rightarrow> extract_fun" where
  "ExtractResponseContentBytes gj provider body includeReasoning =
     (if trim_space body = [] then Inl (Err (''provider '' @ provider @ '': empty response body''))
      else if \<not> gj_ValidBytes gj body
      then Inl (Err (''provider '' @ provider @ '': response body is not valid JSON''))
      else dispatchResponseContent gj provider (gj_GetBytes gj body) includeReasoning copying new_copyingJoiner)"

definition ExtractResponseContentBorrowed :: "'r gjson_lib \<Rightarrow> extract_fun" where
  "ExtractResponseContentBorrowed gj provider body includeReasoning =
     (if trim_space body = [] then Inl (Err (''provider '' @ provider @ '': empty response body''))
      else if \<not> gj_Valid gj body
      then Inl (Err (''provider '' @ provider @ '': response body is not valid JSON''))
      else dispatchResponseContent gj provider (gj_Get gj body) includeReasoning aliasing new_aliasJoiner)"

section \<open>The joiner does not matter\<close>

text \<open>The joiner of the specification is the text itself; \<open>seen_through\<close> is an extraction with its joiner
  replaced by the text it holds.\<close>

definition plain :: "string parseableJoiner" where
  "plain = \<lparr>jn_WriteString = \<lambda>t j. j @ t, jn_String = \<lambda>j. j\<rparr>"

definition seen_through :: "'j parseableJoiner \<Rightarrow> 'j extraction \<Rightarrow> string extraction" where
  "seen_through jn s = \<lparr>ex_pj = jn_String jn (ex_pj s), ex_reasoningSB = ex_reasoningSB s,
     ex_iterErr = ex_iterErr s, ex_saw = ex_saw s\<rparr>"

lemma seen_through_simps [simp]:
  "ex_pj (seen_through jn s) = jn_String jn (ex_pj s)"
  "ex_reasoningSB (seen_through jn s) = ex_reasoningSB s"
  "ex_iterErr (seen_through jn s) = ex_iterErr s"
  "ex_saw (seen_through jn s) = ex_saw s"
  "seen_through jn (s\<lparr>ex_reasoningSB := r\<rparr>) = (seen_through jn s)\<lparr>ex_reasoningSB := r\<rparr>"
  "seen_through jn (s\<lparr>ex_iterErr := e\<rparr>) = (seen_through jn s)\<lparr>ex_iterErr := e\<rparr>"
  "seen_through jn (s\<lparr>ex_saw := b\<rparr>) = (seen_through jn s)\<lparr>ex_saw := b\<rparr>"
  "jn_String plain j = j"
  by (simp_all add: seen_through_def plain_def)

lemmas extraction_steps = stop_with_def write_text_def write_reasoning_def set_saw_def Let_def

locale lawful_joiner =
  fixes jn :: "'j parseableJoiner" and ok :: "'j \<Rightarrow> bool" and new_joiner :: 'j
  assumes new_ok: "ok new_joiner"
    and new_String: "jn_String jn new_joiner = []"
    and write_ok: "ok j \<Longrightarrow> ok (jn_WriteString jn t j)"
    and write_String: "ok j \<Longrightarrow> jn_String jn (jn_WriteString jn t j) = jn_String jn j @ t"
begin

text \<open>A callback does the same with this joiner and with the plain one.\<close>

definition follows :: "('r \<Rightarrow> 'j extraction \<Rightarrow> bool \<times> 'j extraction) \<Rightarrow>
    ('r \<Rightarrow> string extraction \<Rightarrow> bool \<times> string extraction) \<Rightarrow> bool" where
  "follows f g \<longleftrightarrow> (\<forall>x s. ok (ex_pj s) \<longrightarrow> ok (ex_pj (snd (f x s))) \<and>
     g x (seen_through jn s) = (fst (f x s), seen_through jn (snd (f x s))))"

lemma write_seen: "ok (ex_pj s) \<Longrightarrow>
    seen_through jn (s\<lparr>ex_pj := jn_WriteString jn t (ex_pj s)\<rparr>) =
    (seen_through jn s)\<lparr>ex_pj := jn_WriteString plain t (jn_String jn (ex_pj s))\<rparr>"
  by (simp add: seen_through_def plain_def write_String)

lemmas follows_simps = follows_def extraction_steps write_seen write_ok

lemma gjson_ForEach_follows:
  assumes "follows f g" "ok (ex_pj s)"
  shows "ok (ex_pj (gjson_ForEach f xs s)) \<and> gjson_ForEach g xs (seen_through jn s) = seen_through jn (gjson_ForEach f xs s)"
  using assms(2)
proof (induction xs arbitrary: s)
  case (Cons x xs)
  obtain c s' where f: "f x s = (c, s')" by force
  have "ok (ex_pj s')" "g x (seen_through jn s) = (c, seen_through jn s')"
    using assms(1)[unfolded follows_def, rule_format, OF Cons.prems, of x] by (simp_all add: f)
  then show ?case using Cons.IH[of s'] by (simp add: f)
qed simp

lemma openai_part_follows: "follows (openai_part gj p jn) (openai_part gj p plain)"
  by (simp add: follows_simps openai_part_def)

lemma anthropic_part_follows: "follows (anthropic_part gj p r jn) (anthropic_part gj p r plain)"
  by (simp add: follows_simps anthropic_part_def)

lemma gemini_part_follows: "follows (gemini_part gj p r jn) (gemini_part gj p r plain)"
  by (simp add: follows_simps gemini_part_def)

lemma message_entry_follows: "follows (message_entry gj p jn) (message_entry gj p plain)"
  by (simp add: follows_simps message_entry_def)

lemma bedrock_block_follows: "follows (bedrock_block gj p r jn) (bedrock_block gj p r plain)"
  by (simp add: follows_simps bedrock_block_def)

text \<open>An item of a Responses answer contains a loop of its own, so its branches are composed.\<close>

lemma follows_if:
  assumes "follows f g" "follows f' g'"
  shows "follows (\<lambda>x s. if b x then f x s else f' x s) (\<lambda>x s. if b x then g x s else g' x s)"
  using assms by (simp add: follows_def)

lemma follows_stop: "follows (\<lambda>x. stop_with (m x)) (\<lambda>x. stop_with (m x))"
  by (simp add: follows_simps)

lemma follows_saw:
  assumes "follows f g"
  shows "follows (\<lambda>x s. f x (set_saw s)) (\<lambda>x s. g x (set_saw s))"
  unfolding follows_def
proof (intro allI impI)
  fix x and s :: "'j extraction"
  assume "ok (ex_pj s)"
  then have "ok (ex_pj (set_saw s))" by (simp add: set_saw_def)
  moreover have "seen_through jn (set_saw s) = set_saw (seen_through jn s)" by (simp add: set_saw_def)
  ultimately show "ok (ex_pj (snd (f x (set_saw s)))) \<and>
      g x (set_saw (seen_through jn s)) = (fst (f x (set_saw s)), seen_through jn (snd (f x (set_saw s))))"
    using assms[unfolded follows_def, rule_format, of "set_saw s" x] by simp
qed

lemma follows_loop:
  assumes "follows f g"
  shows "follows (\<lambda>x s. let s' = gjson_ForEach f (xs x) s in (ex_iterErr s' = None, s'))
    (\<lambda>x s. let s' = gjson_ForEach g (xs x) s in (ex_iterErr s' = None, s'))"
  unfolding follows_def Let_def using gjson_ForEach_follows[OF assms] by simp

lemma follows_reasoning:
  "follows (\<lambda>x s. (True, if r then s\<lparr>ex_reasoningSB := h x (ex_reasoningSB s)\<rparr> else s))
    (\<lambda>x s. (True, if r then s\<lparr>ex_reasoningSB := h x (ex_reasoningSB s)\<rparr> else s))"
  by (simp add: follows_def)

lemma follows_skip: "follows (\<lambda>x s. (True, s)) (\<lambda>x s. (True, s))"
  by (simp add: follows_def)

lemma output_item_follows: "follows (output_item gj p r jn) (output_item gj p r plain)"
proof -
  let ?msg = "\<lambda>jn item s. if \<not> gj_IsArray gj (gj_member gj item ''content'')
    then stop_with (p @ '': message item has no content array'') s
    else (let s' = gjson_ForEach (message_entry gj p jn) (gj_elements gj (gj_member gj item ''content'')) s
          in (ex_iterErr s' = None, s'))"
  have "follows (?msg jn) (?msg plain)"
    by (intro follows_if follows_stop follows_loop message_entry_follows)
  note message = follows_saw[OF this]
  show ?thesis
    unfolding output_item_def[abs_def] Let_def[of "gj_member gj _ _"] Let_def[of "set_saw _"]
    by (rule follows_if[OF follows_stop follows_if[OF follows_stop follows_if[OF message
      follows_if[OF follows_reasoning follows_skip]]]])
qed

text \<open>So the extraction does.\<close>

lemma start_seen [simp]: "seen_through jn (start_extraction new_joiner) = start_extraction []"
  "ok (ex_pj (start_extraction new_joiner))"
  by (simp_all add: seen_through_def start_extraction_def new_String new_ok)

lemma gjson_ForEach_start:
  assumes "follows f g"
  shows "gjson_ForEach g xs (start_extraction []) = seen_through jn (gjson_ForEach f xs (start_extraction new_joiner))"
  using gjson_ForEach_follows[OF assms start_seen(2)] by simp

lemma result_seen [simp]: "extraction_result plain (seen_through jn s) = extraction_result jn s"
  by (simp add: extraction_result_def split: option.split)

lemma extractors_plain:
  "extractOpenAIContent gj p get r jn new_joiner = extractOpenAIContent gj p get r plain []"
  "extractAnthropicContent gj p get r jn new_joiner = extractAnthropicContent gj p get r plain []"
  "extractGeminiContent gj p get r jn new_joiner = extractGeminiContent gj p get r plain []"
  "extractOpenAIResponsesContent gj p get r jn new_joiner = extractOpenAIResponsesContent gj p get r plain []"
  "extractAWSBedrockContent gj p get r jn new_joiner = extractAWSBedrockContent gj p get r plain []"
  unfolding extractOpenAIContent_def extractAnthropicContent_def extractGeminiContent_def
    extractOpenAIResponsesContent_def extractAWSBedrockContent_def Let_def
    gjson_ForEach_start[OF openai_part_follows] gjson_ForEach_start[OF anthropic_part_follows]
    gjson_ForEach_start[OF gemini_part_follows] gjson_ForEach_start[OF output_item_follows]
    gjson_ForEach_start[OF bedrock_block_follows]
  by (simp_all only: seen_through_simps result_seen)

lemma dispatch_plain:
  "dispatchResponseContent gj p get r jn new_joiner = dispatchResponseContent gj p get r plain []"
  unfolding dispatchResponseContent_def extractors_plain ..

end

interpretation copying_joiner: lawful_joiner copying "\<lambda>j. True" new_copyingJoiner
  by unfold_locales
    (simp_all add: copying_def new_copyingJoiner_def copyingJoiner_WriteString_def copyingJoiner_String_def)

text \<open>The builder is empty until the second segment, and from then on nothing is held back.\<close>

definition alias_ok :: "aliasJoiner \<Rightarrow> bool" where
  "alias_ok j \<longleftrightarrow> (aj_count j \<le> 1 \<longrightarrow> aj_sb j = []) \<and> (aj_count j \<noteq> 1 \<longrightarrow> aj_first j = [])"

interpretation alias_joiner: lawful_joiner aliasing alias_ok new_aliasJoiner
  by unfold_locales
    (auto simp: aliasing_def new_aliasJoiner_def aliasJoiner_WriteString_def aliasJoiner_String_def alias_ok_def Let_def)

section \<open>The blocks of a response\<close>

text \<open>The specification: what a response consists of, in the order of the response and without regard to
  who asks. \<open>Recognised\<close> marks content that makes the response count as an answer.\<close>

datatype block = TextBlock string | ReasoningBlock string | Recognised | BadBlock string

fun first_bad :: "block list \<Rightarrow> string option" where
  "first_bad [] = None"
| "first_bad (BadBlock m # bs) = Some m"
| "first_bad (b # bs) = first_bad bs"

definition texts :: "block list \<Rightarrow> string" where
  "texts bs = concat (map (\<lambda>b. case b of TextBlock t \<Rightarrow> t | _ \<Rightarrow> []) bs)"

definition thoughts :: "block list \<Rightarrow> string" where
  "thoughts bs = concat (map (\<lambda>b. case b of ReasoningBlock t \<Rightarrow> t | _ \<Rightarrow> []) bs)"

definition answer :: "bool \<Rightarrow> block list \<Rightarrow> go_error + string \<times> string \<times> string" where
  "answer includeReasoning bs =
     (case first_bad bs of Some m \<Rightarrow> Inl (Err m)
      | None \<Rightarrow> Inr (texts bs, texts bs, if includeReasoning then thoughts bs else []))"

definition string_field :: "'r gjson_lib \<Rightarrow> 'r \<Rightarrow> (string \<Rightarrow> block) \<Rightarrow> string \<Rightarrow> block" where
  "string_field gj r mk msg =
     (if gj_is_String gj r then mk (gj_String gj r) else BadBlock (msg @ gj_TypeName gj r @ '')''))"

definition optional_thought :: "'r gjson_lib \<Rightarrow> 'r \<Rightarrow> block list" where
  "optional_thought gj r = (if gj_is_String gj r then [ReasoningBlock (gj_String gj r)] else [])"

text \<open>An object tagged by its \<^verbatim>\<open>type\<close> field.\<close>

definition typed_blocks ::
    "'r gjson_lib \<Rightarrow> string \<Rightarrow> string \<Rightarrow> (string \<Rightarrow> 'r \<Rightarrow> block list) \<Rightarrow> 'r \<Rightarrow> block list" where
  "typed_blocks gj array_msg type_msg of_type x =
     (let ty = gj_member gj x ''type''
      in if \<not> gj_IsObject gj x then [BadBlock (array_msg @ gj_TypeName gj x @ '')'')]
         else if gj_is_String gj ty \<and> gj_String gj ty \<noteq> [] then of_type (gj_String gj ty) x
         else [BadBlock type_msg])"

definition content_blocks :: "'r gjson_lib \<Rightarrow> string \<Rightarrow> string \<Rightarrow> string \<Rightarrow> string \<Rightarrow> 'r \<Rightarrow> block list" where
  "content_blocks gj provider text_type text_msg ty x =
     (if ty = text_type then [string_field gj (gj_member gj x ''text'') TextBlock (provider @ text_msg)]
      else if ty = ''refusal''
      then [BadBlock (provider @ '': model refused request: '' @ refusal_text gj (gj_member gj x ''refusal''))]
      else [])"

definition openai_blocks :: "'r gjson_lib \<Rightarrow> string \<Rightarrow> 'r \<Rightarrow> block list" where
  "openai_blocks gj provider =
     typed_blocks gj (provider @ '': non-object element in content array (got '')
       (provider @ '': content array element missing required 'type' field'')
       (content_blocks gj provider ''text'' '': unexpected type for content part text field (got '')"

definition anthropic_blocks :: "'r gjson_lib \<Rightarrow> string \<Rightarrow> 'r \<Rightarrow> block list" where
  "anthropic_blocks gj provider =
     typed_blocks gj (provider @ '': non-object element in content array (got '')
       (provider @ '': content array element missing required 'type' field'')
       (\<lambda>ty x. if ty = ''text''
          then [string_field gj (gj_member gj x ''text'') TextBlock (provider @ '': unexpected type for text block (got '')]
          else if ty = ''thinking''
          then [string_field gj (gj_member gj x ''thinking'') ReasoningBlock
                  (provider @ '': unexpected type for thinking block (got '')]
          else [])"

definition gemini_blocks :: "'r gjson_lib \<Rightarrow> string \<Rightarrow> 'r \<Rightarrow> block list" where
  "gemini_blocks gj provider x =
     (if \<not> gj_IsObject gj x
      then [BadBlock (provider @ '': non-object element in parts array (got '' @ gj_TypeName gj x @ '')'')]
      else if gj_Bool gj (gj_member gj x ''thought'') then optional_thought gj (gj_member gj x ''text'')
      else if gj_Exists gj (gj_member gj x ''text'')
      then [string_field gj (gj_member gj x ''text'') TextBlock (provider @ '': unexpected type for part text field (got '')]
      else [])"

definition message_blocks :: "'r gjson_lib \<Rightarrow> string \<Rightarrow> 'r \<Rightarrow> block list" where
  "message_blocks gj provider =
     typed_blocks gj (provider @ '': non-object element in message content array (got '')
       (provider @ '': message content element missing required 'type' field'')
       (content_blocks gj provider ''output_text'' '': unexpected type for output_text text field (got '')"

definition item_blocks :: "'r gjson_lib \<Rightarrow> string \<Rightarrow> 'r \<Rightarrow> block list" where
  "item_blocks gj provider =
     typed_blocks gj (provider @ '': non-object element in output array (got '')
       (provider @ '': output array element missing required 'type' field'')
       (\<lambda>ty x. if ty = ''message''
          then Recognised # (if gj_IsArray gj (gj_member gj x ''content'')
                 then concat (map (message_blocks gj provider) (gj_elements gj (gj_member gj x ''content'')))
                 else [BadBlock (provider @ '': message item has no content array'')])
          else if ty = ''reasoning'' \<and> gj_IsArray gj (gj_member gj x ''summary'')
          then concat (map (\<lambda>e. optional_thought gj (gj_member gj e ''text'')) (gj_elements gj (gj_member gj x ''summary'')))
          else [])"

definition bedrock_blocks :: "'r gjson_lib \<Rightarrow> string \<Rightarrow> 'r \<Rightarrow> block list" where
  "bedrock_blocks gj provider x =
     (let rc = gj_member gj x ''reasoningContent''; rt = gj_member gj rc ''reasoningText''
      in if \<not> gj_IsObject gj x
         then [BadBlock (provider @ '': non-object element in content array (got '' @ gj_TypeName gj x @ '')'')]
         else if gj_Exists gj (gj_member gj x ''text'')
         then [string_field gj (gj_member gj x ''text'') TextBlock (provider @ '': unexpected type for text block (got ''), Recognised]
         else if gj_IsObject gj rc
         then Recognised # (if gj_IsObject gj rt then optional_thought gj (gj_member gj rt ''text'') else [])
         else [])"

definition required :: "string \<Rightarrow> block list \<Rightarrow> block list" where
  "required msg bs = bs @ (if Recognised \<in> set bs then [] else [BadBlock msg])"

definition openai_response :: "'r gjson_lib \<Rightarrow> string \<Rightarrow> (string \<Rightarrow> 'r) \<Rightarrow> block list" where
  "openai_response gj provider get =
     (let refusal = get ''choices.0.message.refusal''; content = get ''choices.0.message.content'';
          thought = optional_thought gj (get ''choices.0.message.reasoning_content'')
      in if gj_Exists gj refusal \<and> \<not> gj_is_Null gj refusal
         then [BadBlock (provider @ '': model refused request: '' @ refusal_text gj refusal)]
         else if gj_is_String gj content then TextBlock (gj_String gj content) # thought
         else if gj_IsArray gj content
         then concat (map (openai_blocks gj provider) (gj_elements gj content)) @ thought
         else if \<not> gj_Exists gj content
         then [BadBlock (provider @
           '': could not extract text content from response (choices[0].message.content not found)'')]
         else if gj_is_Null gj content then thought
         else [BadBlock (provider @ '': unexpected content type in response (got '' @ gj_TypeName gj content @ '')'')])"

definition array_response ::
    "'r gjson_lib \<Rightarrow> (block list \<Rightarrow> block list) \<Rightarrow> ('r \<Rightarrow> block list) \<Rightarrow> string \<Rightarrow> 'r \<Rightarrow> block list" where
  "array_response gj whole bs msg a =
     (if gj_IsArray gj a then whole (concat (map bs (gj_elements gj a))) else [BadBlock msg])"

definition bedrock_response :: "'r gjson_lib \<Rightarrow> string \<Rightarrow> 'r \<Rightarrow> block list" where
  "bedrock_response gj provider message =
     (if \<not> gj_IsObject gj message
      then [BadBlock (provider @ '': could not extract text content from response (output.message not found)'')]
      else array_response gj (required (provider @ '': output.message.content array has no recognised content blocks''))
             (bedrock_blocks gj provider) (provider @ '': output.message.content is not an array'')
             (gj_member gj message ''content''))"

definition response_blocks :: "'r gjson_lib \<Rightarrow> string \<Rightarrow> (string \<Rightarrow> 'r) \<Rightarrow> block list" where
  "response_blocks gj provider get =
     (if provider \<in> {''openai'', ''openai-generic'', ''azure-openai'', ''ollama'', ''openrouter''}
      then openai_response gj provider get
      else if provider = ''anthropic''
      then array_response gj id (anthropic_blocks gj provider)
             (provider @ '': could not extract text content from response (content array not found)'') (get ''content'')
      else if provider = ''openai-responses''
      then array_response gj (required (provider @ '': no message item found in output array'')) (item_blocks gj provider)
             (provider @ '': could not extract text content from response (output array not found)'') (get ''output'')
      else if provider = ''google-ai'' \<or> provider = ''vertex-ai''
      then array_response gj id (gemini_blocks gj provider)
             (provider @ '': could not extract text content from response (candidates[0].content.parts not found)'')
             (get ''candidates.0.content.parts'')
      else if provider = ''aws-bedrock'' then bedrock_response gj provider (get ''output.message'')
      else [BadBlock (''unsupported provider for non-streaming extraction: '' @ provider)])"

section \<open>The extractors join the blocks\<close>

fun absorb :: "bool \<Rightarrow> block list \<Rightarrow> string extraction \<Rightarrow> bool \<times> string extraction" where
  "absorb r [] s = (True, s)"
| "absorb r (TextBlock t # bs) s = absorb r bs (write_text plain t s)"
| "absorb r (ReasoningBlock t # bs) s = absorb r bs (if r then write_reasoning t s else s)"
| "absorb r (Recognised # bs) s = absorb r bs (set_saw s)"
| "absorb r (BadBlock m # bs) s = stop_with m s"

lemma absorb_append:
  "absorb r (as @ bs) s = (case absorb r as s of (continue, s') \<Rightarrow> if continue then absorb r bs s' else (False, s'))"
  by (induction r as s rule: absorb.induct) (simp_all add: stop_with_def)

lemma absorb_first_bad:
  assumes "ex_iterErr s = None"
  shows "ex_iterErr (snd (absorb r bs s)) = map_option Err (first_bad bs) \<and>
    fst (absorb r bs s) = (first_bad bs = None)"
  using assms by (induction r bs s rule: absorb.induct) (simp_all add: extraction_steps)

lemma absorb_all:
  assumes "first_bad bs = None"
  shows "snd (absorb r bs s) = s\<lparr>ex_pj := ex_pj s @ texts bs,
    ex_reasoningSB := ex_reasoningSB s @ (if r then thoughts bs else []), ex_saw := ex_saw s \<or> Recognised \<in> set bs\<rparr>"
  using assms
  by (induction r bs s rule: absorb.induct) (simp_all add: extraction_steps plain_def texts_def thoughts_def)

text \<open>A callback that absorbs the blocks of its element.\<close>

definition reads :: "bool \<Rightarrow> ('r \<Rightarrow> block list) \<Rightarrow> ('r \<Rightarrow> string extraction \<Rightarrow> bool \<times> string extraction) \<Rightarrow> bool" where
  "reads r bs f \<longleftrightarrow> (\<forall>x s. ex_iterErr s = None \<longrightarrow> f x s = absorb r (bs x) s)"

lemma gjson_ForEach_reads:
  assumes "reads r bs f" "ex_iterErr s = None"
  shows "gjson_ForEach f xs s = snd (absorb r (concat (map bs xs)) s)"
  using assms(2)
proof (induction xs arbitrary: s)
  case (Cons x xs)
  obtain c s' where a: "absorb r (bs x) s = (c, s')" by force
  have "f x s = (c, s')" using assms(1) Cons.prems a by (simp add: reads_def)
  moreover have "c \<Longrightarrow> ex_iterErr s' = None" using absorb_first_bad[OF Cons.prems, of r "bs x"] a by simp
  ultimately show ?case using Cons.IH[of s'] by (simp add: a absorb_append)
qed simp

lemma reads_parts:
  "reads r (openai_blocks gj p) (openai_part gj p plain)"
  "reads r (anthropic_blocks gj p) (anthropic_part gj p r plain)"
  "reads r (gemini_blocks gj p) (gemini_part gj p r plain)"
  "reads r (message_blocks gj p) (message_entry gj p plain)"
  "reads r (bedrock_blocks gj p) (bedrock_block gj p r plain)"
proof -
  note blocks = reads_def typed_blocks_def content_blocks_def string_field_def optional_thought_def Let_def
  show "reads r (openai_blocks gj p) (openai_part gj p plain)"
    by (simp add: blocks openai_blocks_def openai_part_def)
  show "reads r (anthropic_blocks gj p) (anthropic_part gj p r plain)"
    by (simp add: blocks anthropic_blocks_def anthropic_part_def)
  show "reads r (gemini_blocks gj p) (gemini_part gj p r plain)"
    by (simp add: blocks gemini_blocks_def gemini_part_def)
  show "reads r (message_blocks gj p) (message_entry gj p plain)"
    by (simp add: blocks message_blocks_def message_entry_def)
  show "reads r (bedrock_blocks gj p) (bedrock_block gj p r plain)"
    by (simp add: blocks bedrock_blocks_def bedrock_block_def extraction_steps)
qed

lemma absorb_thoughts:
  "absorb r (concat (map (\<lambda>e. optional_thought gj (gj_member gj e ''text'')) es)) s =
     (True, if r then s\<lparr>ex_reasoningSB := gjson_ForEach (summary_entry gj) es (ex_reasoningSB s)\<rparr> else s)"
proof (induction es arbitrary: s)
  case (Cons e es)
  then show ?case
    by (cases r) (simp_all add: absorb_append optional_thought_def[of gj "gj_member gj e ''text''"] summary_entry_def[of gj e]
        write_reasoning_def Let_def)
qed simp

lemma absorb_message:
  assumes "ex_iterErr s = None"
  shows "(let s' = gjson_ForEach (message_entry gj p plain) es s in (ex_iterErr s' = None, s')) =
    absorb r (concat (map (message_blocks gj p) es)) s"
  using absorb_first_bad[OF assms, of r "concat (map (message_blocks gj p) es)"]
  by (simp add: gjson_ForEach_reads[OF reads_parts(4)[of r] assms] Let_def prod_eq_iff)

lemma reads_item: "reads r (item_blocks gj p) (output_item gj p r plain)"
  unfolding reads_def
proof (intro allI impI)
  fix item and s :: "string extraction"
  assume "ex_iterErr s = None"
  then have "ex_iterErr (set_saw s) = None" by (simp add: set_saw_def)
  note m = absorb_message[OF this, of gj p "gj_elements gj (gj_member gj item ''content'')" r]
  have u: "appendOpenAIResponsesReasoningSummary gj item sb =
      (if gj_IsArray gj (gj_member gj item ''summary'')
       then gjson_ForEach (summary_entry gj) (gj_elements gj (gj_member gj item ''summary'')) sb else sb)" for sb
    by (simp add: appendOpenAIResponsesReasoningSummary_def Let_def)
  show "output_item gj p r plain item s = absorb r (item_blocks gj p item) s"
    unfolding output_item_def item_blocks_def typed_blocks_def Let_def[of "gj_member gj _ _"] Let_def[of "set_saw _"] m u
    by (simp add: absorb_thoughts)
qed

text \<open>The end of an extraction, and of one that needs recognised content.\<close>

lemma first_bad_append: "first_bad (as @ bs) = (case first_bad as of None \<Rightarrow> first_bad bs | Some m \<Rightarrow> Some m)"
  by (induction as rule: first_bad.induct) simp_all

lemma result_absorbed:
  "extraction_result plain (snd (absorb r bs (start_extraction []))) = answer r bs"
  using absorb_first_bad[of "start_extraction []" r bs]
  by (cases "first_bad bs") (simp_all add: extraction_result_def answer_def absorb_all start_extraction_def plain_def)

lemma saw_absorbed:
  "(if ex_iterErr (snd (absorb r bs (start_extraction []))) = None \<and> \<not> ex_saw (snd (absorb r bs (start_extraction [])))
    then Inl (Err msg) else answer r bs) = answer r (required msg bs)"
  using absorb_first_bad[of "start_extraction []" r bs]
  by (cases "first_bad bs")
    (simp_all add: answer_def required_def absorb_all start_extraction_def first_bad_append texts_def thoughts_def)

lemma optional_thought_answer:
  "answer r (TextBlock t # optional_thought gj x) = Inr (t, t, if r \<and> gj_is_String gj x then gj_String gj x else [])"
  "answer r (optional_thought gj x) = Inr ([], [], if r \<and> gj_is_String gj x then gj_String gj x else [])"
  by (simp_all add: answer_def optional_thought_def texts_def thoughts_def)

lemma openai_absorbed:
  assumes "thoughts bs = []"
  shows "(case ex_iterErr (snd (absorb r bs (start_extraction []))) of Some e \<Rightarrow> Inl e
      | None \<Rightarrow> Inr (ex_pj (snd (absorb r bs (start_extraction []))), ex_pj (snd (absorb r bs (start_extraction []))),
          if r \<and> gj_is_String gj x then gj_String gj x else [])) =
    answer r (bs @ optional_thought gj x)"
  using absorb_first_bad[of "start_extraction []" r bs] assms
  by (cases "first_bad bs")
    (simp_all add: answer_def first_bad_append absorb_all start_extraction_def optional_thought_def texts_def thoughts_def)

lemma openai_no_thoughts: "thoughts (concat (map (openai_blocks gj p) xs)) = []"
  by (induction xs)
    (simp_all add: thoughts_def openai_blocks_def typed_blocks_def content_blocks_def string_field_def Let_def)

lemma answer_bad: "answer r [BadBlock m] = Inl (Err m)"
  by (simp add: answer_def)

lemma if_not_cond: "(if \<not> b then x else y) = (if b then y else x)"
  by simp

lemma answer_array:
  "answer r (array_response gj whole bs msg a) =
     (if gj_IsArray gj a then answer r (whole (concat (map bs (gj_elements gj a)))) else Inl (Err msg))"
  by (simp add: array_response_def answer_bad)

lemma start_no_error: "ex_iterErr (start_extraction pj) = None"
  by (simp add: start_extraction_def)

lemmas loops_absorb = gjson_ForEach_reads[OF reads_parts(1) start_no_error] gjson_ForEach_reads[OF reads_parts(2) start_no_error]
  gjson_ForEach_reads[OF reads_parts(3) start_no_error] gjson_ForEach_reads[OF reads_parts(5) start_no_error]
  gjson_ForEach_reads[OF reads_item start_no_error]

lemma openai_answer: "extractOpenAIContent gj p get r plain [] = answer r (openai_response gj p get)"
proof -
  let ?bs = "concat (map (openai_blocks gj p) (gj_elements gj (get ''choices.0.message.content'')))"
  have q: "(if \<not> r then [] else let x = get ''choices.0.message.reasoning_content''
              in if \<not> gj_is_String gj x then [] else gj_String gj x) =
    (if r \<and> gj_is_String gj (get ''choices.0.message.reasoning_content'')
     then gj_String gj (get ''choices.0.message.reasoning_content'') else [])" by (simp add: Let_def)
  note array = openai_absorbed[OF openai_no_thoughts[of gj p "gj_elements gj (get ''choices.0.message.content'')"],
      of r gj "get ''choices.0.message.reasoning_content''"]
  have perm: "(if E \<and> N then a else if E then b else c) = (if \<not> E then c else if N then a else b)" for E N and a b c :: 'x
    by simp
  show ?thesis
    unfolding extractOpenAIContent_def q
    unfolding Let_def gjson_ForEach_reads[OF reads_parts(1)[of r] start_no_error] seen_through_simps(8) array openai_response_def
      if_distrib[of "answer r"] optional_thought_answer answer_bad perm ..
qed

lemma array_answers:
  "extractAnthropicContent gj p get r plain [] =
     answer r (array_response gj id (anthropic_blocks gj p)
       (p @ '': could not extract text content from response (content array not found)'') (get ''content''))"
  "extractGeminiContent gj p get r plain [] =
     answer r (array_response gj id (gemini_blocks gj p)
       (p @ '': could not extract text content from response (candidates[0].content.parts not found)'')
       (get ''candidates.0.content.parts''))"
  unfolding extractAnthropicContent_def extractGeminiContent_def Let_def loops_absorb result_absorbed answer_array id_apply
  by (rule refl)+

lemma responses_answer:
  "extractOpenAIResponsesContent gj p get r plain [] =
     answer r (array_response gj (required (p @ '': no message item found in output array'')) (item_blocks gj p)
       (p @ '': could not extract text content from response (output array not found)'') (get ''output''))"
  unfolding extractOpenAIResponsesContent_def Let_def loops_absorb result_absorbed saw_absorbed answer_array
  by (rule if_not_cond)

lemma bedrock_answer: "extractAWSBedrockContent gj p get r plain [] = answer r (bedrock_response gj p (get ''output.message''))"
  unfolding extractAWSBedrockContent_def bedrock_response_def Let_def loops_absorb result_absorbed saw_absorbed
    if_distrib[of "answer r"] answer_array answer_bad if_not_cond ..

lemma dispatch_answer: "dispatchResponseContent gj p get r plain [] = answer r (response_blocks gj p get)"
  unfolding dispatchResponseContent_def response_blocks_def openai_answer array_answers responses_answer bedrock_answer
    if_distrib[of "answer r"] answer_bad ..

section \<open>Properties\<close>

lemma ExtractResponseContent_answer:
  "ExtractResponseContent gj provider body includeReasoning =
     (if trim_space body = [] then Inl (Err (''provider '' @ provider @ '': empty response body''))
      else if \<not> gj_Valid gj body then Inl (Err (''provider '' @ provider @ '': response body is not valid JSON''))
      else answer includeReasoning (response_blocks gj provider (gj_Get gj body)))"
  unfolding ExtractResponseContent_def copying_joiner.dispatch_plain dispatch_answer ..

lemma ExtractResponseContentBorrowed_owned:
  "ExtractResponseContentBorrowed gj = ExtractResponseContent gj"
  unfolding ExtractResponseContentBorrowed_def[abs_def] ExtractResponseContent_def[abs_def]
    alias_joiner.dispatch_plain copying_joiner.dispatch_plain ..

text \<open>C10: (refinement) A unary extraction is the answer that the blocks of the response make: the error of the first bad
  block in the order of the response, or else its text blocks joined, with its reasoning blocks joined if they are
  wanted. This holds for every provider, shape of response and kind of block.\<close>

theorem response_is_its_blocks:
  "dispatchResponseContent gj provider get includeReasoning copying new_copyingJoiner =
     answer includeReasoning (response_blocks gj provider get)"
  unfolding copying_joiner.dispatch_plain dispatch_answer ..

text \<open>C11: (safety) Reasoning never reaches the text of a unary response: asking for it changes neither the text nor whether
  the extraction fails nor the error, the raw text is the parsed text, and without asking there is no reasoning.\<close>

theorem response_reasoning_isolated:
  "case ExtractResponseContent gj provider body True of
     Inl err \<Rightarrow> ExtractResponseContent gj provider body False = Inl err
   | Inr (parseable, raw, reasoning) \<Rightarrow>
       raw = parseable \<and> ExtractResponseContent gj provider body False = Inr (parseable, parseable, [])"
  unfolding ExtractResponseContent_answer answer_def
  by (simp split: option.split)

text \<open>C9: (equivalence) The lane on which a response body arrives does not matter. With the three extractors of the
  package in place, and a JSON library whose byte functions agree with its string functions, the
  orchestrator extracts the same from a borrowed, an owned and a copied body.\<close>

theorem response_lanes_agree:
  assumes "gj_ValidBytes gj = gj_Valid gj" "gj_GetBytes gj = gj_Get gj"
    and "ce_extract env = ExtractResponseContent gj"
    and "ce_extractBytes env = Some (ExtractResponseContentBytes gj)"
    and "ce_extractBorrowed env = Some (ExtractResponseContentBorrowed gj)"
    and "hr_Borrowed resp \<in> {None, Some (hr_Body resp)}" "hr_Bytes resp \<in> {None, Some (hr_Body resp)}"
  shows "extract_dispatch env provider resp includeReasoning =
    ExtractResponseContent gj provider (hr_Body resp) includeReasoning"
proof -
  have "ExtractResponseContentBytes gj = ExtractResponseContent gj"
    by (intro ext) (simp add: ExtractResponseContentBytes_def ExtractResponseContent_def assms(1,2))
  then show ?thesis using assms(3-)
    by (auto simp: extract_dispatch_def ExtractResponseContentBorrowed_owned)
qed

text \<open>A small JSON library with the values that the example needs.\<close>

datatype demo_json = DMissing | DStr string | DObj "(string \<times> demo_json) list" | DArr "demo_json list"

fun demo_member :: "demo_json \<Rightarrow> string \<Rightarrow> demo_json" where
  "demo_member (DObj fs) k = (case map_of fs k of Some v \<Rightarrow> v | None \<Rightarrow> DMissing)"
| "demo_member j k = DMissing"

definition demo_answer :: demo_json where
  "demo_answer = DObj [(''content'', DArr
     [DObj [(''type'', DStr ''thinking''), (''thinking'', DStr ''hm'')],
      DObj [(''type'', DStr ''text''), (''text'', DStr ''a'')],
      DObj [(''type'', DStr ''text''), (''text'', DStr ''b'')]])]"

definition demo_lib :: "demo_json gjson_lib" where
  "demo_lib = \<lparr>gj_Get = \<lambda>body. demo_member demo_answer, gj_GetBytes = \<lambda>body. demo_member demo_answer,
     gj_is_String = \<lambda>j. (case j of DStr s \<Rightarrow> True | _ \<Rightarrow> False), gj_String = \<lambda>j. (case j of DStr s \<Rightarrow> s | _ \<Rightarrow> []),
     gj_Bool = \<lambda>j. False, gj_IsArray = \<lambda>j. (case j of DArr js \<Rightarrow> True | _ \<Rightarrow> False),
     gj_elements = \<lambda>j. (case j of DArr js \<Rightarrow> js | _ \<Rightarrow> []), gj_member = demo_member,
     gj_ValidBytes = \<lambda>t. True, gj_IsObject = \<lambda>j. (case j of DObj fs \<Rightarrow> True | _ \<Rightarrow> False),
     gj_Exists = \<lambda>j. j \<noteq> DMissing, gj_TypeName = \<lambda>j. ''JSON'', gj_Valid = \<lambda>t. True, gj_is_Null = \<lambda>j. j = DMissing\<rparr>"

definition demo_lib_env :: "(string, string, nat) call_env" where
  "demo_lib_env = demo_call_env\<lparr>ce_extractBorrowed := Some (ExtractResponseContentBorrowed demo_lib),
     ce_extractBytes := Some (ExtractResponseContentBytes demo_lib), ce_extract := ExtractResponseContent demo_lib\<rparr>"

theorem response_lanes_agree_witness:
  "extract_dispatch demo_lib_env ''anthropic''
     \<lparr>hr_StatusCode = 200, hr_Borrowed = Some ''{}'', hr_Bytes = None, hr_Body = ''{}''\<rparr> True =
   Inr (''ab'', ''ab'', ''hm'')"
proof -
  have "extract_dispatch demo_lib_env ''anthropic''
     \<lparr>hr_StatusCode = 200, hr_Borrowed = Some ''{}'', hr_Bytes = None, hr_Body = ''{}''\<rparr> True =
    ExtractResponseContent demo_lib ''anthropic'' ''{}'' True"
    by (subst response_lanes_agree[of demo_lib]) (simp_all add: demo_lib_def demo_lib_env_def)
  also have "\<dots> = Inr (''ab'', ''ab'', ''hm'')" by code_simp
  finally show ?thesis .
qed

end
