(* ===== verification/Borrowed_Response.thy ===== *)
theory Borrowed_Response
  imports Call_Orchestrator
begin

text \<open>
  The lifetime of a response body: the borrow contract of \<^verbatim>\<open>Response\<close> in \<^verbatim>\<open>llmhttp/llmhttp.go\<close>, and the attempt of
  \<^verbatim>\<open>call_orchestrator.go\<close> that keeps it. Memory is explicit here: a string or byte slice is a window into a
  buffer, and a released buffer goes back to a pool, whose owner may overwrite it. The orchestrator's
  model in \<open>Call_Orchestrator\<close> works on the contents of strings; this theory shows that it may, because nothing
  that leaves an attempt is a window into released storage.
\<close>

section \<open>Memory\<close>

text \<open>A nil slice and the empty string are \<^const>\<open>None\<close>. The pool is the sequence of the buffers that were
  returned, the last one first.\<close>

record slice =
  sl_buf :: nat
  sl_off :: nat
  sl_len :: nat

type_synonym window = "slice option"

record memory =
  mm_bytes :: "nat \<Rightarrow> string"
  mm_Cap :: "nat \<Rightarrow> int"
  mm_next :: nat
  mm_pool :: "nat list"

definition read_window :: "memory \<Rightarrow> window \<Rightarrow> string" where
  "read_window m v =
     (case v of None \<Rightarrow> [] | Some s \<Rightarrow> take (sl_len s) (drop (sl_off s) (mm_bytes m (sl_buf s))))"

definition alloc :: "string \<Rightarrow> memory \<Rightarrow> window \<times> memory" where
  "alloc t m = (Some \<lparr>sl_buf = mm_next m, sl_off = 0, sl_len = length t\<rparr>,
     m\<lparr>mm_bytes := (mm_bytes m)(mm_next m := t), mm_next := Suc (mm_next m)\<rparr>)"

definition strings_Clone :: "window \<Rightarrow> memory \<Rightarrow> window \<times> memory" where
  "strings_Clone v m =
     (case v of None \<Rightarrow> (None, m)
      | Some s \<Rightarrow> if sl_len s = 0 then (None, m) else alloc (read_window m v) m)"

section \<open>Responses\<close>

text \<open>The pooled storage of a response is given by the buffer behind it.\<close>

record response =
  rp_StatusCode :: int
  rp_Headers :: "string list gomap"
  rp_body :: window
  rp_exposeBytes :: bool
  rp_fastResp :: "nat option"
  rp_drainBuf :: "nat option"
  rp_released :: bool

definition borrowed :: "response option \<Rightarrow> bool" where
  "borrowed r = (case r of None \<Rightarrow> False | Some r \<Rightarrow> rp_fastResp r \<noteq> None \<or> rp_drainBuf r \<noteq> None)"

definition bytesToBodyString :: "window \<Rightarrow> window" where
  "bytesToBodyString body = (case body of None \<Rightarrow> None | Some s \<Rightarrow> if sl_len s = 0 then None else Some s)"

definition BodyString :: "response option \<Rightarrow> window" where
  "BodyString r = (case r of None \<Rightarrow> None | Some r \<Rightarrow> bytesToBodyString (rp_body r))"

definition BodyBytes :: "response option \<Rightarrow> window" where
  "BodyBytes r = (case r of None \<Rightarrow> None | Some r \<Rightarrow> if \<not> rp_exposeBytes r then None else rp_body r)"

definition BorrowedBytes :: "response option \<Rightarrow> window" where
  "BorrowedBytes r = (case r of None \<Rightarrow> None | Some r' \<Rightarrow> if \<not> borrowed r then None else rp_body r')"

text \<open>The build tag \<^verbatim>\<open>llmhttp_debug\<close> is the flag \<open>dbg\<close>: with it, released bytes are overwritten.\<close>

definition poisonByte :: char where "poisonByte = CHR 0xDE"

definition poisonReleasedBody :: "bool \<Rightarrow> window \<Rightarrow> memory \<Rightarrow> memory" where
  "poisonReleasedBody dbg b m =
     (case b of
        Some s \<Rightarrow>
          (if dbg
           then (let t = mm_bytes m (sl_buf s)
                 in m\<lparr>mm_bytes := (mm_bytes m)(sl_buf s :=
                        take (sl_off s) t @ replicate (sl_len s) poisonByte @ drop (sl_off s + sl_len s) t)\<rparr>)
           else m)
      | None \<Rightarrow> m)"

definition ReleaseResponse :: "nat \<Rightarrow> memory \<Rightarrow> memory" where
  "ReleaseResponse b m = m\<lparr>mm_pool := b # mm_pool m\<rparr>"

definition maxPooledFastBody :: int where "maxPooledFastBody = 1048576"

definition returnFastBodyBuf :: "nat option \<Rightarrow> memory \<Rightarrow> memory" where
  "returnFastBodyBuf buf m =
     (case buf of
        Some b \<Rightarrow> if mm_Cap m b \<le> maxPooledFastBody then m\<lparr>mm_pool := b # mm_pool m\<rparr> else m
      | None \<Rightarrow> m)"

definition Release :: "bool \<Rightarrow> response option \<Rightarrow> memory \<Rightarrow> response option \<times> memory" where
  "Release dbg r0 m =
     (case r0 of
        None \<Rightarrow> (None, m)
      | Some r \<Rightarrow>
          if rp_released r then (r0, m)
          else (let r = r\<lparr>rp_released := True\<rparr>
                in if \<not> borrowed (Some r) then (Some r, m)
                   else (let m = poisonReleasedBody dbg (rp_body r) m;
                             r = r\<lparr>rp_body := None\<rparr>;
                             (r, m) = (case rp_fastResp r of
                                 Some b \<Rightarrow> (r\<lparr>rp_fastResp := None\<rparr>, ReleaseResponse b m)
                               | None \<Rightarrow> (r, m));
                             (r, m) = (case rp_drainBuf r of
                                 Some b \<Rightarrow> (r\<lparr>rp_drainBuf := None\<rparr>, returnFastBodyBuf (Some b) m)
                               | None \<Rightarrow> (r, m))
                         in (Some r, m))))"

definition Close :: "bool \<Rightarrow> response option \<Rightarrow> memory \<Rightarrow> go_error option \<times> response option \<times> memory" where
  "Close dbg r m = (case Release dbg r m of (r', m') \<Rightarrow> (None, r', m'))"

text \<open>The owned copy: the new response, the old one after its release, and the memory.\<close>

definition own :: "bool \<Rightarrow> response \<Rightarrow> memory \<Rightarrow> response \<times> response option \<times> memory" where
  "own dbg r m =
     (if \<not> borrowed (Some r) then (r, Some r, m)
      else (case alloc (read_window m (rp_body r)) m of (owned, m1) \<Rightarrow>
              (case Release dbg (Some r) m1 of (r', m2) \<Rightarrow>
                 (\<lparr>rp_StatusCode = rp_StatusCode r, rp_Headers = rp_Headers r, rp_body = owned,
                   rp_exposeBytes = rp_exposeBytes r, rp_fastResp = None, rp_drainBuf = None, rp_released = False\<rparr>,
                  r', m2))))"

section \<open>The attempt on memory\<close>

text \<open>The JSON library returns a text of a body as a window into the body or as a copy of its own. Which,
  is up to the library: \<open>found body t\<close> is the offset of the text that it returns as a window.\<close>

definition place :: "(string \<Rightarrow> string \<Rightarrow> nat option) \<Rightarrow> window \<Rightarrow> string \<Rightarrow> memory \<Rightarrow> window \<times> memory" where
  "place found body t m =
     (case (body, found (read_window m body) t) of
        (Some s, Some i) \<Rightarrow>
          (let v = Some \<lparr>sl_buf = sl_buf s, sl_off = sl_off s + i, sl_len = length t\<rparr>
           in if read_window m v = t then (v, m) else alloc t m)
      | _ \<Rightarrow> alloc t m)"

type_synonym window_extract = "string \<Rightarrow> window \<Rightarrow> bool \<Rightarrow> memory \<Rightarrow> (go_error + window \<times> window \<times> window) \<times> memory"

definition place_extract :: "(string \<Rightarrow> string \<Rightarrow> nat option) \<Rightarrow> extract_fun \<Rightarrow> window_extract" where
  "place_extract found f provider body includeReasoning m =
     (case f provider (read_window m body) includeReasoning of
        Inl e \<Rightarrow> (Inl e, m)
      | Inr (parseable, raw, reasoning) \<Rightarrow>
          (case place found body parseable m of (p, m1) \<Rightarrow>
             (case place found body raw m1 of (w, m2) \<Rightarrow>
                (case place found body reasoning m2 of (q, m3) \<Rightarrow> (Inr (p, w, q), m3)))))"

definition window_responseBodyClone :: "response \<Rightarrow> memory \<Rightarrow> window \<times> memory" where
  "window_responseBodyClone resp m =
     (case BorrowedBytes (Some resp) of
        Some bb \<Rightarrow> alloc (read_window m (Some bb)) m
      | None \<Rightarrow>
          (case BodyBytes (Some resp) of
             Some rb \<Rightarrow> alloc (read_window m (Some rb)) m
           | None \<Rightarrow> alloc (read_window m (BodyString (Some resp))) m))"

definition window_extract_dispatch ::
    "(string \<Rightarrow> string \<Rightarrow> nat option) \<Rightarrow> ('v, 'q, 'x) call_env \<Rightarrow> string \<Rightarrow> response \<Rightarrow> bool \<Rightarrow> memory \<Rightarrow>
     (go_error + window \<times> window \<times> window) \<times> memory" where
  "window_extract_dispatch found env provider resp includeReasoning m =
     (case (BorrowedBytes (Some resp), ce_extractBorrowed env) of
        (Some bb, Some f) \<Rightarrow> place_extract found f provider (Some bb) includeReasoning m
      | _ \<Rightarrow>
          (case (BodyBytes (Some resp), ce_extractBytes env) of
             (Some rb, Some f) \<Rightarrow> place_extract found f provider (Some rb) includeReasoning m
           | _ \<Rightarrow> place_extract found (ce_extract env) provider (BodyString (Some resp)) includeReasoning m))"

text \<open>What leaves the attempt: an error with its raw text, or a result with raw text and reasoning.\<close>

datatype 'v escaped =
    Failed "go_error option" window
  | Served "'v option" window window

definition window_extracted ::
    "(string \<Rightarrow> string \<Rightarrow> nat option) \<Rightarrow> ('v, 'q, 'x) call_env \<Rightarrow> call_config \<Rightarrow> string \<Rightarrow> response \<Rightarrow> 'x \<Rightarrow> memory \<Rightarrow>
     'v escaped \<times> 'x \<times> memory" where
  "window_extracted found env config provider resp x m =
     (case window_extract_dispatch found env provider resp (cc_IncludeReasoning config) m of
        (Inl extractErr, m1) \<Rightarrow>
          (case strings_Clone (BodyString (Some resp)) m1 of (body, m2) \<Rightarrow>
             (Failed (Some (ErrWrap ''buildrequest: failed to extract response content: '' extractErr)) body, x, m2))
      | (Inr (parseable, raw, reasoning), m1) \<Rightarrow>
          (case ce_parseFinal env (read_window m1 parseable) x of
             (Inl parseErr, x1) \<Rightarrow>
               (case strings_Clone raw m1 of (rawOut, m2) \<Rightarrow>
                  (Failed (wrapOutputParse (Some (ErrWrap ''buildrequest: failed to parse final result: '' parseErr)))
                     rawOut, x1, m2))
           | (Inr finalResult, x1) \<Rightarrow>
               (if cc_NeedsRaw config
                then (case strings_Clone raw m1 of (rawOut, m2) \<Rightarrow>
                        (case strings_Clone reasoning m2 of (reasoningOut, m3) \<Rightarrow>
                           (Served finalResult rawOut reasoningOut, x1, m3)))
                else (Served finalResult None None, x1, m1))))"

definition window_attempt ::
    "(string \<Rightarrow> string \<Rightarrow> nat option) \<Rightarrow> bool \<Rightarrow> ('v, 'q, 'x) call_env \<Rightarrow> call_config \<Rightarrow> string \<Rightarrow> bool \<Rightarrow> response \<Rightarrow>
     'x \<Rightarrow> memory \<Rightarrow> 'v escaped \<times> 'x \<times> memory" where
  "window_attempt found dbg env config provider shadow resp x m =
     (let (x1, m1) = (if shadow
            then (case window_responseBodyClone resp m of (body, m1) \<Rightarrow>
                    (ce_shadow env (rp_StatusCode resp) (read_window m1 body) x, m1))
            else (x, m));
          (escaped, x2, m2) = window_extracted found env config provider resp x1 m1;
          (_, m3) = Release dbg (Some resp) m2
      in (escaped, x2, m3))"

text \<open>What the escaped value reads as in a later memory.\<close>

definition observed :: "memory \<Rightarrow> string \<Rightarrow> 'v escaped \<Rightarrow> go_error option + 'v call_result" where
  "observed m provider e =
     (case e of
        Failed err raw \<Rightarrow> Inl (newRawError err (read_window m raw))
      | Served finalResult raw reasoning \<Rightarrow>
          Inr \<lparr>cr_final = finalResult, cr_raw = read_window m raw, cr_reasoning = read_window m reasoning,
               cr_winnerClient = [], cr_winnerProvider = provider, cr_winnerPath = ''buildrequest'', cr_winnerEngine = []\<rparr>)"

section \<open>Windows that stay readable\<close>

text \<open>Memory only grew; a window into memory; a window made since.\<close>

definition extends :: "memory \<Rightarrow> memory \<Rightarrow> bool" where
  "extends m m' \<longleftrightarrow> mm_next m \<le> mm_next m' \<and> mm_pool m' = mm_pool m \<and> mm_Cap m' = mm_Cap m \<and>
     (\<forall>b < mm_next m. mm_bytes m' b = mm_bytes m b)"

definition valid :: "memory \<Rightarrow> window \<Rightarrow> bool" where
  "valid m v \<longleftrightarrow> (case v of None \<Rightarrow> True | Some s \<Rightarrow> sl_buf s < mm_next m)"

definition fresh_since :: "memory \<Rightarrow> window \<Rightarrow> bool" where
  "fresh_since m v \<longleftrightarrow> (case v of None \<Rightarrow> True | Some s \<Rightarrow> mm_next m \<le> sl_buf s)"

lemma extends_refl [simp]: "extends m m"
  by (simp add: extends_def)

lemma extends_trans [trans]: "extends a b \<Longrightarrow> extends b c \<Longrightarrow> extends a c"
  by (auto simp: extends_def)

lemma valid_extends: "valid m v \<Longrightarrow> extends m m' \<Longrightarrow> valid m' v"
  by (auto simp: valid_def extends_def split: option.splits)

lemma read_extends: "valid m v \<Longrightarrow> extends m m' \<Longrightarrow> read_window m' v = read_window m v"
  by (auto simp: valid_def extends_def read_window_def split: option.splits)

lemma fresh_extends: "fresh_since m' v \<Longrightarrow> extends m m' \<Longrightarrow> fresh_since m v"
  by (auto simp: fresh_since_def extends_def split: option.splits)

lemma None_window [simp]: "valid m None" "fresh_since m None" "read_window m None = []"
  by (simp_all add: valid_def fresh_since_def read_window_def)

lemma alloc_window:
  assumes "alloc t m = (v, m')"
  shows "extends m m'" "valid m' v" "fresh_since m v" "read_window m' v = t"
  using assms by (auto simp: alloc_def extends_def valid_def fresh_since_def read_window_def)

lemma Clone_window:
  assumes "strings_Clone v m = (w, m')"
  shows "extends m m'" "valid m' w" "fresh_since m w" "read_window m' w = read_window m v"
proof -
  have "w = None \<and> m' = m \<and> read_window m v = [] \<or> alloc (read_window m v) m = (w, m')"
    using assms by (auto simp: strings_Clone_def read_window_def split: option.splits if_splits)
  then show "extends m m'" "valid m' w" "fresh_since m w" "read_window m' w = read_window m v"
    by (auto dest: alloc_window)
qed

lemma place_window:
  assumes "place found body t m = (v, m')" "valid m body"
  shows "extends m m'" "valid m' v" "read_window m' v = t"
proof -
  have "m' = m \<and> valid m v \<and> read_window m v = t \<or> alloc t m = (v, m')"
  proof (cases "\<exists>s i. body = Some s \<and> found (read_window m body) t = Some i \<and>
      read_window m (Some \<lparr>sl_buf = sl_buf s, sl_off = sl_off s + i, sl_len = length t\<rparr>) = t")
    case True
    then obtain s i where "body = Some s" "found (read_window m body) t = Some i"
      "read_window m (Some \<lparr>sl_buf = sl_buf s, sl_off = sl_off s + i, sl_len = length t\<rparr>) = t" by blast
    moreover from this have "v = Some \<lparr>sl_buf = sl_buf s, sl_off = sl_off s + i, sl_len = length t\<rparr>" "m' = m"
      using assms(1) by (simp_all add: place_def)
    ultimately show ?thesis using assms(2) by (simp add: valid_def)
  next
    case False
    then show ?thesis using assms(1) by (auto simp: place_def Let_def split: option.splits)
  qed
  then show "extends m m'" "valid m' v" "read_window m' v = t" by (auto dest: alloc_window)
qed

text \<open>Windows with the contents of the extracted strings.\<close>

definition reads_as ::
    "memory \<Rightarrow> go_error + window \<times> window \<times> window \<Rightarrow> go_error + string \<times> string \<times> string \<Rightarrow> bool" where
  "reads_as m res val \<longleftrightarrow>
     (case res of Inl e \<Rightarrow> val = Inl e
      | Inr (a, b, c) \<Rightarrow> valid m a \<and> valid m b \<and> valid m c \<and>
          val = Inr (read_window m a, read_window m b, read_window m c))"

lemma place_extract_window:
  assumes "place_extract found f provider body r m = (res, m')" "valid m body"
  shows "extends m m' \<and> reads_as m' res (f provider (read_window m body) r)"
proof (cases "f provider (read_window m body) r")
  case (Inl e)
  then show ?thesis using assms(1) by (auto simp: place_extract_def reads_as_def)
next
  case (Inr t)
  obtain t1 t2 t3 where t: "t = (t1, t2, t3)" by (metis prod_cases3)
  obtain a m1 where a: "place found body t1 m = (a, m1)" by force
  obtain b m2 where b: "place found body t2 m1 = (b, m2)" by force
  obtain c m3 where c: "place found body t3 m2 = (c, m3)" by force
  have res: "res = Inr (a, b, c)" "m' = m3" using assms(1) Inr t a b c by (auto simp: place_extract_def)
  note pa = place_window[OF a assms(2)]
  note pb = place_window[OF b valid_extends[OF assms(2) pa(1)]]
  note e2 = extends_trans[OF pa(1) pb(1)]
  note pc = place_window[OF c valid_extends[OF assms(2) e2]]
  note e13 = extends_trans[OF pb(1) pc(1)]
  show ?thesis
    using Inr t res extends_trans[OF e2 pc(1)] pa(2,3) pb(2,3) pc
      valid_extends[OF pa(2) e13] read_extends[OF pa(2) e13] valid_extends[OF pb(2) pc(1)] read_extends[OF pb(2) pc(1)]
    by (simp add: reads_as_def)
qed

text \<open>The response as the orchestrator's model sees it, and the rest of its attempt.\<close>

definition contents :: "memory \<Rightarrow> response \<Rightarrow> http_response" where
  "contents m resp = \<lparr>hr_StatusCode = rp_StatusCode resp,
     hr_Borrowed = map_option (\<lambda>s. read_window m (Some s)) (BorrowedBytes (Some resp)),
     hr_Bytes = map_option (\<lambda>s. read_window m (Some s)) (BodyBytes (Some resp)),
     hr_Body = read_window m (BodyString (Some resp))\<rparr>"

definition wf_response :: "memory \<Rightarrow> response \<Rightarrow> bool" where
  "wf_response m resp \<longleftrightarrow> valid m (rp_body resp) \<and> (\<forall>b. rp_fastResp resp = Some b \<or> rp_drainBuf resp = Some b \<longrightarrow> b < mm_next m) \<and>
     (\<forall>b \<in> set (mm_pool m). b < mm_next m)"

lemma wf_accessors:
  assumes "valid m (rp_body resp)"
  shows "valid m (BodyString (Some resp))" "valid m (BodyBytes (Some resp))" "valid m (BorrowedBytes (Some resp))"
  using assms by (auto simp: BodyString_def bytesToBodyString_def BodyBytes_def BorrowedBytes_def valid_def split: option.splits)

lemma dispatch_window:
  assumes "window_extract_dispatch found env provider resp r m = (res, m')" "valid m (rp_body resp)"
  shows "extends m m' \<and> reads_as m' res (extract_dispatch env provider (contents m resp) r)"
  using wf_accessors[OF assms(2)] assms(1)
  by (cases "BorrowedBytes (Some resp)"; cases "ce_extractBorrowed env"; cases "BodyBytes (Some resp)"; cases "ce_extractBytes env")
    (auto simp: window_extract_dispatch_def extract_dispatch_def contents_def dest: place_extract_window)

lemma clone_contents:
  assumes "window_responseBodyClone resp m = (v, m')"
  shows "extends m m' \<and> read_window m' v = responseBodyClone (contents m resp)"
  using assms
  by (auto simp: window_responseBodyClone_def responseBodyClone_def contents_def split: option.splits dest: alloc_window)

section \<open>The attempt follows its value model\<close>

definition after_response ::
    "('v, 'q, 'x) call_env \<Rightarrow> call_config \<Rightarrow> string \<Rightarrow> http_response \<Rightarrow> 'x \<Rightarrow> (go_error option + 'v call_result) \<times> 'x" where
  "after_response env config provider resp x =
     (case extract_dispatch env provider resp (cc_IncludeReasoning config) of
        Inl extractErr \<Rightarrow>
          (Inl (newRawError (Some (ErrWrap ''buildrequest: failed to extract response content: '' extractErr)) (hr_Body resp)), x)
      | Inr (parseable, raw, reasoning) \<Rightarrow>
          (case ce_parseFinal env parseable x of
             (Inl parseErr, x1) \<Rightarrow>
               (Inl (newRawError (wrapOutputParse (Some (ErrWrap ''buildrequest: failed to parse final result: '' parseErr))) raw), x1)
           | (Inr finalResult, x1) \<Rightarrow>
               (Inr \<lparr>cr_final = finalResult, cr_raw = (if cc_NeedsRaw config then raw else []),
                  cr_reasoning = (if cc_NeedsRaw config then reasoning else []), cr_winnerClient = [],
                  cr_winnerProvider = provider, cr_winnerPath = ''buildrequest'', cr_winnerEngine = []\<rparr>, x1)))"

lemma baml_attempt_served:
  assumes "ce_buildRequest env clientOverride (cl_ext s) = (Inr req, x1)" "ce_execute env req x1 = (Inr resp, hb, x2)"
    and "s1 = with_heartbeats env config hb x2 s"
    and "x3 = (if shadow then ce_shadow env (hr_StatusCode resp) (responseBodyClone resp) (cl_ext s1) else cl_ext s1)"
    and "after_response env config provider resp x3 = (res, x4)"
  shows "baml_attempt env config provider clientOverride shadow s = (res, s1\<lparr>cl_ext := x4\<rparr>)"
  using assms
  by (cases shadow)
    (auto simp: baml_attempt_def after_response_def runResponseShadow_def Let_def split: sum.splits prod.splits)

text \<open>Every window of an escaped value was made after the given memory.\<close>

definition escaped_windows :: "'v escaped \<Rightarrow> window set" where
  "escaped_windows e = (case e of Failed err raw \<Rightarrow> {raw} | Served v raw reasoning \<Rightarrow> {raw, reasoning})"

lemma observed_cong:
  assumes "\<And>v. v \<in> escaped_windows e \<Longrightarrow> read_window m' v = read_window m v"
  shows "observed m' provider e = observed m provider e"
  using assms by (cases e) (simp_all add: observed_def escaped_windows_def)

lemma extracted_window:
  assumes "window_extracted found env config provider resp x m = (e, x', m')" "valid m (rp_body resp)"
  shows "extends m m' \<and> (\<forall>v \<in> escaped_windows e. valid m' v \<and> fresh_since m v) \<and>
    after_response env config provider (contents m resp) x = (observed m' provider e, x')"
proof -
  obtain res m1 where d: "window_extract_dispatch found env provider resp (cc_IncludeReasoning config) m = (res, m1)" by force
  note dw = dispatch_window[OF d assms(2)]
  then have ex: "extends m m1" and ra: "reads_as m1 res (extract_dispatch env provider (contents m resp) (cc_IncludeReasoning config))"
    by blast+
  have fresh: "extends m m2 \<and> valid m2 w \<and> fresh_since m w \<and> read_window m2 w = read_window m1 v"
    if "strings_Clone v m1 = (w, m2)" for v w m2
    using Clone_window[OF that] ex by (auto intro: extends_trans fresh_extends)
  show ?thesis
  proof (cases res)
    case (Inl err)
    obtain body m2 where c: "strings_Clone (BodyString (Some resp)) m1 = (body, m2)" by force
    have "read_window m1 (BodyString (Some resp)) = hr_Body (contents m resp)"
      using read_extends[OF wf_accessors(1)[OF assms(2)] ex] by (simp add: contents_def)
    then show ?thesis using assms(1) fresh[OF c] ra
      by (auto simp: window_extracted_def d Inl c after_response_def reads_as_def observed_def escaped_windows_def)
  next
    case (Inr t)
    obtain p w q where t: "t = (p, w, q)" by (metis prod_cases3)
    have v: "valid m1 w" "valid m1 q" and val: "extract_dispatch env provider (contents m resp) (cc_IncludeReasoning config) =
        Inr (read_window m1 p, read_window m1 w, read_window m1 q)"
      using ra by (simp_all add: reads_as_def Inr t)
    obtain pr x1 where p: "ce_parseFinal env (read_window m1 p) x = (pr, x1)" by force
    obtain rw m2 where c: "strings_Clone w m1 = (rw, m2)" by force
    obtain rq m3 where c': "strings_Clone q m2 = (rq, m3)" by force
    note cw = Clone_window[OF c] and cq = Clone_window[OF c']
    have q: "extends m m3" "valid m3 rw" "fresh_since m rw" "read_window m3 rw = read_window m1 w"
        "valid m3 rq" "fresh_since m rq" "read_window m3 rq = read_window m1 q"
      using fresh[OF c] cq valid_extends[OF cw(2) cq(1)] read_extends[OF cw(2) cq(1)] read_extends[OF v(2) cw(1)]
      by (auto intro: extends_trans fresh_extends)
    show ?thesis using assms(1) fresh[OF c] q ex
      by (cases pr)
        (auto simp: window_extracted_def d Inr t p c c' val after_response_def observed_def escaped_windows_def
          split: if_splits)
  qed
qed

text \<open>A release touches only the response's own storage, and returns it once.\<close>

definition returned_storage :: "(nat \<Rightarrow> int) \<Rightarrow> response \<Rightarrow> nat list" where
  "returned_storage cap resp =
     (if rp_released resp then []
      else (case rp_drainBuf resp of Some b \<Rightarrow> if cap b \<le> maxPooledFastBody then [b] else [] | None \<Rightarrow> []) @
           (case rp_fastResp resp of Some b \<Rightarrow> [b] | None \<Rightarrow> []))"

lemma poison_other:
  "mm_next (poisonReleasedBody dbg v m) = mm_next m" "mm_pool (poisonReleasedBody dbg v m) = mm_pool m"
  "mm_Cap (poisonReleasedBody dbg v m) = mm_Cap m"
  "valid m0 v \<Longrightarrow> mm_next m0 \<le> b \<Longrightarrow> mm_bytes (poisonReleasedBody dbg v m) b = mm_bytes m b"
  by (auto simp: poisonReleasedBody_def valid_def Let_def split: option.splits)

lemma Release_memory:
  assumes "Release dbg (Some resp) m = (r', m')" "valid m0 (rp_body resp)"
  shows "mm_pool m' = returned_storage (mm_Cap m) resp @ mm_pool m" "mm_next m' = mm_next m"
    "mm_next m0 \<le> b \<Longrightarrow> mm_bytes m' b = mm_bytes m b"
  using assms poison_other(4)[OF assms(2), of b dbg m]
  by (auto simp: Release_def returned_storage_def borrowed_def ReleaseResponse_def returnFastBodyBuf_def poison_other Let_def
      split: option.splits if_splits)

lemma Release_response:
  assumes "Release dbg (Some resp) m = (r', m')"
  shows "\<exists>r. r' = Some r \<and> rp_released r \<and> (rp_released resp \<or> \<not> borrowed r')"
  using assms by (auto simp: Release_def borrowed_def Let_def split: option.splits if_splits)

section \<open>Properties\<close>

text \<open>A later memory: whoever owns the pool may have written anything into its buffers and into new ones.\<close>

definition pool_reused :: "memory \<Rightarrow> memory \<Rightarrow> bool" where
  "pool_reused m later \<longleftrightarrow> (\<forall>b < mm_next m. b \<notin> set (mm_pool m) \<longrightarrow> mm_bytes later b = mm_bytes m b)"

lemma returned_old:
  assumes "wf_response m resp" "b \<in> set (returned_storage cap resp)"
  shows "b < mm_next m"
  using assms by (auto simp: wf_response_def returned_storage_def split: option.splits if_splits)

lemma contents_extends:
  assumes "valid m (rp_body resp)" "extends m m'"
  shows "contents m' resp = contents m resp"
proof -
  note v = wf_accessors[OF assms(1)]
  have "map_option (\<lambda>s. read_window m' (Some s)) (BorrowedBytes (Some resp)) =
      map_option (\<lambda>s. read_window m (Some s)) (BorrowedBytes (Some resp))"
    "map_option (\<lambda>s. read_window m' (Some s)) (BodyBytes (Some resp)) =
      map_option (\<lambda>s. read_window m (Some s)) (BodyBytes (Some resp))"
    using v read_extends[OF _ assms(2)] by (cases "BorrowedBytes (Some resp)"; cases "BodyBytes (Some resp)"; simp)+
  then show ?thesis using read_extends[OF v(1) assms(2)] by (simp add: contents_def)
qed

text \<open>A window made since then reads the same after the release and whatever happens to the pool.\<close>

lemma fresh_window_survives:
  assumes wf: "wf_response m resp" and ex: "extends m m1" and rel: "Release dbg (Some resp) m1 = (r', m2)"
    and reused: "pool_reused m2 later" and v: "valid m1 v" "fresh_since m v"
  shows "read_window later v = read_window m1 v"
proof (cases v)
  case (Some s)
  have body: "valid m (rp_body resp)" using wf by (simp add: wf_response_def)
  note r = Release_memory[OF rel body]
  have b: "mm_next m \<le> sl_buf s" "sl_buf s < mm_next m1" using v Some by (simp_all add: valid_def fresh_since_def)
  have "sl_buf s \<notin> set (mm_pool m2)"
    using b(1) ex wf returned_old[OF wf] unfolding r(1) by (fastforce simp: wf_response_def extends_def)
  then have "mm_bytes later (sl_buf s) = mm_bytes m1 (sl_buf s)"
    using reused b r(2) r(3)[OF b(1)] by (simp add: pool_reused_def)
  then show ?thesis by (simp add: read_window_def Some)
qed simp

text \<open>C8: (refinement) No use after release. Whatever the JSON library returns as windows into the body, with or without
  poisoning, and whatever is written into released storage afterwards: what an attempt hands out reads as
  the model on strings says, and the storage of the response went back to its pool exactly once.\<close>

theorem no_use_after_release:
  assumes "wf_response m resp"
    and "ce_buildRequest env clientOverride (cl_ext s) = (Inr req, x1)"
    and "ce_execute env req x1 = (Inr (contents m resp), hb, x2)"
    and "window_attempt found dbg env config provider shadow resp (cl_ext (with_heartbeats env config hb x2 s)) m = (e, x', m')"
    and "pool_reused m' later"
  shows "baml_attempt env config provider clientOverride shadow s =
      (observed later provider e, (with_heartbeats env config hb x2 s)\<lparr>cl_ext := x'\<rparr>) \<and>
    mm_pool m' = returned_storage (mm_Cap m) resp @ mm_pool m"
proof -
  let ?s1 = "with_heartbeats env config hb x2 s"
  let ?x3 = "if shadow then ce_shadow env (rp_StatusCode resp) (responseBodyClone (contents m resp)) (cl_ext ?s1) else cl_ext ?s1"
  have body: "valid m (rp_body resp)" using assms(1) by (simp add: wf_response_def)
  have st: "hr_StatusCode (contents m resp) = rp_StatusCode resp" by (simp add: contents_def)
  obtain v0 m0 where c: "window_responseBodyClone resp m = (v0, m0)" by force
  obtain m1 where m1: "m1 = (if shadow then m0 else m)" by simp
  have ex1: "extends m m1" using clone_contents[OF c] by (simp add: m1)
  obtain e2 x4 m2 where w: "window_extracted found env config provider resp ?x3 m1 = (e2, x4, m2)" by (metis prod_cases3)
  obtain r' m3 where rel: "Release dbg (Some resp) m2 = (r', m3)" by force
  have out: "e = e2" "x' = x4" "m' = m3"
    using assms(4) w rel clone_contents[OF c] by (auto simp: window_attempt_def c m1 split: if_splits)
  note ew = extracted_window[OF w valid_extends[OF body ex1]]
  then have ex2: "extends m m2" using ex1 by (blast intro: extends_trans)
  have "read_window later v = read_window m2 v" if "v \<in> escaped_windows e" for v
    by (rule fresh_window_survives[OF assms(1) ex2 rel]) (use assms(5) out ew that ex1 in \<open>auto intro: fresh_extends\<close>)
  then have "observed later provider e = observed m2 provider e" by (rule observed_cong)
  then have "after_response env config provider (contents m resp) ?x3 = (observed later provider e, x')"
    using ew contents_extends[OF body ex1] by (simp add: out)
  then have "baml_attempt env config provider clientOverride shadow s = (observed later provider e, ?s1\<lparr>cl_ext := x'\<rparr>)"
    by (intro baml_attempt_served[OF assms(2,3) refl refl]) (simp only: st)
  moreover have "mm_Cap m2 = mm_Cap m" "mm_pool m2 = mm_pool m" using ex2 by (simp_all add: extends_def)
  ultimately show ?thesis using Release_memory(1)[OF rel body] by (simp add: out)
qed

text \<open>The owned copy of a response outlives its storage: its body reads as before, whatever is written into released
  storage. A second release returns nothing.\<close>

theorem own_outlives_release:
  assumes wf: "wf_response m r" and "borrowed (Some r)" and own: "own dbg r m = (copy, r', m')" and "pool_reused m' later"
  shows "read_window later (BodyString (Some copy)) = read_window m (BodyString (Some r))"
proof -
  obtain v m1 where a: "alloc (read_window m (rp_body r)) m = (v, m1)" by force
  obtain r2 m2 where rel: "Release dbg (Some r) m1 = (r2, m2)" by force
  have c: "rp_body copy = v" "m' = m2" using own assms(2) by (auto simp: own_def a rel)
  have body: "read_window mem (bytesToBodyString w) = read_window mem w" for mem w
    by (simp add: bytesToBodyString_def read_window_def split: option.split)
  note w = alloc_window[OF a]
  have "read_window later v = read_window m1 v"
    by (rule fresh_window_survives[OF wf w(1) rel]) (use assms(4) c w in auto)
  then show ?thesis using w(4) by (simp add: BodyString_def body c)
qed

theorem second_release_returns_nothing:
  assumes "Release dbg (Some r) m = (r1, m1)"
  shows "Release dbg r1 m1 = (r1, m1)"
  using Release_response[OF assms] by (auto simp: Release_def)

text \<open>An attempt whose raw text is a window into the borrowed body, with poisoning; the buffer is overwritten later.\<close>

definition demo_memory :: memory where
  "demo_memory = \<lparr>mm_bytes = (\<lambda>_. [])(0 := ''ok''), mm_Cap = \<lambda>_. 64, mm_next = 1, mm_pool = []\<rparr>"

definition demo_response :: response where
  "demo_response = \<lparr>rp_StatusCode = 200, rp_Headers = [], rp_body = Some \<lparr>sl_buf = 0, sl_off = 0, sl_len = 2\<rparr>,
     rp_exposeBytes = False, rp_fastResp = None, rp_drainBuf = Some 0, rp_released = False\<rparr>"

definition demo_window_env :: "(string, string, nat) call_env" where
  "demo_window_env = demo_call_env\<lparr>ce_execute := \<lambda>q x. (Inr (contents demo_memory demo_response), 0, x),
     ce_extractBorrowed := Some (\<lambda>p body r. Inr (body, body, []))\<rparr>"

definition demo_escape :: "string escaped \<times> nat \<times> memory" where
  "demo_escape = window_attempt (\<lambda>body t. Some 0) True demo_window_env (demo_config\<lparr>cc_NeedsRaw := True\<rparr>) ''openai'' False
     demo_response 0 demo_memory"

definition demo_later :: memory where
  "demo_later = (let m = snd (snd demo_escape) in m\<lparr>mm_bytes := (mm_bytes m)(0 := ''other'')\<rparr>)"

theorem no_use_after_release_witness:
  "fst (baml_attempt demo_window_env (demo_config\<lparr>cc_NeedsRaw := True\<rparr>) ''openai'' ''A'' False
     \<lparr>cl_out = [], cl_heartbeat = False, cl_planned = True, cl_finalAttempt = 0, cl_ext = 0\<rparr>) =
     observed demo_later ''openai'' (fst demo_escape) \<and>
   observed demo_later ''openai'' (fst demo_escape) =
     Inr \<lparr>cr_final = Some ''ok'', cr_raw = ''ok'', cr_reasoning = [], cr_winnerClient = [], cr_winnerProvider = ''openai'',
       cr_winnerPath = ''buildrequest'', cr_winnerEngine = []\<rparr> \<and>
   mm_pool demo_later = [0]"
proof -
  let ?s = "\<lparr>cl_out = [], cl_heartbeat = False, cl_planned = True, cl_finalAttempt = 0, cl_ext = 0\<rparr> :: (string, nat) call_state"
  obtain e x' m' where w: "demo_escape = (e, x', m')" by (metis prod_cases3)
  have pool: "mm_pool demo_later = [0]"
    and o: "observed demo_later ''openai'' (fst demo_escape) = Inr \<lparr>cr_final = Some ''ok'', cr_raw = ''ok'',
      cr_reasoning = [], cr_winnerClient = [], cr_winnerProvider = ''openai'', cr_winnerPath = ''buildrequest'', cr_winnerEngine = []\<rparr>"
    by code_simp+
  have "pool_reused m' demo_later" using pool by (auto simp: pool_reused_def demo_later_def w)
  moreover have "wf_response demo_memory demo_response"
    by (simp add: wf_response_def valid_def demo_memory_def demo_response_def)
  moreover have "ce_buildRequest demo_window_env ''A'' (cl_ext ?s) = (Inr ''A'', 0)"
    "ce_execute demo_window_env ''A'' 0 = (Inr (contents demo_memory demo_response), 0, 0)"
    by (simp_all add: demo_window_env_def demo_call_env_def)
  moreover have "cl_ext (with_heartbeats demo_window_env (demo_config\<lparr>cc_NeedsRaw := True\<rparr>) 0 0 ?s) = 0"
    by (simp add: with_heartbeats_def)
  ultimately show ?thesis
    using no_use_after_release[of demo_memory demo_response demo_window_env "''A''" ?s "''A''" 0 0 0 "\<lambda>body t. Some 0" True
        "demo_config\<lparr>cc_NeedsRaw := True\<rparr>" "''openai''" False e x' m' demo_later] w pool o
    by (simp add: demo_escape_def)
qed

end
