(* ===== verification/Go_Json.thy ===== *)
theory Go_Json
  imports Baml_Prelude
begin

text \<open>
  The parts of Go's standard library that the native output parser (\<^verbatim>\<open>src/internal/debaml\<close>) calls:
  the token stream of \<^verbatim>\<open>encoding/json\<close> (\<^verbatim>\<open>Decoder.Token\<close> with \<^verbatim>\<open>UseNumber\<close>), \<^verbatim>\<open>json.Valid\<close>, and
  the acceptance of \<^verbatim>\<open>strconv.ParseInt\<close>, \<^verbatim>\<open>ParseUint\<close> and \<^verbatim>\<open>ParseFloat\<close>. Strings are byte
  strings; an input is read from the front, so the state of a reader is the text it has not read.
\<close>

section \<open>Bytes\<close>

definition json_space :: "char \<Rightarrow> bool" where
  "json_space c \<longleftrightarrow> c = CHR 0x20 \<or> c = CHR 0x09 \<or> c = CHR 0x0A \<or> c = CHR 0x0D"

definition skip_space :: "string \<Rightarrow> string" where
  "skip_space s = dropWhile json_space s"

definition digit :: "char \<Rightarrow> bool" where
  "digit c \<longleftrightarrow> 48 \<le> (of_char c :: int) \<and> (of_char c :: int) \<le> 57"

definition digit_val :: "char \<Rightarrow> int" where
  "digit_val c = of_char c - 48"

definition hex_val :: "char \<Rightarrow> int option" where
  "hex_val c =
     (let n = of_char c :: int in
      if 48 \<le> n \<and> n \<le> 57 then Some (n - 48)
      else if 97 \<le> n \<and> n \<le> 102 then Some (n - 87)
      else if 65 \<le> n \<and> n \<le> 70 then Some (n - 55) else None)"

text \<open>ASCII lower case, for the case-insensitive spellings.\<close>

definition lower_byte :: "char \<Rightarrow> char" where
  "lower_byte c = (let n = of_char c :: int in if 65 \<le> n \<and> n \<le> 90 then char_of (n + 32) else c)"

lemma skip_space_Nil [simp]: "skip_space [] = []"
  by (simp add: skip_space_def)

lemma skip_space_Cons: "skip_space (c # s) = (if json_space c then skip_space s else c # s)"
  by (simp add: skip_space_def)

lemma length_skip_space: "length (skip_space s) \<le> length s"
  by (simp add: skip_space_def length_dropWhile_le)

lemma skip_space_idem [simp]: "skip_space (skip_space s) = skip_space s"
  by (simp add: skip_space_def dropWhile_idem)

lemma skip_space_hd: "skip_space s = c # r \<Longrightarrow> \<not> json_space c"
  by (simp add: skip_space_def dropWhile_eq_Cons_conv)

section \<open>UTF-8\<close>

text \<open>The length of the UTF-8 encoding at the front of \<open>s\<close>, 0 where it is not valid.\<close>

definition cont_byte :: "int \<Rightarrow> int \<Rightarrow> char \<Rightarrow> bool" where
  "cont_byte lo hi c \<longleftrightarrow> lo \<le> of_char c \<and> of_char c \<le> hi"

definition utf8_second :: "int \<Rightarrow> int \<times> int" where
  "utf8_second n = (if n = 0xE0 then (0xA0, 0xBF) else if n = 0xED then (0x80, 0x9F)
     else if n = 0xF0 then (0x90, 0xBF) else if n = 0xF4 then (0x80, 0x8F) else (0x80, 0xBF))"

definition utf8_size :: "int \<Rightarrow> nat" where
  "utf8_size n = (if n < 0x80 then 1 else if n < 0xC2 then 0 else if n < 0xE0 then 2
     else if n < 0xF0 then 3 else if n < 0xF5 then 4 else 0)"

definition utf8_len :: "string \<Rightarrow> nat" where
  "utf8_len s = (case s of [] \<Rightarrow> 0 | c # r \<Rightarrow>
     (let n = of_char c; k = utf8_size n; (lo, hi) = utf8_second n in
      if k \<le> 1 then k
      else if k \<le> length s \<and> cont_byte lo hi (hd r) \<and> list_all (cont_byte 0x80 0xBF) (take (k - 2) (tl r))
      then k else 0))"

text \<open>\<^verbatim>\<open>utf8.EncodeRune\<close>; a surrogate is encoded as U+FFFD.\<close>

definition replacement :: string where
  "replacement = [CHR 0xEF, CHR 0xBF, CHR 0xBD]"

definition encode_rune :: "int \<Rightarrow> string" where
  "encode_rune r =
     (if r < 0x80 then [char_of r]
      else if r < 0x800 then [char_of (0xC0 + r div 64), char_of (0x80 + r mod 64)]
      else if 0xD800 \<le> r \<and> r < 0xE000 \<or> 0x110000 \<le> r then replacement
      else if r < 0x10000 then
        [char_of (0xE0 + r div 4096), char_of (0x80 + r div 64 mod 64), char_of (0x80 + r mod 64)]
      else [char_of (0xF0 + r div 262144), char_of (0x80 + r div 4096 mod 64),
            char_of (0x80 + r div 64 mod 64), char_of (0x80 + r mod 64)])"

section \<open>JSON literals\<close>

subsection \<open>Numbers\<close>

text \<open>
  The scanner's number: the longest number at the front and the text after it. A sign, a point or an
  exponent mark that no digit follows is a syntax error.
\<close>

definition scan_digits :: "string \<Rightarrow> (string \<times> string) option" where
  "scan_digits s = (let ds = takeWhile digit s in if ds = [] then None else Some (ds, dropWhile digit s))"

definition scan_int :: "string \<Rightarrow> (string \<times> string) option" where
  "scan_int s = (case s of [] \<Rightarrow> None
     | c # r \<Rightarrow> if c = CHR ''0'' then Some ([c], r) else scan_digits s)"

definition scan_frac :: "string \<Rightarrow> (string \<times> string) option" where
  "scan_frac s = (if first_byte_is s (CHR ''.'')
     then map_option (\<lambda>(ds, r). (CHR ''.'' # ds, r)) (scan_digits (tl s)) else Some ([], s))"

definition scan_exp :: "string \<Rightarrow> (string \<times> string) option" where
  "scan_exp s = (if first_byte_is s (CHR ''e'') \<or> first_byte_is s (CHR ''E'')
     then (let sg = (if first_byte_is (tl s) (CHR ''+'') \<or> first_byte_is (tl s) (CHR ''-'')
                     then take 1 (tl s) else []) in
           map_option (\<lambda>(ds, r). (hd s # sg @ ds, r)) (scan_digits (drop (length sg) (tl s))))
     else Some ([], s))"

definition scan_number :: "string \<Rightarrow> (string \<times> string) option" where
  "scan_number s =
     (let (sg, s1) = (if first_byte_is s (CHR ''-'') then ([CHR ''-''], tl s) else ([], s)) in
      case scan_int s1 of None \<Rightarrow> None | Some (i, s2) \<Rightarrow>
      (case scan_frac s2 of None \<Rightarrow> None | Some (f, s3) \<Rightarrow>
      (case scan_exp s3 of None \<Rightarrow> None | Some (e, s4) \<Rightarrow> Some (sg @ i @ f @ e, s4))))"

lemma scan_digits_append: "scan_digits s = Some (t, r) \<Longrightarrow> s = t @ r \<and> t \<noteq> []"
  by (auto simp: scan_digits_def Let_def split: if_splits)

lemma scan_int_append: "scan_int s = Some (t, r) \<Longrightarrow> s = t @ r \<and> t \<noteq> []"
  by (auto simp: scan_int_def split: list.splits if_splits dest: scan_digits_append)

lemma scan_frac_append: "scan_frac s = Some (t, r) \<Longrightarrow> s = t @ r"
  by (cases s) (auto simp: scan_frac_def first_byte_is_def split: if_splits dest: scan_digits_append)

lemma scan_exp_append: "scan_exp s = Some (t, r) \<Longrightarrow> s = t @ r"
proof (cases s)
  case (Cons c u)
  assume "scan_exp s = Some (t, r)"
  then show ?thesis using Cons
    by (cases u) (auto simp: scan_exp_def first_byte_is_def Let_def split: if_splits
        dest!: scan_digits_append)
qed (simp add: scan_exp_def first_byte_is_def)

lemma scan_number_append: "scan_number s = Some (t, r) \<Longrightarrow> s = t @ r \<and> t \<noteq> []"
  by (cases s) (auto simp: scan_number_def first_byte_is_def split: if_splits option.splits
      dest!: scan_int_append scan_frac_append scan_exp_append)

subsection \<open>Strings\<close>

text \<open>\<open>unhex4\<close> reads four hexadecimal digits; \<open>getu4\<close> is \<^verbatim>\<open>\uXXXX\<close> at the front of the text.\<close>

definition unhex4 :: "string \<Rightarrow> int option" where
  "unhex4 s = (case s of a # b # c # d # _ \<Rightarrow>
       (case (hex_val a, hex_val b, hex_val c, hex_val d) of
          (Some w, Some x, Some y, Some z) \<Rightarrow> Some (w * 4096 + x * 256 + y * 16 + z)
        | _ \<Rightarrow> None)
     | _ \<Rightarrow> None)"

definition getu4 :: "string \<Rightarrow> int option" where
  "getu4 s = (case s of a # b # r \<Rightarrow> if a = CHR 0x5C \<and> b = CHR ''u'' then unhex4 r else None | _ \<Rightarrow> None)"

text \<open>The escapes other than \<^verbatim>\<open>\u\<close> that the scanner accepts, with the byte each stands for.\<close>

definition simple_escape :: "char \<Rightarrow> char option" where
  "simple_escape c =
     (if c = CHR 0x22 \<or> c = CHR 0x5C \<or> c = CHR ''/'' then Some c
      else if c = CHR ''b'' then Some (CHR 0x08) else if c = CHR ''f'' then Some (CHR 0x0C)
      else if c = CHR ''n'' then Some (CHR 0x0A) else if c = CHR ''r'' then Some (CHR 0x0D)
      else if c = CHR ''t'' then Some (CHR 0x09) else None)"

text \<open>One unit of a string body: the bytes it stands for and the text after it. A control character,
  an unknown escape and the end of the text are errors; bytes that are not UTF-8 become U+FFFD, and so
  does a surrogate that is not half of a pair.\<close>

definition string_unit :: "string \<Rightarrow> (string \<times> string) option" where
  "string_unit s = (case s of [] \<Rightarrow> None
     | c # r \<Rightarrow>
        if c = CHR 0x5C then
          (case r of [] \<Rightarrow> None
           | e # r' \<Rightarrow>
              if e = CHR ''u'' then
                (case unhex4 r' of None \<Rightarrow> None
                 | Some rr \<Rightarrow>
                    (let after = drop 4 r' in
                     if 0xD800 \<le> rr \<and> rr < 0xE000 then
                       (case getu4 after of
                          Some rr1 \<Rightarrow>
                            if rr < 0xDC00 \<and> 0xDC00 \<le> rr1 \<and> rr1 < 0xE000
                            then Some (encode_rune ((rr - 0xD800) * 1024 + (rr1 - 0xDC00) + 0x10000), drop 6 after)
                            else Some (replacement, after)
                        | None \<Rightarrow> Some (replacement, after))
                     else Some (encode_rune rr, after)))
              else map_option (\<lambda>b. ([b], r')) (simple_escape e))
        else if (of_char c :: int) < 32 then None
        else (let k = utf8_len s in if k = 0 then Some (replacement, r) else Some (take k s, drop k s)))"

lemma string_unit_shorter: "string_unit s = Some (t, r) \<Longrightarrow> length r < length s"
  by (auto simp: string_unit_def Let_def split: list.splits if_splits option.splits)

text \<open>The body of a string up to and including its closing quote.\<close>

function scan_string :: "string \<Rightarrow> (string \<times> string) option" where
  "scan_string s =
     (if first_byte_is s (CHR 0x22) then Some ([], tl s)
      else (case string_unit s of None \<Rightarrow> None
            | Some (t, r) \<Rightarrow> map_option (\<lambda>(u, r'). (t @ u, r')) (scan_string r)))"
  by pat_completeness auto
termination by (relation "measure length") (auto dest: string_unit_shorter)

declare scan_string.simps [simp del]

lemma scan_string_shorter: "scan_string s = Some (t, r) \<Longrightarrow> length r < length s"
proof (induction s arbitrary: t r rule: scan_string.induct)
  case (1 s)
  then show ?case using string_unit_shorter
    by (subst (asm) (2) scan_string.simps)
      (cases s; fastforce simp: first_byte_is_def split: if_splits option.splits)
qed

section \<open>The token stream of a decoder\<close>

datatype json_token = TDelim char | TString string | TNumber string | TBool bool | TNull

datatype json_err = JEOF | JSyntax

datatype token_state =
    TokenTopValue | TokenArrayStart | TokenArrayValue | TokenArrayComma
  | TokenObjectStart | TokenObjectKey | TokenObjectColon | TokenObjectValue | TokenObjectComma

record decoder =
  buf :: string
  token_state :: token_state
  token_stack :: "token_state list"

definition NewDecoder :: "string \<Rightarrow> decoder" where
  "NewDecoder s = \<lparr>buf = s, token_state = TokenTopValue, token_stack = []\<rparr>"

definition token_value_allowed :: "token_state \<Rightarrow> bool" where
  "token_value_allowed t \<longleftrightarrow> t \<in> {TokenTopValue, TokenArrayStart, TokenArrayValue, TokenObjectValue}"

definition token_value_end :: "token_state \<Rightarrow> token_state" where
  "token_value_end t = (if t \<in> {TokenArrayStart, TokenArrayValue} then TokenArrayComma
     else if t = TokenObjectValue then TokenObjectComma else t)"

text \<open>\<open>scan_scalar\<close> reads a value that is not a container, as \<^verbatim>\<open>Decode\<close> does for one token.\<close>

definition scan_scalar :: "string \<Rightarrow> (json_token \<times> string) option" where
  "scan_scalar s =
     (if first_byte_is s (CHR 0x22) then map_option (\<lambda>(t, r). (TString t, r)) (scan_string (tl s))
      else if first_byte_is s (CHR ''t'') then
        (if has_prefix s ''true'' then Some (TBool True, drop 4 s) else None)
      else if first_byte_is s (CHR ''f'') then
        (if has_prefix s ''false'' then Some (TBool False, drop 5 s) else None)
      else if first_byte_is s (CHR ''n'') then
        (if has_prefix s ''null'' then Some (TNull, drop 4 s) else None)
      else map_option (\<lambda>(t, r). (TNumber t, r)) (scan_number s))"

definition push_container :: "token_state \<Rightarrow> string \<Rightarrow> decoder \<Rightarrow> decoder" where
  "push_container t r d = d\<lparr>buf := r, token_stack := token_state d # token_stack d, token_state := t\<rparr>"

definition pop_container :: "string \<Rightarrow> decoder \<Rightarrow> decoder" where
  "pop_container r d = (case token_stack d of
       [] \<Rightarrow> d\<lparr>buf := r\<rparr>
     | t # ts \<Rightarrow> d\<lparr>buf := r, token_stack := ts, token_state := token_value_end t\<rparr>)"

text \<open>\<^verbatim>\<open>Decoder.Token\<close>: separators are checked against the state and skipped.\<close>

function dec_Token :: "decoder \<Rightarrow> (json_err + json_token) \<times> decoder" where
  "dec_Token d =
     (case skip_space (buf d) of [] \<Rightarrow> (Inl JEOF, d)
      | c # r \<Rightarrow>
         (let st = token_state d in
          if c = CHR ''['' then
            (if token_value_allowed st then (Inr (TDelim c), push_container TokenArrayStart r d)
             else (Inl JSyntax, d))
          else if c = CHR '']'' then
            (if st = TokenArrayStart \<or> st = TokenArrayComma then (Inr (TDelim c), pop_container r d)
             else (Inl JSyntax, d))
          else if c = CHR ''{'' then
            (if token_value_allowed st then (Inr (TDelim c), push_container TokenObjectStart r d)
             else (Inl JSyntax, d))
          else if c = CHR ''}'' then
            (if st = TokenObjectStart \<or> st = TokenObjectComma then (Inr (TDelim c), pop_container r d)
             else (Inl JSyntax, d))
          else if c = CHR '':'' then
            (if st = TokenObjectColon then dec_Token (d\<lparr>buf := r, token_state := TokenObjectValue\<rparr>)
             else (Inl JSyntax, d))
          else if c = CHR '','' then
            (if st = TokenArrayComma then dec_Token (d\<lparr>buf := r, token_state := TokenArrayValue\<rparr>)
             else if st = TokenObjectComma then dec_Token (d\<lparr>buf := r, token_state := TokenObjectKey\<rparr>)
             else (Inl JSyntax, d))
          else if c = CHR 0x22 \<and> (st = TokenObjectStart \<or> st = TokenObjectKey) then
            (case scan_string r of None \<Rightarrow> (Inl JSyntax, d)
             | Some (t, r') \<Rightarrow> (Inr (TString t), d\<lparr>buf := r', token_state := TokenObjectColon\<rparr>))
          else if token_value_allowed st then
            (case scan_scalar (c # r) of None \<Rightarrow> (Inl JSyntax, d)
             | Some (t, r') \<Rightarrow> (Inr t, d\<lparr>buf := r', token_state := token_value_end st\<rparr>))
          else (Inl JSyntax, d)))"
  by pat_completeness auto
termination
proof (relation "measure (length \<circ> buf)", goal_cases)
  case (2 d c r st)
  then show ?case using length_skip_space[of "buf d"] by simp
next
  case (3 d c r st)
  then show ?case using length_skip_space[of "buf d"] by simp
next
  case (4 d c r st)
  then show ?case using length_skip_space[of "buf d"] by simp
qed simp

declare dec_Token.simps [simp del]

lemma scan_number_shorter: "scan_number s = Some (t, r) \<Longrightarrow> length r < length s"
  by (auto dest: scan_number_append)

lemma scan_scalar_shorter: "scan_scalar s = Some (t, r) \<Longrightarrow> length r < length s"
  by (cases s) (auto simp: scan_scalar_def first_byte_is_def has_prefix_def split: if_splits
      dest: scan_string_shorter scan_number_shorter)

text \<open>Every token that is delivered takes input.\<close>

lemma dec_Token_shorter: "dec_Token d = (Inr t, d') \<Longrightarrow> length (buf d') < length (buf d)"
proof (induction d arbitrary: t d' rule: measure_induct_rule[where f = "length \<circ> buf"])
  case (less d)
  show ?case
  proof (cases "skip_space (buf d)")
    case Nil
    then show ?thesis using less.prems by (simp add: dec_Token.simps[of d])
  next
    case (Cons c r)
    then have r: "length r < length (buf d)" using length_skip_space[of "buf d"] by simp
    have sc: "length q < length (buf d)" if "scan_scalar (c # r) = Some (tk, q)" for tk q
      using scan_scalar_shorter[OF that] r length_skip_space[of "buf d"] Cons by simp
    have ss: "length q < length (buf d)" if "scan_string r = Some (u, q)" for u q
      using scan_string_shorter[OF that] r by simp
    have IH: "length (buf e') < length (buf d)"
      if "dec_Token (d\<lparr>buf := r, token_state := k\<rparr>) = (Inr u, e')" for k u e'
      using less.IH[OF _ that] r by simp
    show ?thesis using less.prems r
      by (subst (asm) dec_Token.simps)
        (auto simp: Cons Let_def push_container_def pop_container_def
          split: if_splits option.splits list.splits dest: sc ss IH)
  qed
qed

text \<open>
  \<^verbatim>\<open>json.Valid\<close>: one value, with space around it. The scanner refuses a value nested deeper than
  10000 containers, which the token stream does not.
\<close>

function valid_rest :: "decoder \<Rightarrow> decoder option" where
  "valid_rest d =
     (case dec_Token d of
        (Inl e, _) \<Rightarrow> None
      | (Inr t, d') \<Rightarrow>
          if 10000 < int (length (token_stack d')) then None
          else if token_stack d' = [] then Some d' else valid_rest d')"
  by pat_completeness auto
termination by (relation "measure (length \<circ> buf)") (auto dest!: sym[THEN dec_Token_shorter] dec_Token_shorter)

declare valid_rest.simps [simp del]

definition json_Valid :: "string \<Rightarrow> bool" where
  "json_Valid s = (case valid_rest (NewDecoder s) of None \<Rightarrow> False
     | Some d \<Rightarrow> skip_space (buf d) = [])"

section \<open>Numbers of strconv\<close>

definition dec_value :: "string \<Rightarrow> int" where
  "dec_value ds = foldl (\<lambda>a c. a * 10 + digit_val c) 0 ds"

text \<open>\<^verbatim>\<open>strconv.ParseUint(s, 10, 64)\<close> and \<^verbatim>\<open>strconv.ParseInt(s, 10, 64)\<close>; \<^const>\<open>None\<close> is an error.\<close>

definition parse_uint :: "string \<Rightarrow> int option" where
  "parse_uint s = (if s \<noteq> [] \<and> list_all digit s \<and> dec_value s < 2 ^ 64 then Some (dec_value s) else None)"

definition parse_int :: "string \<Rightarrow> int option" where
  "parse_int s =
     (let neg = first_byte_is s (CHR ''-'');
          body = (if neg \<or> first_byte_is s (CHR ''+'') then tl s else s) in
      case parse_uint body of None \<Rightarrow> None
      | Some n \<Rightarrow> if \<not> neg \<and> 2 ^ 63 \<le> n \<or> neg \<and> 2 ^ 63 < n then None
                  else Some (if neg then - n else n))"

subsection \<open>ParseFloat\<close>

text \<open>The double nearest to \<open>n / d\<close>, ties to even; \<^const>\<open>None\<close> where it would be infinite. The
  sign of a zero is not kept.\<close>

function ibits :: "int \<Rightarrow> int" where
  "ibits i = (if i \<le> 0 then 0 else 1 + ibits (i div 2))"
  by pat_completeness auto
termination by (relation "measure nat") auto

declare ibits.simps [simp del]

definition round_half_even :: "int \<Rightarrow> int \<Rightarrow> int" where
  "round_half_even n d = (let q = n div d; r = n mod d in
     if d < 2 * r \<or> (2 * r = d \<and> odd q) then q + 1 else q)"

definition nearest_double :: "int \<Rightarrow> int \<Rightarrow> gofloat option" where
  "nearest_double n d =
     (if n = 0 then Some (FFin 0 0)
      else (let k = ibits n - ibits d;
                fl = (if d * 2 ^ nat k \<le> n * 2 ^ nat (- k) then k else k - 1);
                e = max (fl - 52) (- 1074);
                m = round_half_even (n * 2 ^ nat (- e)) (d * 2 ^ nat e) in
            if 1024 < ibits m + e then None else Some (FFin m e)))"

text \<open>
  \<open>read_mant\<close> reads the mantissa: the digits with their underscores, at most one point; it returns the
  digits, how many of them follow the point, and the text after them. In a hexadecimal number the
  digits are hexadecimal.
\<close>

fun read_mant :: "bool \<Rightarrow> bool \<Rightarrow> string \<Rightarrow> int list \<Rightarrow> int \<Rightarrow> int list \<times> int \<times> string" where
  "read_mant hex dot [] ds k = (ds, k, [])"
| "read_mant hex dot (c # s) ds k =
     (if c = CHR ''_'' then read_mant hex dot s ds k
      else if c = CHR ''.'' then (if dot then (ds, k, c # s) else read_mant hex True s ds k)
      else (case (if hex then hex_val c else if digit c then Some (digit_val c) else None) of
              None \<Rightarrow> (ds, k, c # s)
            | Some v \<Rightarrow> read_mant hex dot s (ds @ [v]) (if dot then k + 1 else k)))"

text \<open>\<open>underscoreOK\<close>: an underscore stands between digits, or after a base prefix. The state is the
  last byte's class: a digit, an underscore, the start, or another byte.\<close>

fun underscores_ok :: "bool \<Rightarrow> char \<Rightarrow> string \<Rightarrow> bool" where
  "underscores_ok hex i [] = (i \<noteq> CHR ''_'')"
| "underscores_ok hex i (c # s) =
     (if digit c \<or> hex \<and> hex_val c \<noteq> None then underscores_ok hex (CHR ''0'') s
      else if c = CHR ''_'' then i = CHR ''0'' \<and> underscores_ok hex c s
      else i \<noteq> CHR ''_'' \<and> underscores_ok hex (CHR ''!'') s)"

definition underscoreOK :: "string \<Rightarrow> bool" where
  "underscoreOK s =
     (let t = (if first_byte_is s (CHR ''-'') \<or> first_byte_is s (CHR ''+'') then tl s else s) in
      case t of
        z # x # r \<Rightarrow>
          if z = CHR ''0'' \<and> lower_byte x \<in> {CHR ''b'', CHR ''o'', CHR ''x''}
          then underscores_ok (lower_byte x = CHR ''x'') (CHR ''0'') r
          else underscores_ok False (CHR ''^'') t
      | _ \<Rightarrow> underscores_ok False (CHR ''^'') t)"

text \<open>The exponent after the mark: the value, capped as the reader caps it, and the text after it.\<close>

fun read_exp_digits :: "string \<Rightarrow> int \<Rightarrow> int \<times> string" where
  "read_exp_digits [] e = (e, [])"
| "read_exp_digits (c # s) e =
     (if c = CHR ''_'' then read_exp_digits s e
      else if digit c then read_exp_digits s (if e < 10000 then e * 10 + digit_val c else e)
      else (e, c # s))"

definition read_exp :: "bool \<Rightarrow> string \<Rightarrow> (int \<times> string) option" where
  "read_exp hex s =
     (case s of
        [] \<Rightarrow> if hex then None else Some (0, s)
      | c # r \<Rightarrow>
         if lower_byte c = (if hex then CHR ''p'' else CHR ''e'') then
           (let neg = first_byte_is r (CHR ''-'');
                q = (if neg \<or> first_byte_is r (CHR ''+'') then tl r else r) in
            case q of [] \<Rightarrow> None
            | x # _ \<Rightarrow> if \<not> digit x then None
                else (let (e, r') = read_exp_digits q 0 in Some (if neg then - e else e, r')))
         else if hex then None else Some (0, s))"

definition base_value :: "int \<Rightarrow> int list \<Rightarrow> int" where
  "base_value b ds = foldl (\<lambda>a v. a * b + v) 0 ds"

text \<open>\<open>special\<close>: the infinities and NaN, in any case of the letters.\<close>

definition special_float :: "string \<Rightarrow> gofloat option" where
  "special_float s =
     (let neg = first_byte_is s (CHR ''-'');
          t = map lower_byte (if neg \<or> first_byte_is s (CHR ''+'') then tl s else s) in
      if t = ''inf'' \<or> t = ''infinity'' then Some (FInf neg)
      else if map lower_byte s = ''nan'' then Some FNaN else None)"

definition parse_float :: "string \<Rightarrow> gofloat option" where
  "parse_float s =
     (case special_float s of Some f \<Rightarrow> Some f
      | None \<Rightarrow>
         (let neg = first_byte_is s (CHR ''-'');
              t = (if neg \<or> first_byte_is s (CHR ''+'') then tl s else s);
              hex = (case t of z # x # _ # _ \<Rightarrow> z = CHR ''0'' \<and> lower_byte x = CHR ''x'' | _ \<Rightarrow> False);
              (ds, k, r) = read_mant hex False (if hex then drop 2 t else t) [] 0 in
          if ds = [] then None
          else (case read_exp hex r of None \<Rightarrow> None
                | Some (e, r') \<Rightarrow>
                    if r' \<noteq> [] \<or> (contains_byte s (CHR ''_'') \<and> \<not> underscoreOK s) then None
                    else (let v = base_value (if hex then 16 else 10) ds;
                              x = (if hex then e - 4 * k else e - k);
                              b = (if hex then 2 else 10 :: int) in
                          map_option (\<lambda>f. case f of FFin m p \<Rightarrow> FFin (if neg then - m else m) p | _ \<Rightarrow> f)
                            (nearest_double (v * b ^ nat x) (b ^ nat (- x)))))))"

end
