(* ===== verification/Jsonish_Value.thy ===== *)
theory Jsonish_Value
  imports Go_Json
begin

text \<open>
  The ordered JSONish value of the native output parser and its strict decoder
  (\<^verbatim>\<open>src/internal/debaml/value.go\<close>), with the classification of bare tokens in the two number modes
  (\<^verbatim>\<open>alias_number.go\<close>, and the Rust number readers of \<^verbatim>\<open>coerce.go\<close>). A \<^verbatim>\<open>value\<close> is the Go struct with
  all its payload fields; that only the field of its kind is used, and that a final parse never
  produces an incomplete value, are theorems and not part of the type. An error of these functions is
  only ever compared with \<^verbatim>\<open>nil\<close>, so a fallible function returns an option.
\<close>

section \<open>Values\<close>

datatype valueKind = valNull | valBool | valNumber | valString | valArray | valObject

definition valueKind_String :: "valueKind \<Rightarrow> string" where
  "valueKind_String k = (case k of valNull \<Rightarrow> ''null'' | valBool \<Rightarrow> ''bool'' | valNumber \<Rightarrow> ''number''
     | valString \<Rightarrow> ''string'' | valArray \<Rightarrow> ''array'' | valObject \<Rightarrow> ''object'')"

datatype jvalue = Value (kind: valueKind) (boolV: bool) (numV: string) (strV: string)
  (arrV: "jvalue list") (objV: "(string \<times> jvalue) list") (incomplete: bool) (numSerdeFloat: bool)

text \<open>The struct literals of the code.\<close>

abbreviation vNull :: jvalue where
  "vNull \<equiv> Value valNull False [] [] [] [] False False"

abbreviation vBool :: "bool \<Rightarrow> jvalue" where
  "vBool b \<equiv> Value valBool b [] [] [] [] False False"

abbreviation vNumber :: "string \<Rightarrow> jvalue" where
  "vNumber t \<equiv> Value valNumber False t [] [] [] False False"

abbreviation vString :: "string \<Rightarrow> bool \<Rightarrow> jvalue" where
  "vString t inc \<equiv> Value valString False [] t [] [] inc False"

abbreviation vArray :: "jvalue list \<Rightarrow> bool \<Rightarrow> jvalue" where
  "vArray vs inc \<equiv> Value valArray False [] [] vs [] inc False"

abbreviation vObject :: "(string \<times> jvalue) list \<Rightarrow> bool \<Rightarrow> jvalue" where
  "vObject fs inc \<equiv> Value valObject False [] [] [] fs inc False"

definition set_incomplete :: "jvalue \<Rightarrow> jvalue" where
  "set_incomplete v = Value (kind v) (boolV v) (numV v) (strV v) (arrV v) (objV v) True (numSerdeFloat v)"

section \<open>Number modes\<close>

datatype numMode = numModeLegacy | numModeSerde

definition parseI64Rust :: "string \<Rightarrow> int option" where
  "parseI64Rust s = parse_int s"

definition parseU64Rust :: "string \<Rightarrow> int option" where
  "parseU64Rust s = parse_uint (if has_prefix s ''+'' then tl s else s)"

definition parseF64Rust :: "string \<Rightarrow> gofloat option" where
  "parseF64Rust s =
     (if contains_byte s (CHR ''_'') then None
      else (let t = (if first_byte_is s (CHR ''+'') \<or> first_byte_is s (CHR ''-'') then tl s else s) in
            if has_prefix t ''0x'' \<or> has_prefix t ''0X'' then None else parse_float s))"

definition finite_float :: "gofloat \<Rightarrow> bool" where
  "finite_float f = (case f of FFin m e \<Rightarrow> True | _ \<Rightarrow> False)"

definition serdeParsesNumber :: "string \<Rightarrow> bool" where
  "serdeParsesNumber tok = (case parseF64Rust tok of None \<Rightarrow> False | Some f \<Rightarrow> finite_float f)"

definition serdeStoresAsFloat :: "string \<Rightarrow> bool" where
  "serdeStoresAsFloat tok \<longleftrightarrow> tok = ''-0'' \<or> parseI64Rust tok = None"

definition bamlNumberToken :: "string \<Rightarrow> bool" where
  "bamlNumberToken s =
     (parseI64Rust s \<noteq> None \<or> parseU64Rust s \<noteq> None \<or>
      (case parseF64Rust s of None \<Rightarrow> False | Some f \<Rightarrow> finite_float f))"

definition classifyScalar :: "string \<Rightarrow> jvalue option" where
  "classifyScalar raw =
     (let s = trim_space raw in
      if s = ''true'' then Some (vBool True)
      else if s = ''false'' then Some (vBool False)
      else if s = ''null'' then Some vNull
      else if json_Valid s then Some (vNumber s) else None)"

definition classifyScalarSerde :: "string \<Rightarrow> jvalue option" where
  "classifyScalarSerde raw =
     (let s = trim_space raw in
      if s = ''true'' then Some (vBool True)
      else if s = ''false'' then Some (vBool False)
      else if s = ''null'' then Some vNull
      else if bamlNumberToken s then Some (vNumber s) else Some (vString s False))"

definition classifyScalarMode :: "string \<Rightarrow> numMode \<Rightarrow> jvalue option" where
  "classifyScalarMode raw nm = (if nm = numModeSerde then classifyScalarSerde raw else classifyScalar raw)"

section \<open>The strict decoder\<close>

text \<open>
  \<open>decodeObject\<close> and \<open>decodeArray\<close> are the loops of the code with the fields and elements so far. The
  decoder is passed on, so a loop continues where the nested value ended.
\<close>

function decodeToken :: "numMode \<Rightarrow> json_token \<Rightarrow> decoder \<Rightarrow> (jvalue \<times> decoder) option"
  and decodeObject :: "numMode \<Rightarrow> (string \<times> jvalue) list \<Rightarrow> decoder \<Rightarrow> (jvalue \<times> decoder) option"
  and decodeArray :: "numMode \<Rightarrow> jvalue list \<Rightarrow> decoder \<Rightarrow> (jvalue \<times> decoder) option" where
  "decodeToken nm tok dec =
     (case tok of
        TDelim c \<Rightarrow> if c = CHR ''{'' then decodeObject nm [] dec
                    else if c = CHR ''['' then decodeArray nm [] dec else None
      | TString t \<Rightarrow> Some (vString t False, dec)
      | TNumber t \<Rightarrow>
          if nm = numModeSerde
          then (if \<not> serdeParsesNumber t then None
                else Some (Value valNumber False t [] [] [] False (serdeStoresAsFloat t), dec))
          else Some (vNumber t, dec)
      | TBool b \<Rightarrow> Some (vBool b, dec)
      | TNull \<Rightarrow> Some (vNull, dec))"
| "decodeObject nm fs dec =
     (case dec_Token dec of
        (Inl e, _) \<Rightarrow> None
      | (Inr tok, dec1) \<Rightarrow>
          if tok = TDelim (CHR ''}'') then Some (vObject fs False, dec1)
          else (case tok of
                  TString k \<Rightarrow>
                    (case dec_Token dec1 of
                       (Inl e, _) \<Rightarrow> None
                     | (Inr vtok, dec2) \<Rightarrow>
                         (case decodeToken nm vtok dec2 of
                            None \<Rightarrow> None
                          | Some (v, dec3) \<Rightarrow> decodeObject nm (fs @ [(k, v)]) dec3))
                | _ \<Rightarrow> None))"
| "decodeArray nm vs dec =
     (case dec_Token dec of
        (Inl e, _) \<Rightarrow> None
      | (Inr tok, dec1) \<Rightarrow>
          if tok = TDelim (CHR '']'') then Some (vArray vs False, dec1)
          else (case decodeToken nm tok dec1 of
                  None \<Rightarrow> None
                | Some (v, dec2) \<Rightarrow> decodeArray nm (vs @ [v]) dec2))"
  by pat_completeness auto
termination
proof -
  have est:
    "decodeToken_decodeObject_decodeArray_dom (Inl (nm, tok, dec)) \<Longrightarrow>
       decodeToken nm tok dec = Some (v, d) \<Longrightarrow> length (buf d) \<le> length (buf dec)"
    "decodeToken_decodeObject_decodeArray_dom (Inr (Inl (nm, fs, dec))) \<Longrightarrow>
       decodeObject nm fs dec = Some (v, d) \<Longrightarrow> length (buf d) \<le> length (buf dec)"
    "decodeToken_decodeObject_decodeArray_dom (Inr (Inr (nm, vs, dec))) \<Longrightarrow>
       decodeArray nm vs dec = Some (v, d) \<Longrightarrow> length (buf d) \<le> length (buf dec)"
    for nm tok fs vs dec v d
  proof (induction nm tok dec and nm fs dec and nm vs dec arbitrary: v d and v d and v d
      rule: decodeToken_decodeObject_decodeArray.pinduct)
    case (1 nm tok dec)
    then show ?case
      by (auto simp: decodeToken.psimps split: json_token.splits if_splits)
  next
    case (2 nm fs dec)
    note dom = "2.hyps" and IH = "2.IH" and eq = "2.prems"[unfolded decodeObject.psimps[OF "2.hyps"]]
    obtain tok dec1 where t1: "dec_Token dec = (Inr tok, dec1)"
      using eq by (auto split: prod.splits sum.splits)
    note l1 = dec_Token_shorter[OF t1]
    show ?case
    proof (cases "tok = TDelim (CHR ''}'')")
      case True
      then show ?thesis using eq t1 l1 by simp
    next
      case False
      then obtain k where k: "tok = TString k" using eq t1 by (auto split: json_token.splits)
      obtain vtok dec2 where t2: "dec_Token dec1 = (Inr vtok, dec2)"
        using eq t1 False k by (auto split: prod.splits sum.splits)
      obtain w dec3 where t3: "decodeToken nm vtok dec2 = Some (w, dec3)"
        using eq t1 False k t2 by (auto split: option.splits)
      have "decodeObject nm (fs @ [(k, w)]) dec3 = Some (v, d)"
        using eq t1 False k t2 t3 by simp
      from IH(2)[OF t1[symmetric] refl False k t2[symmetric] refl t3 refl this]
        IH(1)[OF t1[symmetric] refl False k t2[symmetric] refl t3]
      show ?thesis using l1 dec_Token_shorter[OF t2] by simp
    qed
  next
    case (3 nm vs dec)
    note dom = "3.hyps" and IH = "3.IH" and eq = "3.prems"[unfolded decodeArray.psimps[OF "3.hyps"]]
    obtain tok dec1 where t1: "dec_Token dec = (Inr tok, dec1)"
      using eq by (auto split: prod.splits sum.splits)
    note l1 = dec_Token_shorter[OF t1]
    show ?case
    proof (cases "tok = TDelim (CHR '']'')")
      case True
      then show ?thesis using eq t1 l1 by simp
    next
      case False
      obtain w dec2 where t2: "decodeToken nm tok dec1 = Some (w, dec2)"
        using eq t1 False by (auto split: option.splits)
      have "decodeArray nm (vs @ [w]) dec2 = Some (v, d)"
        using eq t1 False t2 by simp
      from IH(2)[OF t1[symmetric] refl False t2 refl this] IH(1)[OF t1[symmetric] refl False t2]
      show ?thesis using l1 by simp
    qed
  qed
  show ?thesis
  proof (relation "measure (\<lambda>x. case x of
        Inl (nm, tok, dec) \<Rightarrow> 2 * length (buf dec) + 1
      | Inr (Inl (nm, fs, dec)) \<Rightarrow> 2 * length (buf dec)
      | Inr (Inr (nm, vs, dec)) \<Rightarrow> 2 * length (buf dec))")
  qed (auto dest!: dec_Token_shorter[OF sym] est(1))
qed

declare decodeToken.simps [simp del] decodeObject.simps [simp del] decodeArray.simps [simp del]

definition strictDecodeMode :: "string \<Rightarrow> numMode \<Rightarrow> jvalue option" where
  "strictDecodeMode s nm =
     (case dec_Token (NewDecoder s) of
        (Inl e, _) \<Rightarrow> None
      | (Inr tok, dec) \<Rightarrow>
          (case decodeToken nm tok dec of
             None \<Rightarrow> None
           | Some (v, dec1) \<Rightarrow> if fst (dec_Token dec1) = Inl JEOF then Some v else None))"

definition strictDecode :: "string \<Rightarrow> jvalue option" where
  "strictDecode s = strictDecodeMode s numModeLegacy"

section \<open>Well-formed and complete values\<close>

text \<open>\<open>every P v\<close>: the node predicate \<open>P\<close> holds of \<open>v\<close> and of all values below it.\<close>

fun every :: "(jvalue \<Rightarrow> bool) \<Rightarrow> jvalue \<Rightarrow> bool" where
  "every P (Value k b n s vs fs inc ser) =
     (P (Value k b n s vs fs inc ser) \<and> (\<forall>v \<in> set vs. every P v) \<and> (\<forall>f \<in> set fs. every P (snd f)))"

text \<open>A node uses the payload field of its kind and no other.\<close>

definition node_ok :: "jvalue \<Rightarrow> bool" where
  "node_ok v \<longleftrightarrow>
     (kind v \<noteq> valBool \<longrightarrow> \<not> boolV v) \<and> (kind v \<noteq> valNumber \<longrightarrow> numV v = [] \<and> \<not> numSerdeFloat v) \<and>
     (kind v \<noteq> valString \<longrightarrow> strV v = []) \<and> (kind v \<noteq> valArray \<longrightarrow> arrV v = []) \<and>
     (kind v \<noteq> valObject \<longrightarrow> objV v = [])"

definition final_node :: "jvalue \<Rightarrow> bool" where
  "final_node v \<longleftrightarrow> node_ok v \<and> \<not> incomplete v"

lemma every_mono: "every P v \<Longrightarrow> (\<And>x. P x \<Longrightarrow> Q x) \<Longrightarrow> every Q v"
  by (induction P v rule: every.induct) auto

lemma final_node_simps [simp]:
  "final_node (vNull)" "final_node (vBool b)" "final_node (Value valNumber False t [] [] [] False g)"
  "final_node (vString t inc) \<longleftrightarrow> \<not> inc" "final_node (vArray vs inc) \<longleftrightarrow> \<not> inc"
  "final_node (vObject fs inc) \<longleftrightarrow> \<not> inc"
  by (simp_all add: final_node_def node_ok_def)

lemma node_ok_simps [simp]:
  "node_ok (vNull)" "node_ok (vBool b)" "node_ok (Value valNumber False t [] [] [] inc g)"
  "node_ok (vString t inc)" "node_ok (vArray vs inc)" "node_ok (vObject fs inc)"
  by (simp_all add: node_ok_def)

lemma classifyScalar_final: "classifyScalar raw = Some v \<Longrightarrow> every final_node v"
  by (auto simp: classifyScalar_def Let_def split: if_splits)

lemma classifyScalarSerde_final: "classifyScalarSerde raw = Some v \<Longrightarrow> every final_node v"
  by (auto simp: classifyScalarSerde_def Let_def split: if_splits)

lemma classifyScalarMode_final: "classifyScalarMode raw nm = Some v \<Longrightarrow> every final_node v"
  by (auto simp: classifyScalarMode_def classifyScalar_final classifyScalarSerde_final split: if_splits)

lemma decode_final:
  "decodeToken nm tok dec = Some (v, d) \<Longrightarrow> every final_node v"
  "decodeObject nm fs dec = Some (v, d) \<Longrightarrow> \<forall>f \<in> set fs. every final_node (snd f) \<Longrightarrow> every final_node v"
  "decodeArray nm vs dec = Some (v, d) \<Longrightarrow> \<forall>u \<in> set vs. every final_node u \<Longrightarrow> every final_node v"
proof (induction nm tok dec and nm fs dec and nm vs dec arbitrary: v d and v d and v d
    rule: decodeToken_decodeObject_decodeArray.induct)
  case (1 nm tok dec)
  then show ?case
    by (auto simp: decodeToken.simps[of nm tok dec] split: json_token.splits if_splits)
next
  case (2 nm fs dec)
  note eq = "2.prems"(1)[unfolded decodeObject.simps[of nm fs dec]]
  obtain tok dec1 where t1: "dec_Token dec = (Inr tok, dec1)"
    using eq by (auto split: prod.splits sum.splits)
  show ?case
  proof (cases "tok = TDelim (CHR ''}'')")
    case True
    then show ?thesis using eq t1 "2.prems"(2) by auto
  next
    case False
    then obtain k where k: "tok = TString k" using eq t1 by (auto split: json_token.splits)
    obtain vtok dec2 where t2: "dec_Token dec1 = (Inr vtok, dec2)"
      using eq t1 False k by (auto split: prod.splits sum.splits)
    obtain w dec3 where t3: "decodeToken nm vtok dec2 = Some (w, dec3)"
      using eq t1 False k t2 by (auto split: option.splits)
    have eq': "decodeObject nm (fs @ [(k, w)]) dec3 = Some (v, d)"
      using eq t1 False k t2 t3 by simp
    have "every final_node w"
      by (rule "2.IH"(1)[OF t1[symmetric] refl False k t2[symmetric] refl t3])
    with "2.IH"(2)[OF t1[symmetric] refl False k t2[symmetric] refl t3 refl eq'] "2.prems"(2)
    show ?thesis by auto
  qed
next
  case (3 nm vs dec)
  note eq = "3.prems"(1)[unfolded decodeArray.simps[of nm vs dec]]
  obtain tok dec1 where t1: "dec_Token dec = (Inr tok, dec1)"
    using eq by (auto split: prod.splits sum.splits)
  show ?case
  proof (cases "tok = TDelim (CHR '']'')")
    case True
    then show ?thesis using eq t1 "3.prems"(2) by auto
  next
    case False
    obtain w dec2 where t2: "decodeToken nm tok dec1 = Some (w, dec2)"
      using eq t1 False by (auto split: option.splits)
    have eq': "decodeArray nm (vs @ [w]) dec2 = Some (v, d)"
      using eq t1 False t2 by simp
    have "every final_node w" by (rule "3.IH"(1)[OF t1[symmetric] refl False t2])
    with "3.IH"(2)[OF t1[symmetric] refl False t2 refl eq'] "3.prems"(2)
    show ?thesis by auto
  qed
qed

lemma strictDecodeMode_final: "strictDecodeMode s nm = Some v \<Longrightarrow> every final_node v"
  by (auto simp: strictDecodeMode_def split: prod.splits sum.splits option.splits if_splits
      dest: decode_final(1))

end
