(* ===== verification/Jsonish_Fix.thy ===== *)
theory Jsonish_Fix
  imports Jsonish_Value
begin

text \<open>
  The fixing parsers of the native output parser (\<^verbatim>\<open>src/internal/debaml/fix.go\<close>): \<open>fixParseMode\<close> for
  a finished text and \<open>streamFixMode\<close> for a text that is still arriving. The Go \<^verbatim>\<open>fixer\<close> is a cursor into
  a string; every method reads forwards from the cursor only, so the state of the fixer is the text
  from the cursor on. A method returns its value, or \<^const>\<open>None\<close> for \<^verbatim>\<open>errFixUnsupported\<close>, together with
  the cursor it leaves: a key that cannot be read leaves the cursor where it stopped, and the
  streaming parser goes on from there.
\<close>

section \<open>The cursor\<close>

type_synonym 'a fixed = "'a option \<times> string"

definition keyBailBytes :: string where
  "keyBailBytes = ''{}[],'' @ [CHR 0x22, CHR 0x27, CHR 0x60]"

definition scalarBailBytes :: string where
  "scalarBailBytes = ''{}[]:'' @ [CHR 0x22, CHR 0x27, CHR 0x60]"

definition objectValueTerm :: string where "objectValueTerm = '',}''"
definition arrayValueTerm :: string where "arrayValueTerm = '',]''"

definition skipWS :: "string \<Rightarrow> string" where
  "skipWS s = dropWhile (\<lambda>c. c = CHR 0x20 \<or> c = CHR 0x09 \<or> c = CHR 0x0A \<or> c = CHR 0x0D) s"

section \<open>Keys, strings and bare tokens\<close>

text \<open>The run of an unquoted key: it stops at a space or a colon; a structural byte declines.\<close>

fun key_run :: "string \<Rightarrow> string \<Rightarrow> string fixed" where
  "key_run k [] = (Some k, [])"
| "key_run k (c # s) =
     (if c = CHR '':'' \<or> json_space c then (Some k, c # s)
      else if contains_byte keyBailBytes c then (None, c # s)
      else key_run (k @ [c]) s)"

definition parseUnquotedKey :: "string \<Rightarrow> string fixed" where
  "parseUnquotedKey s =
     (case key_run [] s of
        (None, r) \<Rightarrow> (None, r)
      | (Some k, r) \<Rightarrow> (let key = trim_space k in if key = [] then (None, r) else (Some key, r)))"

text \<open>The run of an unquoted value: it stops at a space or a terminator of the enclosing collection.\<close>

fun scalar_run :: "string \<Rightarrow> string \<Rightarrow> string \<Rightarrow> string fixed" where
  "scalar_run tm k [] = (Some k, [])"
| "scalar_run tm k (c # s) =
     (if json_space c \<or> contains_byte tm c then (Some k, c # s)
      else if contains_byte scalarBailBytes c then (None, c # s)
      else scalar_run tm (k @ [c]) s)"

definition parseUnquotedScalar :: "numMode \<Rightarrow> string \<Rightarrow> string \<Rightarrow> jvalue fixed" where
  "parseUnquotedScalar nm tm s =
     (case scalar_run tm [] s of
        (None, r) \<Rightarrow> (None, r)
      | (Some raw, r) \<Rightarrow>
          if trim_space raw = [] then (None, r)
          else (case skipWS r of
                  [] \<Rightarrow> (None, [])
                | c # q \<Rightarrow>
                    if \<not> contains_byte tm c then (None, c # q)
                    else if tm = objectValueTerm \<and> c = CHR '','' \<and>
                            (q = [] \<or> (hd q \<noteq> CHR 0x20 \<and> hd q \<noteq> CHR 0x0A \<and> hd q \<noteq> CHR ''}''))
                    then (None, c # q)
                    else (classifyScalarMode raw nm, c # q)))"

text \<open>The cursor is at a backslash; the result is the content so far and the cursor after it.\<close>

definition decodeDoubleQuoteEscape :: "string \<Rightarrow> string \<Rightarrow> string \<times> string" where
  "decodeDoubleQuoteEscape sb s =
     (case tl s of
        [] \<Rightarrow> (sb @ [CHR 0x5C], [])
      | e # r \<Rightarrow>
          if e = CHR 0x22 then (sb @ [CHR 0x22], r)
          else if e = CHR 0x5C then (sb @ [CHR 0x5C], r)
          else if e = CHR ''n'' then (sb @ [CHR 0x0A], r)
          else if e = CHR ''t'' then (sb @ [CHR 0x09], r)
          else if e = CHR ''r'' then (sb @ [CHR 0x0D], r)
          else if e = CHR ''b'' then (sb @ [CHR 0x08], r)
          else if e = CHR ''f'' then (sb @ [CHR 0x0C], r)
          else (sb @ [CHR 0x5C], e # r))"

lemma decodeDoubleQuoteEscape_shorter:
  "s \<noteq> [] \<Longrightarrow> length (snd (decodeDoubleQuoteEscape sb s)) < length s"
  by (cases s) (auto simp: decodeDoubleQuoteEscape_def split: list.splits if_splits)

function double_loop :: "string \<Rightarrow> string \<Rightarrow> string fixed" where
  "double_loop sb s =
     (case s of
        [] \<Rightarrow> (None, [])
      | c # r \<Rightarrow>
          if c = CHR 0x5C then (let (sb', r') = decodeDoubleQuoteEscape sb s in double_loop sb' r')
          else if c = CHR 0x22 then (Some sb, r)
          else double_loop (sb @ [c]) r)"
  by pat_completeness auto
termination by (relation "measure (length \<circ> snd)") (use decodeDoubleQuoteEscape_shorter in \<open>fastforce+\<close>)

definition triple_quote :: string where
  "triple_quote = [CHR 0x22, CHR 0x22, CHR 0x22]"

definition parseDoubleQuoted :: "string \<Rightarrow> string fixed" where
  "parseDoubleQuoted s = (if has_prefix s triple_quote then (None, s) else double_loop [] (tl s))"

fun single_loop :: "string \<Rightarrow> string \<Rightarrow> string fixed" where
  "single_loop sb [] = (None, [])"
| "single_loop sb (c # s) =
     (if c = CHR 0x5C then (None, c # s)
      else if c = CHR 0x27 then (Some sb, s)
      else single_loop (sb @ [c]) s)"

definition parseSingleQuoted :: "string \<Rightarrow> string fixed" where
  "parseSingleQuoted s = single_loop [] (tl s)"

definition parseKey :: "string \<Rightarrow> string fixed" where
  "parseKey s =
     (case skipWS s of
        [] \<Rightarrow> (None, [])
      | c # r \<Rightarrow>
          if c = CHR 0x22 then parseDoubleQuoted (c # r)
          else if c = CHR 0x27 then parseSingleQuoted (c # r)
          else if c = CHR 0x60 then (None, c # r)
          else parseUnquotedKey (c # r))"

declare double_loop.simps [simp del]

subsection \<open>No method moves the cursor back\<close>

lemma skipWS_skip_space: "skipWS s = skip_space s"
  by (simp add: skipWS_def skip_space_def json_space_def[abs_def])

lemma length_skipWS [simp]: "length (skipWS s) \<le> length s"
  by (simp add: skipWS_skip_space length_skip_space)

lemma skipWS_shorter: "skipWS s = c # r \<Longrightarrow> length r < length s"
  using length_skipWS[of s] by simp

lemma key_run_not_longer: "key_run k s = (x, r) \<Longrightarrow> length r \<le> length s"
  by (induction k s rule: key_run.induct) (auto split: if_splits)

lemma parseUnquotedKey_not_longer: "parseUnquotedKey s = (x, r) \<Longrightarrow> length r \<le> length s"
  by (auto simp: parseUnquotedKey_def Let_def split: prod.splits option.splits if_splits
      dest!: key_run_not_longer)

lemma scalar_run_not_longer: "scalar_run tm k s = (x, r) \<Longrightarrow> length r \<le> length s"
  by (induction tm k s rule: scalar_run.induct) (auto split: if_splits)

lemma parseUnquotedScalar_not_longer: "parseUnquotedScalar nm tm s = (x, r) \<Longrightarrow> length r \<le> length s"
  by (auto simp: parseUnquotedScalar_def split: prod.splits option.splits list.splits if_splits
      dest!: scalar_run_not_longer intro: order_trans[OF _ order_trans[OF length_skipWS]])

lemma double_loop_not_longer: "double_loop sb s = (x, r) \<Longrightarrow> length r \<le> length s"
proof (induction sb s rule: double_loop.induct)
  case (1 sb s)
  show ?case
  proof (cases s)
    case (Cons c q)
    obtain sb' r' where e: "decodeDoubleQuoteEscape sb s = (sb', r')" by fastforce
    have "length r' < length s" using decodeDoubleQuoteEscape_shorter[of s sb] e Cons by simp
    then show ?thesis
      using "1.IH"(1)[OF Cons _ e[symmetric] refl] "1.IH"(2)[OF Cons] "1.prems" e Cons
      by (auto simp: double_loop.simps[of sb "c # q"] split: if_splits)
  qed (use "1.prems" in \<open>simp add: double_loop.simps\<close>)
qed

lemma parseDoubleQuoted_not_longer: "parseDoubleQuoted s = (x, r) \<Longrightarrow> length r \<le> length s"
  by (auto simp: parseDoubleQuoted_def split: if_splits dest!: double_loop_not_longer)

lemma single_loop_not_longer: "single_loop sb s = (x, r) \<Longrightarrow> length r \<le> length s"
  by (induction sb s rule: single_loop.induct) (auto split: if_splits)

lemma parseSingleQuoted_not_longer: "parseSingleQuoted s = (x, r) \<Longrightarrow> length r \<le> length s"
  by (auto simp: parseSingleQuoted_def dest!: single_loop_not_longer)

lemma parseKey_not_longer:
  assumes "parseKey s = (x, r)"
  shows "length r \<le> length s"
proof -
  have "length r \<le> length (skipWS s)"
  proof (cases "skipWS s")
    case (Cons c q)
    show ?thesis using assms unfolding parseKey_def Cons
      by (auto split: if_splits
          dest!: parseDoubleQuoted_not_longer parseSingleQuoted_not_longer parseUnquotedKey_not_longer)
  qed (use assms in \<open>simp add: parseKey_def\<close>)
  then show ?thesis using length_skipWS by (rule order_trans)
qed

section \<open>The parser of a finished text\<close>

text \<open>
  \<open>parseObject\<close> and \<open>parseArray\<close> are the loops of the code, entered behind the opening bracket with the
  fields and elements so far.
\<close>

function parseValue :: "numMode \<Rightarrow> string \<Rightarrow> string \<Rightarrow> jvalue fixed"
  and parseObject :: "numMode \<Rightarrow> (string \<times> jvalue) list \<Rightarrow> string \<Rightarrow> jvalue fixed"
  and parseArray :: "numMode \<Rightarrow> jvalue list \<Rightarrow> string \<Rightarrow> jvalue fixed" where
  "parseValue nm tm s =
     (case skipWS s of
        [] \<Rightarrow> (None, [])
      | c # r \<Rightarrow>
          if c = CHR ''{'' then parseObject nm [] r
          else if c = CHR ''['' then parseArray nm [] r
          else if c = CHR 0x22 then apfst (map_option (\<lambda>t. vString t False)) (parseDoubleQuoted (c # r))
          else if c = CHR 0x27 then apfst (map_option (\<lambda>t. vString t False)) (parseSingleQuoted (c # r))
          else if c = CHR 0x60 \<or> c = CHR ''/'' \<or> c = CHR ''#'' then (None, c # r)
          else parseUnquotedScalar nm tm (c # r))"
| "parseObject nm fs s =
     (case skipWS s of
        [] \<Rightarrow> (None, [])
      | c # r \<Rightarrow>
          if c = CHR ''}'' then (Some (vObject fs False), r)
          else if c = CHR '','' then parseObject nm fs r
          else
            (case parseKey (c # r) of
               (None, r1) \<Rightarrow> (None, r1)
             | (Some key, r1) \<Rightarrow>
                 (case skipWS r1 of
                    [] \<Rightarrow> (None, [])
                  | d # r2 \<Rightarrow>
                      if d \<noteq> CHR '':'' then (None, d # r2)
                      else
                        (case parseValue nm objectValueTerm r2 of
                           (None, r3) \<Rightarrow> (None, r3)
                         | (Some v, r3) \<Rightarrow>
                             (case skipWS r3 of
                                [] \<Rightarrow> (None, [])
                              | e # r4 \<Rightarrow>
                                  if e = CHR ''}'' then (Some (vObject (fs @ [(key, v)]) False), r4)
                                  else if e = CHR '','' then parseObject nm (fs @ [(key, v)]) r4
                                  else (None, e # r4))))))"
| "parseArray nm vs s =
     (case skipWS s of
        [] \<Rightarrow> (None, [])
      | c # r \<Rightarrow>
          if c = CHR '']'' then (Some (vArray vs False), r)
          else if c = CHR '','' then parseArray nm vs r
          else
            (case parseValue nm arrayValueTerm (c # r) of
               (None, r1) \<Rightarrow> (None, r1)
             | (Some v, r1) \<Rightarrow>
                 (case skipWS r1 of
                    [] \<Rightarrow> (None, [])
                  | e # r2 \<Rightarrow>
                      if e = CHR '']'' then (Some (vArray (vs @ [v]) False), r2)
                      else if e = CHR '','' then parseArray nm (vs @ [v]) r2
                      else (None, e # r2))))"
  by pat_completeness auto
termination
proof -
  have est:
    "parseValue_parseObject_parseArray_dom (Inl (nm, tm, s)) \<Longrightarrow>
       parseValue nm tm s = (Some v, r) \<Longrightarrow> length r \<le> length s"
    "parseValue_parseObject_parseArray_dom (Inr (Inl (nm, fs, s))) \<Longrightarrow>
       parseObject nm fs s = (Some v, r) \<Longrightarrow> length r \<le> length s"
    "parseValue_parseObject_parseArray_dom (Inr (Inr (nm, vs, s))) \<Longrightarrow>
       parseArray nm vs s = (Some v, r) \<Longrightarrow> length r \<le> length s"
    for nm tm fs vs s v r
  proof (induction nm tm s and nm fs s and nm vs s arbitrary: v r and v r and v r
      rule: parseValue_parseObject_parseArray.pinduct)
    case (1 nm tm s)
    note eq = "1.prems"[unfolded parseValue.psimps[OF "1.hyps"]]
    obtain c q where s: "skipWS s = c # q" using eq by (cases "skipWS s") auto
    have l: "length (c # q) \<le> length s" using length_skipWS[of s] s by simp
    have "length r \<le> length (c # q)"
      using eq "1.IH"(1)[OF s, of v r] "1.IH"(2)[OF s, of v r] unfolding s
      by (auto simp: apfst_def map_prod_def split: if_splits prod.splits dest!: parseDoubleQuoted_not_longer
          parseSingleQuoted_not_longer parseUnquotedScalar_not_longer)
    then show ?case using l by simp
  next
    case (2 nm fs s)
    note eq = "2.prems"[unfolded parseObject.psimps[OF "2.hyps"]]
    obtain c q where s: "skipWS s = c # q" using eq by (cases "skipWS s") auto
    have l: "length (c # q) \<le> length s" using length_skipWS[of s] s by simp
    consider "c = CHR ''}''" | "c = CHR '',''" | "c \<noteq> CHR ''}''" "c \<noteq> CHR '',''" by blast
    then show ?case
    proof cases
      case 1
      then show ?thesis using eq s l by simp
    next
      case 2
      then show ?thesis using eq s l "2.IH"(1)[OF s, of v r] by simp
    next
      case 3
      then obtain key r1 where k: "parseKey (c # q) = (Some key, r1)"
        using eq s by (auto split: prod.splits option.splits)
      obtain r2 where c: "skipWS r1 = CHR '':'' # r2"
        using eq s 3 k by (auto split: list.splits if_splits)
      obtain w r3 where pv: "parseValue nm objectValueTerm r2 = (Some w, r3)"
        using eq s 3 k c by (auto split: prod.splits option.splits)
      obtain e r4 where e: "skipWS r3 = e # r4" using eq s 3 k c pv by (auto split: list.splits)
      have l': "length r4 < length s"
        using l parseKey_not_longer[OF k] length_skipWS[of r1] length_skipWS[of r3] c e
          "2.IH"(2)[OF s 3 k[symmetric] refl c _ pv] by simp
      show ?thesis
        using eq s 3 k c pv e l' "2.IH"(3)[OF s 3 k[symmetric] refl c _ pv[symmetric] refl e, of v r]
        by (auto split: if_splits)
    qed
  next
    case (3 nm vs s)
    note eq = "3.prems"[unfolded parseArray.psimps[OF "3.hyps"]]
    obtain c q where s: "skipWS s = c # q" using eq by (cases "skipWS s") auto
    have l: "length (c # q) \<le> length s" using length_skipWS[of s] s by simp
    consider "c = CHR '']''" | "c = CHR '',''" | "c \<noteq> CHR '']''" "c \<noteq> CHR '',''" by blast
    then show ?case
    proof cases
      case 1
      then show ?thesis using eq s l by simp
    next
      case 2
      then show ?thesis using eq s l "3.IH"(1)[OF s, of v r] by simp
    next
      case 3
      then obtain w r1 where pv: "parseValue nm arrayValueTerm (c # q) = (Some w, r1)"
        using eq s by (auto split: prod.splits option.splits)
      obtain e r2 where e: "skipWS r1 = e # r2" using eq s 3 pv by (auto split: list.splits)
      have l': "length r2 < length s"
        using l length_skipWS[of r1] e "3.IH"(2)[OF s 3 pv] by simp
      show ?thesis
        using eq s 3 pv e l' "3.IH"(3)[OF s 3 pv[symmetric] refl e, of v r]
        by (auto split: if_splits)
    qed
  qed
  show ?thesis
  proof (relation "measure (\<lambda>x. case x of
        Inl (nm, tm, s) \<Rightarrow> 2 * length s
      | Inr (Inl (nm, fs, s)) \<Rightarrow> 2 * length s + 1
      | Inr (Inr (nm, vs, s)) \<Rightarrow> 2 * length s + 1)", goal_cases)
    case (5 nm fs s c r x y a d r2)
    then show ?case using length_skipWS[of s] length_skipWS[of y] parseKey_not_longer[of "c # r" x y] by simp
  next
    case (6 nm fs s c r x y a d r2 xa ya aa e r4)
    then show ?case
      using length_skipWS[of s] length_skipWS[of y] length_skipWS[of ya] parseKey_not_longer[of "c # r" x y]
        est(1)[of nm objectValueTerm r2 aa ya] by simp
  next
    case (9 nm vs s c r xa ya aa e r2)
    then show ?case
      using length_skipWS[of s] length_skipWS[of ya]
        est(1)[of nm arrayValueTerm "c # r" aa ya] by simp
  qed (auto dest!: skipWS_shorter)
qed

declare parseValue.simps [simp del] parseObject.simps [simp del] parseArray.simps [simp del]

definition fixParseMode :: "string \<Rightarrow> numMode \<Rightarrow> jvalue option" where
  "fixParseMode s nm =
     (case skipWS s of
        [] \<Rightarrow> None
      | c # r \<Rightarrow>
          if c \<noteq> CHR ''{'' \<and> c \<noteq> CHR ''['' then None
          else (case parseValue nm [] (c # r) of
                  (None, _) \<Rightarrow> None
                | (Some v, q) \<Rightarrow> if skipWS q = [] then Some v else None))"

definition fixParse :: "string \<Rightarrow> jvalue option" where
  "fixParse s = fixParseMode s numModeLegacy"

section \<open>The streaming parser\<close>

text \<open>The streaming string readers keep a string that the text ends in, as an incomplete value.\<close>

function double_loop_stream :: "string \<Rightarrow> string \<Rightarrow> jvalue fixed" where
  "double_loop_stream sb s =
     (case s of
        [] \<Rightarrow> (Some (vString sb True), [])
      | c # r \<Rightarrow>
          if c = CHR 0x5C then
            (if first_byte_is r (CHR 0x22) then (None, s)
             else (let (sb', r') = decodeDoubleQuoteEscape sb s in double_loop_stream sb' r'))
          else if c = CHR 0x22 then (Some (vString sb False), r)
          else double_loop_stream (sb @ [c]) r)"
  by pat_completeness auto
termination by (relation "measure (length \<circ> snd)") (use decodeDoubleQuoteEscape_shorter in \<open>fastforce+\<close>)

declare double_loop_stream.simps [simp del]

definition parseDoubleQuotedStream :: "string \<Rightarrow> jvalue fixed" where
  "parseDoubleQuotedStream s =
     (if has_prefix s triple_quote then (None, s) else double_loop_stream [] (tl s))"

fun single_loop_stream :: "string \<Rightarrow> string \<Rightarrow> jvalue fixed" where
  "single_loop_stream sb [] = (Some (vString sb True), [])"
| "single_loop_stream sb (c # s) =
     (if c = CHR 0x5C then (None, c # s)
      else if c = CHR 0x27 then (Some (vString sb False), s)
      else single_loop_stream (sb @ [c]) s)"

definition parseSingleQuotedStream :: "string \<Rightarrow> jvalue fixed" where
  "parseSingleQuotedStream s = single_loop_stream [] (tl s)"

definition string_key :: "jvalue fixed \<Rightarrow> string fixed" where
  "string_key x = (case x of
       (None, r) \<Rightarrow> (None, r)
     | (Some v, r) \<Rightarrow> if incomplete v then (None, r) else (Some (strV v), r))"

definition parseKeyStream :: "string \<Rightarrow> string fixed" where
  "parseKeyStream s =
     (case skipWS s of
        [] \<Rightarrow> (None, [])
      | c # r \<Rightarrow>
          if c = CHR 0x22 then string_key (parseDoubleQuotedStream (c # r))
          else if c = CHR 0x27 then string_key (parseSingleQuotedStream (c # r))
          else if c = CHR 0x60 then (None, c # r)
          else parseUnquotedKey (c # r))"

text \<open>\<^verbatim>\<open>strings.EqualFold\<close> against a lower-case ASCII word: besides the two cases of a letter, the long s
  (U+017F) folds to s and the Kelvin sign (U+212A) to k.\<close>

fun fold_ascii :: "string \<Rightarrow> string" where
  "fold_ascii [] = []"
| "fold_ascii (c # s) =
     (if c = CHR 0xC5 \<and> first_byte_is s (CHR 0xBF) then CHR ''s'' # fold_ascii (tl s)
      else if c = CHR 0xE2 \<and> has_prefix s [CHR 0x84, CHR 0xAA] then CHR ''k'' # fold_ascii (drop 2 s)
      else lower_byte c # fold_ascii s)"

definition isPossibleUnquotedValue :: "string \<Rightarrow> bool" where
  "isPossibleUnquotedValue span =
     (let s = trim_space span in
      parse_float s \<noteq> None \<or> fold_ascii s \<in> {''true'', ''false'', ''null''} \<or>
      \<not> (contains_byte span (CHR 0x20) \<or> contains_byte span (CHR ''('')))"

text \<open>The greedy scan of an unquoted object value: the span so far, the cursor, and the result.\<close>

fun greedy_loop :: "string \<Rightarrow> string \<Rightarrow> jvalue fixed" where
  "greedy_loop span [] = (Some (vString span True), [])"
| "greedy_loop span (c # s) =
     (if c = CHR '','' then
        (if s = [] \<or> hd s = CHR 0x0A then (Some (vString span False), c # s)
         else if hd s = CHR 0x20 then
           (if isPossibleUnquotedValue span then (Some (vString span False), c # s) else (None, c # s))
         else greedy_loop (span @ [c]) s)
      else if c = CHR ''}'' then (Some (vString span False), c # s)
      else greedy_loop (span @ [c]) s)"

text \<open>\<open>start\<close> is the text from the first byte of the value on, \<open>s\<close> the text from the cursor on.\<close>

definition greedyObjectValueTail :: "string \<Rightarrow> string \<Rightarrow> jvalue fixed" where
  "greedyObjectValueTail start s =
     (case greedy_loop (take (length start - length s) start) s of
        (None, _) \<Rightarrow> (None, s)
      | (Some v, r) \<Rightarrow> (Some v, r))"

definition parseUnquotedScalarStream :: "numMode \<Rightarrow> string \<Rightarrow> string \<Rightarrow> jvalue fixed" where
  "parseUnquotedScalarStream nm tm s =
     (case scalar_run tm [] s of
        (None, r) \<Rightarrow> (None, r)
      | (Some raw, r) \<Rightarrow>
          if trim_space raw = [] then (None, r)
          else (case skipWS r of
                  [] \<Rightarrow> (case classifyScalarMode raw nm of
                           None \<Rightarrow> (Some (vString raw True), [])
                         | Some v \<Rightarrow> (Some (set_incomplete v), []))
                | c # q \<Rightarrow>
                    if \<not> contains_byte tm c then (None, c # q)
                    else if tm = objectValueTerm \<and> c = CHR '','' \<and>
                            q \<noteq> [] \<and> hd q \<noteq> CHR 0x20 \<and> hd q \<noteq> CHR 0x0A \<and> hd q \<noteq> CHR ''}''
                    then greedyObjectValueTail s (c # q)
                    else (classifyScalarMode raw nm, c # q)))"

subsection \<open>No streaming method moves the cursor back\<close>

lemma double_loop_stream_not_longer: "double_loop_stream sb s = (x, r) \<Longrightarrow> length r \<le> length s"
proof (induction sb s rule: double_loop_stream.induct)
  case (1 sb s)
  show ?case
  proof (cases s)
    case (Cons c q)
    obtain sb' r' where e: "decodeDoubleQuoteEscape sb s = (sb', r')" by fastforce
    have "length r' < length s" using decodeDoubleQuoteEscape_shorter[of s sb] e Cons by simp
    then show ?thesis
      using "1.IH"(1)[OF Cons _ _ e[symmetric] refl] "1.IH"(2)[OF Cons] "1.prems" e Cons
      by (auto simp: double_loop_stream.simps[of sb "c # q"] split: if_splits)
  qed (use "1.prems" in \<open>simp add: double_loop_stream.simps\<close>)
qed

lemma parseDoubleQuotedStream_not_longer: "parseDoubleQuotedStream s = (x, r) \<Longrightarrow> length r \<le> length s"
  by (auto simp: parseDoubleQuotedStream_def split: if_splits dest!: double_loop_stream_not_longer)

lemma single_loop_stream_not_longer: "single_loop_stream sb s = (x, r) \<Longrightarrow> length r \<le> length s"
  by (induction sb s rule: single_loop_stream.induct) (auto split: if_splits)

lemma parseSingleQuotedStream_not_longer: "parseSingleQuotedStream s = (x, r) \<Longrightarrow> length r \<le> length s"
  by (auto simp: parseSingleQuotedStream_def dest!: single_loop_stream_not_longer)

lemma string_key_cursor: "snd (string_key x) = snd x"
  by (auto simp: string_key_def split: prod.splits option.splits)

lemma parseKeyStream_not_longer:
  assumes "parseKeyStream s = (x, r)"
  shows "length r \<le> length s"
proof -
  have "length r \<le> length (skipWS s)"
  proof (cases "skipWS s")
    case (Cons c q)
    have "r = snd (parseKeyStream s)" using assms by simp
    then show ?thesis unfolding parseKeyStream_def Cons
      using parseDoubleQuotedStream_not_longer[OF prod.collapse[symmetric], of "c # q"]
        parseSingleQuotedStream_not_longer[OF prod.collapse[symmetric], of "c # q"]
        parseUnquotedKey_not_longer[OF prod.collapse[symmetric], of "c # q"]
      by (auto simp: string_key_cursor)
  qed (use assms in \<open>simp add: parseKeyStream_def\<close>)
  then show ?thesis using length_skipWS by (rule order_trans)
qed

lemma greedy_loop_not_longer: "greedy_loop span s = (x, r) \<Longrightarrow> length r \<le> length s"
  by (induction span s rule: greedy_loop.induct) (auto split: if_splits)

lemma greedyObjectValueTail_not_longer:
  "greedyObjectValueTail start s = (x, r) \<Longrightarrow> length r \<le> length s"
  by (auto simp: greedyObjectValueTail_def split: prod.splits option.splits dest!: greedy_loop_not_longer)

lemma parseUnquotedScalarStream_not_longer:
  assumes "parseUnquotedScalarStream nm tm s = (x, r)"
  shows "length r \<le> length s"
proof -
  obtain k q where k: "scalar_run tm [] s = (k, q)" by fastforce
  have "length r \<le> length q" using assms k length_skipWS[of q]
    by (auto simp: parseUnquotedScalarStream_def split: option.splits list.splits if_splits
        dest!: greedyObjectValueTail_not_longer dest: skipWS_shorter)
  then show ?thesis using scalar_run_not_longer[OF k] by simp
qed

subsection \<open>Values, objects and arrays\<close>

text \<open>
  \<open>parseValueStream\<close> is called at a byte that the caller has looked at, which is its argument \<open>c\<close>
  with the text \<open>r\<close> after it. \<open>parseObjectStream\<close> closes the object as incomplete at a key that it
  cannot read and leaves the cursor at the byte that stopped the key.
\<close>

function parseValueStream :: "numMode \<Rightarrow> string \<Rightarrow> char \<Rightarrow> string \<Rightarrow> jvalue fixed"
  and parseObjectStream :: "numMode \<Rightarrow> (string \<times> jvalue) list \<Rightarrow> string \<Rightarrow> jvalue fixed"
  and parseArrayStream :: "numMode \<Rightarrow> jvalue list \<Rightarrow> string \<Rightarrow> jvalue fixed" where
  "parseValueStream nm tm c r =
     (if c = CHR ''{'' then parseObjectStream nm [] r
      else if c = CHR ''['' then parseArrayStream nm [] r
      else if c = CHR 0x22 then parseDoubleQuotedStream (c # r)
      else if c = CHR 0x27 then parseSingleQuotedStream (c # r)
      else if c = CHR 0x60 \<or> c = CHR ''/'' \<or> c = CHR ''#'' then (None, c # r)
      else parseUnquotedScalarStream nm tm (c # r))"
| "parseObjectStream nm fs s =
     (case skipWS s of
        [] \<Rightarrow> (Some (vObject fs True), [])
      | c # r \<Rightarrow>
          if c = CHR ''}'' then (Some (vObject fs False), r)
          else if c = CHR '','' then parseObjectStream nm fs r
          else
            (case parseKeyStream (c # r) of
               (None, r1) \<Rightarrow> (Some (vObject fs True), r1)
             | (Some key, r1) \<Rightarrow>
                 (case skipWS r1 of
                    [] \<Rightarrow> (Some (vObject fs True), [])
                  | d # r2 \<Rightarrow>
                      if d \<noteq> CHR '':'' then (None, d # r2)
                      else
                        (case skipWS r2 of
                           [] \<Rightarrow> (Some (vObject fs True), [])
                         | b # q \<Rightarrow>
                             (case parseValueStream nm objectValueTerm b q of
                                (None, r3) \<Rightarrow> (None, r3)
                              | (Some v, r3) \<Rightarrow>
                                  (case skipWS r3 of
                                     [] \<Rightarrow> (Some (vObject (fs @ [(key, v)]) True), [])
                                   | e # r4 \<Rightarrow>
                                       if e = CHR ''}'' then (Some (vObject (fs @ [(key, v)]) False), r4)
                                       else if e = CHR '','' then parseObjectStream nm (fs @ [(key, v)]) r4
                                       else (None, e # r4)))))))"
| "parseArrayStream nm vs s =
     (case skipWS s of
        [] \<Rightarrow> (Some (vArray vs True), [])
      | c # r \<Rightarrow>
          if c = CHR '']'' then (Some (vArray vs False), r)
          else if c = CHR '','' then parseArrayStream nm vs r
          else if c = CHR ''/'' \<and> r = [] then (Some (vArray vs True), [])
          else
            (case parseValueStream nm arrayValueTerm c r of
               (None, r1) \<Rightarrow> (None, r1)
             | (Some v, r1) \<Rightarrow>
                 (case skipWS r1 of
                    [] \<Rightarrow> (Some (vArray (vs @ [v]) True), [])
                  | e # r2 \<Rightarrow>
                      if e = CHR '']'' then (Some (vArray (vs @ [v]) False), r2)
                      else if e = CHR '','' then parseArrayStream nm (vs @ [v]) r2
                      else (None, e # r2))))"
  by pat_completeness auto
termination
proof -
  have est:
    "parseValueStream_parseObjectStream_parseArrayStream_dom (Inl (nm, tm, c, s)) \<Longrightarrow>
       parseValueStream nm tm c s = (Some v, r) \<Longrightarrow> length r \<le> Suc (length s)"
    "parseValueStream_parseObjectStream_parseArrayStream_dom (Inr (Inl (nm, fs, s))) \<Longrightarrow>
       parseObjectStream nm fs s = (Some v, r) \<Longrightarrow> length r \<le> length s"
    "parseValueStream_parseObjectStream_parseArrayStream_dom (Inr (Inr (nm, vs, s))) \<Longrightarrow>
       parseArrayStream nm vs s = (Some v, r) \<Longrightarrow> length r \<le> length s"
    for nm tm c fs vs s v r
  proof (induction nm tm c s and nm fs s and nm vs s arbitrary: v r and v r and v r
      rule: parseValueStream_parseObjectStream_parseArrayStream.pinduct)
    case (1 nm tm c s)
    note eq = "1.prems"[unfolded parseValueStream.psimps[OF "1.hyps"]]
    show ?case
      using eq "1.IH"(1)[of v r] "1.IH"(2)[of v r]
      by (auto split: if_splits dest!: parseDoubleQuotedStream_not_longer
          parseSingleQuotedStream_not_longer parseUnquotedScalarStream_not_longer)
  next
    case (2 nm fs s)
    note eq = "2.prems"[unfolded parseObjectStream.psimps[OF "2.hyps"]]
    show ?case
    proof (cases "skipWS s")
      case Nil
      then show ?thesis using eq by simp
    next
      case s: (Cons c q)
      have l: "length (c # q) \<le> length s" using length_skipWS[of s] s by simp
      consider "c = CHR ''}''" | "c = CHR '',''" | "c \<noteq> CHR ''}''" "c \<noteq> CHR '',''" by blast
      then show ?thesis
      proof cases
        case 1
        then show ?thesis using eq s l by simp
      next
        case 2
        then show ?thesis using eq s l "2.IH"(1)[OF s, of v r] by simp
      next
        case 3
        obtain ko r1 where k: "parseKeyStream (c # q) = (ko, r1)" by fastforce
        have l1: "length r1 \<le> length s" using parseKeyStream_not_longer[OF k] l by simp
        show ?thesis
        proof (cases "ko = None \<or> skipWS r1 = []")
          case True
          then show ?thesis using eq s 3 k l1 by (cases ko) auto
        next
          case False
          then obtain key d r2 where ko: "ko = Some key" and d: "skipWS r1 = d # r2"
            by (cases "skipWS r1") auto
          have colon: "\<not> d \<noteq> CHR '':''" using eq s 3 k ko d by (auto split: if_splits)
          show ?thesis
          proof (cases "skipWS r2")
            case Nil
            then show ?thesis using eq s 3 k ko d colon by simp
          next
            case b: (Cons b q2)
            obtain w r3 where pv: "parseValueStream nm objectValueTerm b q2 = (Some w, r3)"
              using eq s 3 k ko d colon b by (auto split: prod.splits option.splits)
            have l3: "length r3 < length s"
              using l1 length_skipWS[of r1] d skipWS_shorter[OF b]
                "2.IH"(2)[OF s 3 k[symmetric] ko d colon b pv] by simp
            show ?thesis
            proof (cases "skipWS r3")
              case Nil
              then show ?thesis using eq s 3 k ko d colon b pv by simp
            next
              case (Cons e r4)
              then show ?thesis
                using eq s 3 k ko d colon b pv l3 skipWS_shorter[OF Cons]
                  "2.IH"(3)[OF s 3 k[symmetric] ko d colon b pv[symmetric] refl Cons, of v r]
                by (auto split: if_splits)
            qed
          qed
        qed
      qed
    qed
  next
    case (3 nm vs s)
    note eq = "3.prems"[unfolded parseArrayStream.psimps[OF "3.hyps"]]
    show ?case
    proof (cases "skipWS s")
      case Nil
      then show ?thesis using eq by simp
    next
      case s: (Cons c q)
      have l: "length (c # q) \<le> length s" using length_skipWS[of s] s by simp
      consider "c = CHR '']''" | "c = CHR '',''" | "c = CHR ''/'' \<and> q = []"
        | "c \<noteq> CHR '']''" "c \<noteq> CHR '',''" "\<not> (c = CHR ''/'' \<and> q = [])" by blast
      then show ?thesis
      proof cases
        case 1
        then show ?thesis using eq s l by simp
      next
        case 2
        then show ?thesis using eq s l "3.IH"(1)[OF s, of v r] by simp
      next
        case 3
        then show ?thesis using eq s by simp
      next
        case 4
        then obtain w r1 where pv: "parseValueStream nm arrayValueTerm c q = (Some w, r1)"
          using eq s by (auto split: prod.splits option.splits if_splits)
        have l1: "length r1 \<le> length s" using l "3.IH"(2)[OF s 4 pv] by simp
        show ?thesis
        proof (cases "skipWS r1")
          case Nil
          then show ?thesis using eq s 4 pv by (simp split: if_splits)
        next
          case (Cons e r2)
          then show ?thesis
            using eq s 4 pv l1 skipWS_shorter[OF Cons] "3.IH"(3)[OF s 4 pv[symmetric] refl Cons, of v r]
            by (auto split: if_splits)
        qed
      qed
    qed
  qed
  show ?thesis
  proof (relation "measure (\<lambda>x. case x of
        Inl (nm, tm, c, s) \<Rightarrow> 2 * length s + 2
      | Inr (Inl (nm, fs, s)) \<Rightarrow> 2 * length s + 1
      | Inr (Inr (nm, vs, s)) \<Rightarrow> 2 * length s + 1)", goal_cases)
    case (5 nm fs s c r x y a d r2 b q)
    then show ?case
      using length_skipWS[of s] length_skipWS[of y] length_skipWS[of r2] parseKeyStream_not_longer[of "c # r" x y]
      by simp
  next
    case (6 nm fs s c r x y a d r2 b q xa ya aa e r4)
    then show ?case
      using length_skipWS[of s] length_skipWS[of y] length_skipWS[of r2] length_skipWS[of ya]
        parseKeyStream_not_longer[of "c # r" x y] est(1)[of nm objectValueTerm b q aa ya]
      by simp
  next
    case (9 nm vs s c r xa ya aa e r2)
    then show ?case
      using length_skipWS[of s] length_skipWS[of ya]
        est(1)[of nm arrayValueTerm c r aa ya] by simp
  qed (auto dest!: skipWS_shorter)
qed

declare parseValueStream.simps [simp del] parseObjectStream.simps [simp del] parseArrayStream.simps [simp del]

definition streamFixMode :: "string \<Rightarrow> numMode \<Rightarrow> jvalue option" where
  "streamFixMode s nm =
     (case skipWS s of
        [] \<Rightarrow> None
      | c # r \<Rightarrow>
          if c \<noteq> CHR ''{'' \<and> c \<noteq> CHR ''['' then None
          else (case parseValueStream nm [] c r of
                  (None, _) \<Rightarrow> None
                | (Some v, q) \<Rightarrow> if skipWS q = [] then Some v else None))"

definition streamFix :: "string \<Rightarrow> jvalue option" where
  "streamFix s = streamFixMode s numModeLegacy"

end
