(* ===== verification/Jsonish_Grammar.thy ===== *)
theory Jsonish_Grammar
  imports Jsonish_Fix "HOL-Library.Sublist"
begin

text \<open>
  What the fixing parsers accept. \<open>reads_value\<close> is the derivation of a successful parse of a finished
  text; the parser computes exactly these derivations (\<open>parse_iff_reads\<close>), so a property of accepted
  texts is a rule induction. On it rest the type of the values and the agreement of the streaming
  parser with the final one.
\<close>

section \<open>Derivations\<close>

inductive reads_value :: "numMode \<Rightarrow> string \<Rightarrow> string \<Rightarrow> jvalue \<Rightarrow> string \<Rightarrow> bool"
  and reads_object :: "numMode \<Rightarrow> string \<Rightarrow> (string \<times> jvalue) list \<Rightarrow> string \<Rightarrow> bool"
  and reads_array :: "numMode \<Rightarrow> string \<Rightarrow> jvalue list \<Rightarrow> string \<Rightarrow> bool" where
  r_object: "skipWS s = CHR ''{'' # q \<Longrightarrow> reads_object nm q fs r \<Longrightarrow> reads_value nm tm s (vObject fs False) r"
| r_array: "skipWS s = CHR ''['' # q \<Longrightarrow> reads_array nm q vs r \<Longrightarrow> reads_value nm tm s (vArray vs False) r"
| r_double: "skipWS s = CHR 0x22 # q \<Longrightarrow> parseDoubleQuoted (CHR 0x22 # q) = (Some t, r) \<Longrightarrow>
     reads_value nm tm s (vString t False) r"
| r_single: "skipWS s = CHR 0x27 # q \<Longrightarrow> parseSingleQuoted (CHR 0x27 # q) = (Some t, r) \<Longrightarrow>
     reads_value nm tm s (vString t False) r"
| r_scalar: "skipWS s = c # q \<Longrightarrow> c \<notin> {CHR ''{'', CHR ''['', CHR 0x22, CHR 0x27, CHR 0x60, CHR ''/'', CHR ''#''} \<Longrightarrow>
     parseUnquotedScalar nm tm (c # q) = (Some v, r) \<Longrightarrow> reads_value nm tm s v r"
| r_object_end: "skipWS s = CHR ''}'' # r \<Longrightarrow> reads_object nm s [] r"
| r_object_comma: "skipWS s = CHR '','' # q \<Longrightarrow> reads_object nm q fs r \<Longrightarrow> reads_object nm s fs r"
| r_object_field: "skipWS s = c # q \<Longrightarrow> c \<notin> {CHR ''}'', CHR '',''} \<Longrightarrow> parseKey (c # q) = (Some key, r1) \<Longrightarrow>
     skipWS r1 = CHR '':'' # r2 \<Longrightarrow> reads_value nm objectValueTerm r2 v r3 \<Longrightarrow>
     skipWS r3 = e # r4 \<Longrightarrow> e \<in> {CHR ''}'', CHR '',''} \<Longrightarrow> reads_object nm r3 fs r \<Longrightarrow>
     reads_object nm s ((key, v) # fs) r"
| r_array_end: "skipWS s = CHR '']'' # r \<Longrightarrow> reads_array nm s [] r"
| r_array_comma: "skipWS s = CHR '','' # q \<Longrightarrow> reads_array nm q vs r \<Longrightarrow> reads_array nm s vs r"
| r_array_elem: "skipWS s = c # q \<Longrightarrow> c \<notin> {CHR '']'', CHR '',''} \<Longrightarrow> reads_value nm arrayValueTerm (c # q) v r1 \<Longrightarrow>
     skipWS r1 = e # r2 \<Longrightarrow> e \<in> {CHR '']'', CHR '',''} \<Longrightarrow> reads_array nm r1 vs r \<Longrightarrow>
     reads_array nm s (v # vs) r"

lemma apfst_map_Some: "apfst (map_option f) x = (Some v, r) \<longleftrightarrow> (\<exists>t. x = (Some t, r) \<and> v = f t)"
  by (cases x) auto

lemma parse_reads:
  "parseValue nm tm s = (Some v, r) \<Longrightarrow> reads_value nm tm s v r"
  "parseObject nm fs s = (Some v, r) \<Longrightarrow> \<exists>gs. v = vObject (fs @ gs) False \<and> reads_object nm s gs r"
  "parseArray nm vs s = (Some v, r) \<Longrightarrow> \<exists>ws. v = vArray (vs @ ws) False \<and> reads_array nm s ws r"
proof (induction nm tm s and nm fs s and nm vs s arbitrary: v r and v r and v r
    rule: parseValue_parseObject_parseArray.induct)
  case (1 nm tm s)
  note eq = "1.prems"[unfolded parseValue.simps[of nm tm s]]
  obtain c q where s: "skipWS s = c # q" using eq by (cases "skipWS s") auto
  show ?case
  proof (cases "c \<in> {CHR ''{'', CHR ''['', CHR 0x22, CHR 0x27, CHR 0x60, CHR ''/'', CHR ''#''}")
    case True
    then show ?thesis
      using eq s "1.IH"(1)[OF s, of v r] "1.IH"(2)[OF s, of v r]
      by (auto simp: apfst_map_Some intro: r_object r_array r_double r_single)
  next
    case False
    then show ?thesis using eq s r_scalar[OF s] by auto
  qed
next
  case (2 nm fs s)
  note eq = "2.prems"[unfolded parseObject.simps[of nm fs s]]
  obtain c q where s: "skipWS s = c # q" using eq by (cases "skipWS s") auto
  consider "c = CHR ''}''" | "c = CHR '',''" | "c \<noteq> CHR ''}''" "c \<noteq> CHR '',''" by blast
  then show ?case
  proof cases
    case 1
    then show ?thesis using eq s by (auto intro: r_object_end)
  next
    case 2
    then show ?thesis using eq s "2.IH"(1)[OF s, of v r] r_object_comma by auto
  next
    case 3
    then obtain key r1 where k: "parseKey (c # q) = (Some key, r1)"
      using eq s by (auto split: prod.splits option.splits)
    obtain r2 where c: "skipWS r1 = CHR '':'' # r2"
      using eq s 3 k by (auto split: list.splits if_splits)
    obtain w r3 where pv: "parseValue nm objectValueTerm r2 = (Some w, r3)"
      using eq s 3 k c by (auto split: prod.splits option.splits)
    obtain e r4 where e: "skipWS r3 = e # r4" using eq s 3 k c pv by (auto split: list.splits)
    have ee: "e \<in> {CHR ''}'', CHR '',''}" using eq s 3 k c pv e by (auto split: if_splits)
    note rv = "2.IH"(2)[OF s 3 k[symmetric] refl c _ pv, simplified]
    have "\<exists>gs. v = vObject ((fs @ [(key, w)]) @ gs) False \<and> reads_object nm r3 gs r"
      using eq s 3 k c pv e ee "2.IH"(3)[OF s 3 k[symmetric] refl c _ pv[symmetric] refl e, of v r]
        r_object_end[of r3 r4 nm] r_object_comma[of r3 r4 nm]
      by (auto split: if_splits)
    then show ?thesis using r_object_field[OF s _ k c rv e ee] 3 by auto
  qed
next
  case (3 nm vs s)
  note eq = "3.prems"[unfolded parseArray.simps[of nm vs s]]
  obtain c q where s: "skipWS s = c # q" using eq by (cases "skipWS s") auto
  consider "c = CHR '']''" | "c = CHR '',''" | "c \<noteq> CHR '']''" "c \<noteq> CHR '',''" by blast
  then show ?case
  proof cases
    case 1
    then show ?thesis using eq s by (auto intro: r_array_end)
  next
    case 2
    then show ?thesis using eq s "3.IH"(1)[OF s, of v r] r_array_comma by auto
  next
    case 3
    then obtain w r1 where pv: "parseValue nm arrayValueTerm (c # q) = (Some w, r1)"
      using eq s by (auto split: prod.splits option.splits)
    obtain e r2 where e: "skipWS r1 = e # r2" using eq s 3 pv by (auto split: list.splits)
    have ee: "e \<in> {CHR '']'', CHR '',''}" using eq s 3 pv e by (auto split: if_splits)
    note rv = "3.IH"(2)[OF s 3 pv]
    have "\<exists>ws. v = vArray ((vs @ [w]) @ ws) False \<and> reads_array nm r1 ws r"
      using eq s 3 pv e ee "3.IH"(3)[OF s 3 pv[symmetric] refl e, of v r]
        r_array_end[of r1 r2 nm] r_array_comma[of r1 r2 nm]
      by (auto split: if_splits)
    then show ?thesis using r_array_elem[OF s _ rv e ee] 3 by auto
  qed
qed


lemma reads_parse:
  "reads_value nm tm s v r \<Longrightarrow> parseValue nm tm s = (Some v, r)"
  "reads_object nm s gs r \<Longrightarrow> parseObject nm fs s = (Some (vObject (fs @ gs) False), r)"
  "reads_array nm s ws r \<Longrightarrow> parseArray nm vs s = (Some (vArray (vs @ ws) False), r)"
proof (induction nm tm s v r and nm s gs r and nm s ws r arbitrary: and fs and vs
    rule: reads_value_reads_object_reads_array.inducts)
  case (r_object_field s c q key r1 r2 nm v r3 e r4 gs r)
  have "parseObject nm (fs @ [(key, v)]) r3 = (Some (vObject ((fs @ [(key, v)]) @ gs) False), r)"
    by (rule r_object_field.IH)
  moreover have "parseObject nm (fs @ [(key, v)]) r3 =
      (if e = CHR ''}'' then (Some (vObject (fs @ [(key, v)]) False), r4) else parseObject nm (fs @ [(key, v)]) r4)"
    using r_object_field by (subst parseObject.simps) auto
  ultimately show ?case using r_object_field
    by (subst parseObject.simps) (auto split: if_splits)
next
  case (r_array_elem s c q nm v r1 e r2 ws r)
  have "parseArray nm (vs @ [v]) r1 = (Some (vArray ((vs @ [v]) @ ws) False), r)"
    by (rule r_array_elem.IH)
  moreover have "parseArray nm (vs @ [v]) r1 =
      (if e = CHR '']'' then (Some (vArray (vs @ [v]) False), r2) else parseArray nm (vs @ [v]) r2)"
    using r_array_elem by (subst parseArray.simps) auto
  ultimately show ?case using r_array_elem
    by (subst parseArray.simps) (auto split: if_splits)
qed (simp_all add: parseValue.simps parseObject.simps parseArray.simps)

lemma parse_iff_reads: "parseValue nm tm s = (Some v, r) \<longleftrightarrow> reads_value nm tm s v r"
  using parse_reads(1) reads_parse(1) by blast

definition top_byte :: "char \<Rightarrow> bool" where
  "top_byte c \<longleftrightarrow> c = CHR ''{'' \<or> c = CHR ''[''"

lemma fixParseMode_iff:
  "fixParseMode s nm = Some v \<longleftrightarrow>
     (\<exists>c q r. skipWS s = c # q \<and> top_byte c \<and> reads_value nm [] (c # q) v r \<and> skipWS r = [])"
  by (auto simp: fixParseMode_def top_byte_def parse_iff_reads[symmetric] split: list.splits prod.splits
      option.splits if_splits)

section \<open>The values of a final parse\<close>

lemma parseUnquotedScalar_final: "parseUnquotedScalar nm tm s = (Some v, r) \<Longrightarrow> every final_node v"
  by (auto simp: parseUnquotedScalar_def split: prod.splits option.splits list.splits if_splits
      dest: classifyScalarMode_final)

lemma reads_final:
  "reads_value nm tm s v r \<Longrightarrow> every final_node v"
  "reads_object nm s gs r \<Longrightarrow> \<forall>f \<in> set gs. every final_node (snd f)"
  "reads_array nm s ws r \<Longrightarrow> \<forall>u \<in> set ws. every final_node u"
  by (induction nm tm s v r and nm s gs r and nm s ws r
      rule: reads_value_reads_object_reads_array.inducts)
    (auto dest: parseUnquotedScalar_final)

lemma fixParseMode_final: "fixParseMode s nm = Some v \<Longrightarrow> every final_node v"
  by (auto simp: fixParseMode_iff dest: reads_final(1))

lemma reads_container:
  "reads_value nm tm s v r \<Longrightarrow> skipWS s = c # q \<Longrightarrow> top_byte c \<Longrightarrow> kind v \<in> {valObject, valArray}"
  by (cases rule: reads_value.cases) (auto simp: top_byte_def)

section \<open>Agreement of the two parsers\<close>

text \<open>\<open>no_escaped_quote s\<close>: no backslash of \<open>s\<close> is directly followed by a double quote.\<close>

fun no_escaped_quote :: "string \<Rightarrow> bool" where
  "no_escaped_quote [] = True"
| "no_escaped_quote (c # s) \<longleftrightarrow> \<not> (c = CHR 0x5C \<and> first_byte_is s (CHR 0x22)) \<and> no_escaped_quote s"

lemma no_escaped_quote_suffix: "suffix r s \<Longrightarrow> no_escaped_quote s \<Longrightarrow> no_escaped_quote r"
  by (induction s) (auto simp: suffix_Cons)

text \<open>Every reader leaves a suffix of its text.\<close>

lemma skipWS_suffix: "suffix (skipWS s) s"
  by (simp add: skipWS_def suffix_dropWhile)

lemma decodeDoubleQuoteEscape_suffix: "s \<noteq> [] \<Longrightarrow> suffix (snd (decodeDoubleQuoteEscape sb s)) s"
  by (cases s) (auto simp: decodeDoubleQuoteEscape_def suffix_Cons split: list.splits)

lemma double_loop_suffix: "double_loop sb s = (x, r) \<Longrightarrow> suffix r s"
proof (induction sb s rule: double_loop.induct)
  case (1 sb s)
  show ?case
  proof (cases s)
    case (Cons c q)
    obtain sb' r' where e: "decodeDoubleQuoteEscape sb s = (sb', r')" by fastforce
    have "suffix r' s" using decodeDoubleQuoteEscape_suffix[of s sb] e Cons by simp
    then show ?thesis
      using "1.IH"(1)[OF Cons _ e[symmetric] refl] "1.IH"(2)[OF Cons] "1.prems" e Cons
      by (auto simp: double_loop.simps[of sb "c # q"] suffix_ConsI split: if_splits
          dest: suffix_order.trans)
  qed (use "1.prems" in \<open>simp add: double_loop.simps\<close>)
qed

lemma single_loop_suffix: "single_loop sb s = (x, r) \<Longrightarrow> suffix r s"
  by (induction sb s rule: single_loop.induct) (auto simp: suffix_ConsI split: if_splits)

lemma key_run_suffix: "key_run k s = (x, r) \<Longrightarrow> suffix r s"
  by (induction k s rule: key_run.induct) (auto simp: suffix_ConsI split: if_splits)

lemma scalar_run_suffix: "scalar_run tm k s = (x, r) \<Longrightarrow> suffix r s"
  by (induction tm k s rule: scalar_run.induct) (auto simp: suffix_ConsI split: if_splits)

lemma tl_suffix: "suffix (tl s) s"
  by (cases s) (auto simp: suffix_ConsI)

lemma parseDoubleQuoted_suffix: "parseDoubleQuoted s = (x, r) \<Longrightarrow> suffix r s"
  by (auto simp: parseDoubleQuoted_def split: if_splits dest!: double_loop_suffix
      intro: suffix_order.trans tl_suffix)

lemma parseSingleQuoted_suffix: "parseSingleQuoted s = (x, r) \<Longrightarrow> suffix r s"
  by (auto simp: parseSingleQuoted_def dest!: single_loop_suffix intro: suffix_order.trans tl_suffix)

lemma parseUnquotedKey_suffix: "parseUnquotedKey s = (x, r) \<Longrightarrow> suffix r s"
  by (auto simp: parseUnquotedKey_def Let_def split: prod.splits option.splits if_splits
      dest!: key_run_suffix)

lemma parseKey_suffix:
  assumes "parseKey s = (x, r)"
  shows "suffix r s"
proof -
  have "suffix r (skipWS s)"
  proof (cases "skipWS s")
    case (Cons c q)
    show ?thesis using assms unfolding parseKey_def Cons
      by (auto split: if_splits
          dest!: parseDoubleQuoted_suffix parseSingleQuoted_suffix parseUnquotedKey_suffix)
  qed (use assms in \<open>simp add: parseKey_def\<close>)
  then show ?thesis using skipWS_suffix by (rule suffix_order.trans)
qed

lemma parseUnquotedScalar_suffix:
  assumes "parseUnquotedScalar nm tm s = (Some v, r)"
  shows "suffix r s"
proof -
  obtain k q where k: "scalar_run tm [] s = (k, q)" by fastforce
  have "r = skipWS q" using assms k
    by (auto simp: parseUnquotedScalar_def split: option.splits list.splits if_splits)
  then show ?thesis using skipWS_suffix scalar_run_suffix[OF k] by (metis suffix_order.trans)
qed

lemma skipWS_Cons_suffix: "skipWS s = c # q \<Longrightarrow> suffix q s"
  using skipWS_suffix[of s] by (metis suffix_ConsD)

lemma reads_suffix:
  "reads_value nm tm s v r \<Longrightarrow> suffix r s"
  "reads_object nm s gs r \<Longrightarrow> suffix r s"
  "reads_array nm s ws r \<Longrightarrow> suffix r s"
proof (induction nm tm s v r and nm s gs r and nm s ws r
      rule: reads_value_reads_object_reads_array.inducts)
  case (r_object_field s c q key r1 r2 nm v r3 e r4 fs r)
  have "suffix r2 s"
    using skipWS_suffix[of s] parseKey_suffix[OF r_object_field.hyps(3)] skipWS_Cons_suffix[OF r_object_field.hyps(4)]
      r_object_field.hyps(1) by (metis suffix_order.trans)
  then show ?case using r_object_field.IH by (metis suffix_order.trans)
next
  case (r_array_elem s c q nm v r1 e r2 vs r)
  then show ?case using skipWS_suffix[of s] by (metis suffix_order.trans)
qed (metis suffix_order.trans skipWS_Cons_suffix skipWS_suffix parseDoubleQuoted_suffix
    parseSingleQuoted_suffix parseUnquotedScalar_suffix)+

lemma double_loop_agrees:
  "double_loop sb s = (Some t, r) \<Longrightarrow> no_escaped_quote s \<Longrightarrow>
     double_loop_stream sb s = (Some (vString t False), r)"
proof (induction sb s rule: double_loop.induct)
  case (1 sb s)
  show ?case
  proof (cases s)
    case (Cons c q)
    obtain sb' r' where e: "decodeDoubleQuoteEscape sb s = (sb', r')" by fastforce
    have "suffix r' s" using decodeDoubleQuoteEscape_suffix[of s sb] e Cons by simp
    then have "no_escaped_quote r'" using no_escaped_quote_suffix "1.prems"(2) by blast
    then show ?thesis
      using "1.IH"(1)[OF Cons _ e[symmetric] refl] "1.IH"(2)[OF Cons] "1.prems" e Cons
      by (auto simp: double_loop.simps[of sb "c # q"] double_loop_stream.simps[of sb "c # q"] split: if_splits)
  qed (use "1.prems" in \<open>simp add: double_loop.simps\<close>)
qed

lemma single_loop_agrees:
  "single_loop sb s = (Some t, r) \<Longrightarrow> single_loop_stream sb s = (Some (vString t False), r)"
  by (induction sb s rule: single_loop.induct) (auto split: if_splits)

lemma parseDoubleQuoted_agrees:
  "parseDoubleQuoted s = (Some t, r) \<Longrightarrow> no_escaped_quote s \<Longrightarrow>
     parseDoubleQuotedStream s = (Some (vString t False), r)"
  by (auto simp: parseDoubleQuoted_def parseDoubleQuotedStream_def split: if_splits
      intro!: double_loop_agrees dest: no_escaped_quote_suffix[OF tl_suffix])

lemma parseSingleQuoted_agrees:
  "parseSingleQuoted s = (Some t, r) \<Longrightarrow> parseSingleQuotedStream s = (Some (vString t False), r)"
  by (simp add: parseSingleQuoted_def parseSingleQuotedStream_def single_loop_agrees)

lemma parseKey_agrees:
  assumes "parseKey s = (Some k, r)" and "no_escaped_quote s"
  shows "parseKeyStream s = (Some k, r)"
proof (cases "skipWS s")
  case (Cons c q)
  have "no_escaped_quote (c # q)"
    using no_escaped_quote_suffix[OF skipWS_suffix assms(2)] Cons by simp
  then show ?thesis using assms(1) unfolding parseKey_def parseKeyStream_def Cons
    by (auto simp: string_key_def dest!: parseDoubleQuoted_agrees parseSingleQuoted_agrees split: if_splits)
qed (use assms in \<open>simp add: parseKey_def\<close>)

lemma parseUnquotedScalar_agrees:
  "parseUnquotedScalar nm tm s = (Some v, r) \<Longrightarrow> parseUnquotedScalarStream nm tm s = (Some v, r)"
  by (auto simp: parseUnquotedScalar_def parseUnquotedScalarStream_def
      split: prod.splits option.splits list.splits if_splits)

lemma reads_value_starts:
  assumes "reads_value nm tm s v r"
  obtains c q where "skipWS s = c # q" "c \<notin> {CHR 0x60, CHR ''/'', CHR ''#''}"
  using assms by (cases rule: reads_value.cases) (auto intro: that)

lemma reads_agrees:
  "reads_value nm tm s v r \<Longrightarrow> no_escaped_quote s \<Longrightarrow> skipWS s = c # q \<Longrightarrow>
     parseValueStream nm tm c q = (Some v, r)"
  "reads_object nm s gs r \<Longrightarrow> no_escaped_quote s \<Longrightarrow>
     parseObjectStream nm fs s = (Some (vObject (fs @ gs) False), r)"
  "reads_array nm s ws r \<Longrightarrow> no_escaped_quote s \<Longrightarrow>
     parseArrayStream nm vs s = (Some (vArray (vs @ ws) False), r)"
proof (induction nm tm s v r and nm s gs r and nm s ws r arbitrary: c q and fs and vs
    rule: reads_value_reads_object_reads_array.inducts)
  case (r_double s q nm tm t r c q')
  then show ?case using no_escaped_quote_suffix[OF skipWS_suffix r_double.prems(1)]
    by (simp add: parseValueStream.simps parseDoubleQuoted_agrees)
next
  case (r_object_field s b q key r1 r2 nm v r3 e r4 gs r)
  have n: "no_escaped_quote (b # q)" "no_escaped_quote r1" "no_escaped_quote r2" "no_escaped_quote r3"
    using no_escaped_quote_suffix[OF skipWS_suffix r_object_field.prems]
      no_escaped_quote_suffix parseKey_suffix skipWS_Cons_suffix reads_suffix(1) r_object_field.hyps
    by metis+
  obtain d q2 where d: "skipWS r2 = d # q2" using reads_value_starts[OF r_object_field.hyps(5)] by metis
  have "parseObjectStream nm (fs @ [(key, v)]) r3 = (Some (vObject ((fs @ [(key, v)]) @ gs) False), r)"
    by (rule r_object_field.IH(2)[OF n(4)])
  moreover have "parseObjectStream nm (fs @ [(key, v)]) r3 =
      (if e = CHR ''}'' then (Some (vObject (fs @ [(key, v)]) False), r4)
       else parseObjectStream nm (fs @ [(key, v)]) r4)"
    using r_object_field.hyps by (subst parseObjectStream.simps) auto
  ultimately show ?case
    using r_object_field.hyps d r_object_field.IH(1)[OF n(3) d] parseKey_agrees[OF r_object_field.hyps(3) n(1)]
    by (subst parseObjectStream.simps) (auto split: if_splits)
next
  case (r_array_elem s b q nm v r1 e r2 ws r)
  have n: "no_escaped_quote (b # q)" "no_escaped_quote r1"
    using no_escaped_quote_suffix[OF skipWS_suffix r_array_elem.prems]
      no_escaped_quote_suffix reads_suffix(1) r_array_elem.hyps by metis+
  have b: "skipWS (b # q) = b # q"
    using r_array_elem.hyps(1) by (metis skipWS_skip_space skip_space_idem)
  then have "b \<noteq> CHR ''/''" using reads_value_starts[OF r_array_elem.hyps(3)] by auto
  have "parseArrayStream nm (vs @ [v]) r1 = (Some (vArray ((vs @ [v]) @ ws) False), r)"
    by (rule r_array_elem.IH(2)[OF n(2)])
  moreover have "parseArrayStream nm (vs @ [v]) r1 =
      (if e = CHR '']'' then (Some (vArray (vs @ [v]) False), r2)
       else parseArrayStream nm (vs @ [v]) r2)"
    using r_array_elem.hyps by (subst parseArrayStream.simps) auto
  ultimately show ?case
    using r_array_elem.hyps r_array_elem.IH(1)[OF n(1) b] \<open>b \<noteq> CHR ''/''\<close>
    by (subst parseArrayStream.simps) (auto split: if_splits)
next
  case (r_object_comma s q nm gs r fs)
  then show ?case using no_escaped_quote_suffix[OF skipWS_Cons_suffix]
    by (subst parseObjectStream.simps) simp
next
  case (r_array_comma s q nm ws r vs)
  then show ?case using no_escaped_quote_suffix[OF skipWS_Cons_suffix]
    by (subst parseArrayStream.simps) simp
next
  case (r_object s q nm gs r tm c q')
  then show ?case using no_escaped_quote_suffix[OF skipWS_Cons_suffix]
    by (simp add: parseValueStream.simps)
next
  case (r_array s q nm ws r tm c q')
  then show ?case using no_escaped_quote_suffix[OF skipWS_Cons_suffix]
    by (simp add: parseValueStream.simps)
qed (simp_all add: parseValueStream.simps parseObjectStream.simps parseArrayStream.simps
    parseSingleQuoted_agrees parseUnquotedScalar_agrees)

lemma fix_stream_agree:
  assumes "fixParseMode s nm = Some v" and "no_escaped_quote s"
  shows "streamFixMode s nm = Some v"
proof -
  obtain c q r where s: "skipWS s = c # q" and c: "top_byte c"
    and rv: "reads_value nm [] (c # q) v r" and r: "skipWS r = []"
    using assms(1) by (auto simp: fixParseMode_iff)
  have n: "no_escaped_quote (c # q)" using no_escaped_quote_suffix[OF skipWS_suffix assms(2)] s by simp
  have "skipWS (c # q) = c # q" using s by (metis skipWS_skip_space skip_space_idem)
  from reads_agrees(1)[OF rv n this] s c r show ?thesis
    by (auto simp: streamFixMode_def top_byte_def)
qed

section \<open>The values of a streaming parse\<close>

lemma final_node_ok: "every final_node v \<Longrightarrow> every node_ok v"
  by (erule every_mono) (simp add: final_node_def)

lemma set_incomplete_ok: "every node_ok v \<Longrightarrow> every node_ok (set_incomplete v)"
  by (cases v) (simp add: set_incomplete_def node_ok_def)

lemma double_loop_stream_ok: "double_loop_stream sb s = (Some v, r) \<Longrightarrow> every node_ok v"
proof (induction sb s rule: double_loop_stream.induct)
  case (1 sb s)
  show ?case
  proof (cases s)
    case (Cons c q)
    obtain sb' r' where e: "decodeDoubleQuoteEscape sb s = (sb', r')" by fastforce
    show ?thesis
      using "1.IH"(1)[OF Cons _ _ e[symmetric] refl] "1.IH"(2)[OF Cons] "1.prems" e Cons
      by (auto simp: double_loop_stream.simps[of sb "c # q"] split: if_splits)
  qed (use "1.prems" in \<open>auto simp: double_loop_stream.simps\<close>)
qed

lemma single_loop_stream_ok: "single_loop_stream sb s = (Some v, r) \<Longrightarrow> every node_ok v"
  by (induction sb s rule: single_loop_stream.induct) (auto split: if_splits)

lemma greedy_loop_ok: "greedy_loop span s = (Some v, r) \<Longrightarrow> every node_ok v"
  by (induction span s rule: greedy_loop.induct) (auto split: if_splits)

lemma scalar_stream_ok: "parseUnquotedScalarStream nm tm s = (Some v, r) \<Longrightarrow> every node_ok v"
  by (auto simp: parseUnquotedScalarStream_def greedyObjectValueTail_def
      split: prod.splits option.splits list.splits if_splits
      dest: greedy_loop_ok intro: set_incomplete_ok final_node_ok classifyScalarMode_final)

lemma stream_ok:
  "parseValueStream nm tm c s = (Some v, r) \<Longrightarrow> every node_ok v"
  "parseObjectStream nm fs s = (Some v, r) \<Longrightarrow> \<forall>f \<in> set fs. every node_ok (snd f) \<Longrightarrow> every node_ok v"
  "parseArrayStream nm vs s = (Some v, r) \<Longrightarrow> \<forall>u \<in> set vs. every node_ok u \<Longrightarrow> every node_ok v"
proof (induction nm tm c s and nm fs s and nm vs s arbitrary: v r and v r and v r
    rule: parseValueStream_parseObjectStream_parseArrayStream.induct)
  case (1 nm tm c s)
  then show ?case
    by (auto simp: parseValueStream.simps[of nm tm c s] parseDoubleQuotedStream_def parseSingleQuotedStream_def
        split: if_splits dest: double_loop_stream_ok single_loop_stream_ok scalar_stream_ok)
next
  case (2 nm fs s)
  note eq = "2.prems"(1)[unfolded parseObjectStream.simps[of nm fs s]]
  from eq "2.prems"(2) "2.IH" show ?case
    by (auto split: list.splits if_splits prod.splits option.splits)
next
  case (3 nm vs s)
  note eq = "3.prems"(1)[unfolded parseArrayStream.simps[of nm vs s]]
  from eq "3.prems"(2) "3.IH" show ?case
    by (auto split: list.splits if_splits prod.splits option.splits)
qed

lemma streamFixMode_ok: "streamFixMode s nm = Some v \<Longrightarrow> every node_ok v"
  by (auto simp: streamFixMode_def split: list.splits prod.splits option.splits if_splits dest: stream_ok(1))

section \<open>Unreadable keys\<close>

definition bare_word :: "string \<Rightarrow> bool" where
  "bare_word w \<longleftrightarrow> w \<noteq> [] \<and> list_all (\<lambda>c. c \<noteq> CHR '':'' \<and> \<not> json_space c \<and> \<not> contains_byte keyBailBytes c) w"

lemma key_run_bail:
  assumes "list_all (\<lambda>c. c \<noteq> CHR '':'' \<and> \<not> json_space c \<and> \<not> contains_byte keyBailBytes c) w"
  shows "key_run k (w @ CHR '','' # r) = (None, CHR '','' # r)"
  using assms
  by (induction w arbitrary: k) (simp_all add: json_space_def keyBailBytes_def contains_byte_def)

lemma bare_word_key:
  assumes "bare_word w"
  shows "parseKey (w @ CHR '','' # r) = (None, CHR '','' # r)"
    "parseKeyStream (w @ CHR '','' # r) = (None, CHR '','' # r)"
proof -
  obtain c q where w: "w = c # q" using assms by (cases w) (auto simp: bare_word_def)
  have c: "\<not> json_space c" "c \<noteq> CHR 0x22" "c \<noteq> CHR 0x27" "c \<noteq> CHR 0x60"
    using assms w by (auto simp: bare_word_def keyBailBytes_def contains_byte_def)
  have "parseUnquotedKey (w @ CHR '','' # r) = (None, CHR '','' # r)"
    using assms key_run_bail[of w "[]" r] by (simp add: parseUnquotedKey_def bare_word_def)
  then show "parseKey (w @ CHR '','' # r) = (None, CHR '','' # r)"
    "parseKeyStream (w @ CHR '','' # r) = (None, CHR '','' # r)"
    using w c by (simp_all add: parseKey_def parseKeyStream_def skipWS_skip_space skip_space_Cons)
qed

lemma bare_word_object:
  assumes "bare_word w"
  shows "parseObject nm fs (w @ CHR '','' # r) = (None, CHR '','' # r)"
    "parseObjectStream nm fs (w @ CHR '','' # r) = (Some (vObject fs True), CHR '','' # r)"
proof -
  obtain c q where w: "w = c # q" using assms by (cases w) (auto simp: bare_word_def)
  then have "skipWS (w @ CHR '','' # r) = w @ CHR '','' # r" "c \<noteq> CHR ''}''" "c \<noteq> CHR '',''"
    using assms by (auto simp: bare_word_def keyBailBytes_def contains_byte_def skipWS_skip_space skip_space_Cons)
  then show "parseObject nm fs (w @ CHR '','' # r) = (None, CHR '','' # r)"
    "parseObjectStream nm fs (w @ CHR '','' # r) = (Some (vObject fs True), CHR '','' # r)"
    using w bare_word_key[OF assms, of r] by (simp_all add: parseObject.simps parseObjectStream.simps)
qed

text \<open>The text \<^verbatim>\<open>{"x":{w,"y":[]}\<close>.\<close>

definition nested_bad_key :: "string \<Rightarrow> string" where
  "nested_bad_key w = [CHR ''{'', CHR 0x22, CHR ''x'', CHR 0x22, CHR '':'', CHR ''{''] @ w @
     [CHR '','', CHR 0x22, CHR ''y'', CHR 0x22, CHR '':'', CHR ''['', CHR '']'', CHR ''}'']"

lemma quoted_key_stream:
  "c \<noteq> CHR 0x22 \<Longrightarrow> c \<noteq> CHR 0x5C \<Longrightarrow>
     parseKeyStream (CHR 0x22 # c # CHR 0x22 # r) = (Some [c], r)"
  "c \<noteq> CHR 0x22 \<Longrightarrow> c \<noteq> CHR 0x5C \<Longrightarrow> parseKey (CHR 0x22 # c # CHR 0x22 # r) = (Some [c], r)"
  by (simp_all add: parseKeyStream_def parseKey_def skipWS_def parseDoubleQuotedStream_def parseDoubleQuoted_def
      has_prefix_def triple_quote_def double_loop_stream.simps double_loop.simps string_key_def)

text \<open>C19: (error) An object that the streaming parser meets at a bare word with no colon is closed without
  consuming the rest of it, and the enclosing object goes on from there: in \<^verbatim>\<open>{"x":{w,"y":[]}\<close> the field
  \<^verbatim>\<open>y\<close> of the inner object becomes a field of the outer one, which is reported complete, with an
  incomplete value before a complete one. The final parser declines the text.\<close>

theorem stream_bad_key_reattributes:
  "bare_word w \<Longrightarrow>
     streamFixMode (nested_bad_key w) nm = Some (vObject [(''x'', vObject [] True), (''y'', vArray [] False)] False) \<and>
     fixParseMode (nested_bad_key w) nm = None"
  using bare_word_object[of w] quoted_key_stream
  by (simp add: nested_bad_key_def streamFixMode_def fixParseMode_def skipWS_def
      parseValueStream.simps parseObjectStream.simps[of _ _ "_ # _"] parseArrayStream.simps
      parseValue.simps parseObject.simps[of _ _ "_ # _"])


theorem stream_bad_key_reattributes_witness:
  "bare_word ''ab'' \<and> streamFix (nested_bad_key ''ab'') =
     Some (vObject [(''x'', vObject [] True), (''y'', vArray [] False)] False)"
proof -
  have "bare_word ''ab''" by (simp add: bare_word_def json_space_def keyBailBytes_def contains_byte_def)
  then show ?thesis using stream_bad_key_reattributes[of "''ab''" numModeLegacy] by (simp add: streamFix_def)
qed

end
