(* ===== verification/Jsonish_Source.thy ===== *)
theory Jsonish_Source
  imports Jsonish_Grammar
begin

text \<open>
  The repairs that the final parser of \<^verbatim>\<open>src/internal/debaml/fix.go\<close> accepts, as a specification of its
  own: the JSONish source texts with their layout, the value each stands for, and the theorem that the
  parser reads the printed text of a well-formed source as that value.
\<close>

section \<open>Source texts\<close>

text \<open>
  A source tree is a JSONish text with its layout: bare, double-quoted or single-quoted strings and
  keys, white space, and stray commas before an element, between elements and before the close.
  \<open>print\<close> is its text and \<open>mean\<close> the value it stands for.
\<close>

datatype skey = KBare string | KDouble string | KSingle string

datatype jsrc = SBare string | SDouble string | SSingle string | SArr jelems | SObj jfields
  and jelems = EEnd string | ELast string jsrc string | EMore string jsrc string jelems
  and jfields = FEnd string | FLast string skey string string jsrc string
    | FMore string skey string string jsrc string jfields

definition esc :: "string \<Rightarrow> string" where
  "esc t = concat (map (\<lambda>c. if c = CHR 0x22 \<or> c = CHR 0x5C then [CHR 0x5C, c] else [c]) t)"

definition dquoted :: "string \<Rightarrow> string" where
  "dquoted t = CHR 0x22 # esc t @ [CHR 0x22]"

definition squoted :: "string \<Rightarrow> string" where
  "squoted t = CHR 0x27 # t @ [CHR 0x27]"

fun print_key :: "skey \<Rightarrow> string" where
  "print_key (KBare k) = k"
| "print_key (KDouble k) = dquoted k"
| "print_key (KSingle k) = squoted k"

primrec print :: "jsrc \<Rightarrow> string" and print_elems :: "jelems \<Rightarrow> string" and print_fields :: "jfields \<Rightarrow> string" where
  "print (SBare t) = t"
| "print (SDouble t) = dquoted t"
| "print (SSingle t) = squoted t"
| "print (SArr es) = CHR ''['' # print_elems es"
| "print (SObj fs) = CHR ''{'' # print_fields fs"
| "print_elems (EEnd f) = f @ '']''"
| "print_elems (ELast f x w) = f @ print x @ w @ '']''"
| "print_elems (EMore f x w es) = f @ print x @ w @ '','' @ print_elems es"
| "print_fields (FEnd f) = f @ ''}''"
| "print_fields (FLast f k w1 w2 x w) = f @ print_key k @ w1 @ '':'' @ w2 @ print x @ w @ ''}''"
| "print_fields (FMore f k w1 w2 x w fs) = f @ print_key k @ w1 @ '':'' @ w2 @ print x @ w @ '','' @ print_fields fs"

fun mean_key :: "skey \<Rightarrow> string" where
  "mean_key (KBare k) = trim_space k"
| "mean_key (KDouble k) = k"
| "mean_key (KSingle k) = k"

primrec mean :: "numMode \<Rightarrow> jsrc \<Rightarrow> jvalue" and mean_elems :: "numMode \<Rightarrow> jelems \<Rightarrow> jvalue list"
  and mean_fields :: "numMode \<Rightarrow> jfields \<Rightarrow> (string \<times> jvalue) list" where
  "mean nm (SBare t) = the (classifyScalarMode t nm)"
| "mean nm (SDouble t) = vString t False"
| "mean nm (SSingle t) = vString t False"
| "mean nm (SArr es) = vArray (mean_elems nm es) False"
| "mean nm (SObj fs) = vObject (mean_fields nm fs) False"
| "mean_elems nm (EEnd f) = []"
| "mean_elems nm (ELast f x w) = [mean nm x]"
| "mean_elems nm (EMore f x w es) = mean nm x # mean_elems nm es"
| "mean_fields nm (FEnd f) = []"
| "mean_fields nm (FLast f k w1 w2 x w) = [(mean_key k, mean nm x)]"
| "mean_fields nm (FMore f k w1 w2 x w fs) = (mean_key k, mean nm x) # mean_fields nm fs"

text \<open>
  The side conditions. A bare key has no space, colon or structural byte; a bare token must be one
  that the mode classifies. A single-quoted string has neither its quote nor a backslash. Layout
  between elements is white space and commas; the comma after a bare field value is followed by a
  space, a line feed or the close, as the tokenizer's comma guard demands.
\<close>

definition space_only :: "string \<Rightarrow> bool" where
  "space_only w = list_all json_space w"

definition filler :: "string \<Rightarrow> bool" where
  "filler f = list_all (\<lambda>c. json_space c \<or> c = CHR '','') f"

definition single_ok :: "string \<Rightarrow> bool" where
  "single_ok t \<longleftrightarrow> \<not> contains_byte t (CHR 0x27) \<and> \<not> contains_byte t (CHR 0x5C)"

fun wf_key :: "skey \<Rightarrow> bool" where
  "wf_key (KBare k) \<longleftrightarrow> trim_space k \<noteq> [] \<and>
     list_all (\<lambda>c. c \<noteq> CHR '':'' \<and> \<not> json_space c \<and> \<not> contains_byte keyBailBytes c) k"
| "wf_key (KDouble k) = True"
| "wf_key (KSingle k) = single_ok k"

definition bare_ok :: "numMode \<Rightarrow> string \<Rightarrow> bool" where
  "bare_ok nm t \<longleftrightarrow> trim_space t \<noteq> [] \<and> classifyScalarMode t nm \<noteq> None \<and>
     list_all (\<lambda>c. \<not> json_space c \<and> c \<noteq> CHR '','' \<and> \<not> contains_byte scalarBailBytes c) t \<and>
     hd t \<noteq> CHR ''/'' \<and> hd t \<noteq> CHR ''#''"

fun is_bare :: "jsrc \<Rightarrow> bool" where
  "is_bare (SBare t) = True"
| "is_bare _ = False"

definition loose :: "string \<Rightarrow> bool" where
  "loose s \<longleftrightarrow> s \<noteq> [] \<and> (hd s = CHR 0x20 \<or> hd s = CHR 0x0A \<or> hd s = CHR ''}'')"

primrec wf_src :: "numMode \<Rightarrow> jsrc \<Rightarrow> bool" and wf_elems :: "numMode \<Rightarrow> jelems \<Rightarrow> bool"
  and wf_fields :: "numMode \<Rightarrow> jfields \<Rightarrow> bool" where
  "wf_src nm (SBare t) = bare_ok nm t"
| "wf_src nm (SDouble t) = True"
| "wf_src nm (SSingle t) = single_ok t"
| "wf_src nm (SArr es) = wf_elems nm es"
| "wf_src nm (SObj fs) = wf_fields nm fs"
| "wf_elems nm (EEnd f) = filler f"
| "wf_elems nm (ELast f x w) \<longleftrightarrow> filler f \<and> wf_src nm x \<and> space_only w"
| "wf_elems nm (EMore f x w es) \<longleftrightarrow> filler f \<and> wf_src nm x \<and> space_only w \<and> wf_elems nm es"
| "wf_fields nm (FEnd f) = filler f"
| "wf_fields nm (FLast f k w1 w2 x w) \<longleftrightarrow>
     filler f \<and> wf_key k \<and> space_only w1 \<and> space_only w2 \<and> wf_src nm x \<and> space_only w"
| "wf_fields nm (FMore f k w1 w2 x w fs) \<longleftrightarrow>
     filler f \<and> wf_key k \<and> space_only w1 \<and> space_only w2 \<and> wf_src nm x \<and> space_only w \<and>
     wf_fields nm fs \<and> (is_bare x \<longrightarrow> loose (print_fields fs))"

section \<open>Reading what is printed\<close>

lemma skipWS_space: "space_only w \<Longrightarrow> skipWS (w @ s) = skipWS s"
  by (induction w) (simp_all add: space_only_def skipWS_skip_space skip_space_Cons)

lemma skipWS_solid: "\<not> json_space c \<Longrightarrow> skipWS (c # s) = c # s"
  by (simp add: skipWS_skip_space skip_space_Cons)

lemma not_space [simp]: "\<not> json_space (CHR '':'')" "\<not> json_space (CHR '','')" "\<not> json_space (CHR '']'')"
  "\<not> json_space (CHR ''}'')" "\<not> json_space (CHR ''{'')" "\<not> json_space (CHR ''['')"
  "\<not> json_space (CHR 0x22)" "\<not> json_space (CHR 0x27)"
  by (simp_all add: json_space_def)

lemma reads_value_skip: "reads_value nm tm s v r \<Longrightarrow> skipWS s' = skipWS s \<Longrightarrow> reads_value nm tm s' v r"
  by (cases rule: reads_value.cases) (auto intro: reads_value_reads_object_reads_array.intros)

lemma reads_object_skip: "reads_object nm s gs r \<Longrightarrow> skipWS s' = skipWS s \<Longrightarrow> reads_object nm s' gs r"
  by (cases rule: reads_object.cases) (auto intro: reads_value_reads_object_reads_array.intros)

lemma reads_array_skip: "reads_array nm s vs r \<Longrightarrow> skipWS s' = skipWS s \<Longrightarrow> reads_array nm s' vs r"
  by (cases rule: reads_array.cases) (auto intro: reads_value_reads_object_reads_array.intros)

lemma reads_object_filler: "filler f \<Longrightarrow> reads_object nm s gs r \<Longrightarrow> reads_object nm (f @ s) gs r"
proof (induction f)
  case (Cons c f)
  show ?case
  proof (cases "json_space c")
    case True
    then have "skipWS ((c # f) @ s) = skipWS (f @ s)" by (simp add: skipWS_skip_space skip_space_Cons)
    then show ?thesis using Cons reads_object_skip by (simp add: filler_def)
  next
    case False
    then show ?thesis using Cons r_object_comma[OF skipWS_solid, of _ "f @ s"] by (auto simp: filler_def)
  qed
qed simp

lemma reads_array_filler: "filler f \<Longrightarrow> reads_array nm s vs r \<Longrightarrow> reads_array nm (f @ s) vs r"
proof (induction f)
  case (Cons c f)
  show ?case
  proof (cases "json_space c")
    case True
    then have "skipWS ((c # f) @ s) = skipWS (f @ s)" by (simp add: skipWS_skip_space skip_space_Cons)
    then show ?thesis using Cons reads_array_skip by (simp add: filler_def)
  next
    case False
    then show ?thesis using Cons r_array_comma[OF skipWS_solid, of _ "f @ s"] by (auto simp: filler_def)
  qed
qed simp

subsection \<open>Strings and keys\<close>

lemma double_loop_esc: "double_loop sb (esc t @ CHR 0x22 # r) = (Some (sb @ t), r)"
proof (induction t arbitrary: sb)
  case Nil
  show ?case by (simp add: esc_def double_loop.simps)
next
  case (Cons c t)
  then show ?case
    by (subst double_loop.simps) (auto simp: esc_def decodeDoubleQuoteEscape_def)
qed

lemma not_triple: "\<not> first_byte_is r (CHR 0x22) \<Longrightarrow> \<not> has_prefix (dquoted t @ r) triple_quote"
  by (cases t; cases r) (auto simp: dquoted_def triple_quote_def has_prefix_def esc_def first_byte_is_def)

lemma parseDoubleQuoted_print:
  "\<not> first_byte_is r (CHR 0x22) \<Longrightarrow> parseDoubleQuoted (dquoted t @ r) = (Some t, r)"
  using double_loop_esc[of "[]" t r] by (simp add: parseDoubleQuoted_def not_triple) (simp add: dquoted_def)

lemma single_loop_print: "single_ok t \<Longrightarrow> single_loop sb (t @ CHR 0x27 # r) = (Some (sb @ t), r)"
  by (induction t arbitrary: sb) (auto simp: single_ok_def contains_byte_def)

lemma parseSingleQuoted_print: "single_ok t \<Longrightarrow> parseSingleQuoted (squoted t @ r) = (Some t, r)"
  using single_loop_print[of t "[]" r] by (simp add: parseSingleQuoted_def squoted_def)

lemma key_run_print:
  assumes "list_all (\<lambda>c. c \<noteq> CHR '':'' \<and> \<not> json_space c \<and> \<not> contains_byte keyBailBytes c) k"
    and "space_only w"
  shows "key_run acc (k @ w @ CHR '':'' # r) = (Some (acc @ k), w @ CHR '':'' # r)"
  using assms(1)
proof (induction k arbitrary: acc)
  case Nil
  then show ?case using assms(2) by (cases w) (auto simp: space_only_def)
qed auto

lemma parseKey_print:
  assumes "wf_key k" and "space_only w"
  shows "parseKey (print_key k @ w @ CHR '':'' # r) = (Some (mean_key k), w @ CHR '':'' # r)"
proof (cases k)
  case (KBare t)
  then obtain c q where t: "t = c # q" using assms(1) by (cases t) auto
  then have c: "\<not> json_space c" "c \<noteq> CHR 0x22" "c \<noteq> CHR 0x27" "c \<noteq> CHR 0x60"
    using assms(1) KBare by (auto simp: keyBailBytes_def contains_byte_def)
  have "parseUnquotedKey (t @ w @ CHR '':'' # r) = (Some (trim_space t), w @ CHR '':'' # r)"
    using key_run_print[OF _ assms(2), of t "[]" r] assms(1) KBare by (simp add: parseUnquotedKey_def)
  then show ?thesis using KBare t c by (simp add: parseKey_def skipWS_solid)
next
  case (KDouble t)
  have "\<not> first_byte_is (w @ CHR '':'' # r) (CHR 0x22)"
    using assms(2) by (cases w) (auto simp: space_only_def first_byte_is_def)
  from parseDoubleQuoted_print[OF this, of t] KDouble show ?thesis
    by (simp add: parseKey_def dquoted_def skipWS_solid)
next
  case (KSingle t)
  with parseSingleQuoted_print[of t "w @ CHR '':'' # r"] assms(1) show ?thesis
    by (simp add: parseKey_def squoted_def skipWS_solid)
qed

subsection \<open>Values\<close>

lemma scalar_run_print:
  assumes "list_all (\<lambda>c. \<not> json_space c \<and> c \<noteq> CHR '','' \<and> \<not> contains_byte scalarBailBytes c) t"
    and "tm = objectValueTerm \<or> tm = arrayValueTerm" and "space_only w" and "contains_byte tm c"
  shows "scalar_run tm acc (t @ w @ c # q) = (Some (acc @ t), w @ c # q)"
  using assms(1)
proof (induction t arbitrary: acc)
  case Nil
  then show ?case using assms(3,4) by (cases w) (auto simp: space_only_def)
next
  case (Cons x t)
  then have "\<not> contains_byte tm x"
    using assms(2) by (auto simp: objectValueTerm_def arrayValueTerm_def scalarBailBytes_def contains_byte_def)
  then show ?case using Cons by simp
qed

lemma parseUnquotedScalar_print:
  assumes "bare_ok nm t" and "tm = objectValueTerm \<or> tm = arrayValueTerm" and "space_only w"
    and "contains_byte tm c" and "\<not> json_space c" and "tm = objectValueTerm \<Longrightarrow> c = CHR '','' \<Longrightarrow> loose q"
  shows "parseUnquotedScalar nm tm (t @ w @ c # q) = (Some (the (classifyScalarMode t nm)), c # q)"
proof -
  have "scalar_run tm [] (t @ w @ c # q) = (Some t, w @ c # q)"
    using scalar_run_print[OF _ assms(2,3,4), of t "[]" q] assms(1) by (simp add: bare_ok_def)
  moreover have "skipWS (w @ c # q) = c # q" using assms(3,5) by (simp add: skipWS_space skipWS_solid)
  ultimately show ?thesis using assms(1,4,6)
    by (auto simp: parseUnquotedScalar_def bare_ok_def loose_def)
qed

lemma bare_ok_hd:
  assumes "bare_ok nm t"
  obtains c q where "t = c # q"
    "c \<notin> {CHR ''{'', CHR ''['', CHR 0x22, CHR 0x27, CHR 0x60, CHR ''/'', CHR ''#'', CHR '']'', CHR ''}'', CHR '',''}"
    "\<not> json_space c"
  using assms by (cases t) (auto simp: bare_ok_def scalarBailBytes_def contains_byte_def intro: that)

lemma print_hd:
  assumes "wf_src nm x"
  obtains c q where "print x = c # q" "\<not> json_space c" "c \<notin> {CHR '']'', CHR ''}'', CHR '',''}"
proof (cases x)
  case (SBare t)
  with assms bare_ok_hd[of nm t] that show ?thesis by auto
qed (auto simp: dquoted_def squoted_def intro: that)

text \<open>What may follow an element or a field value: white space and a terminator of the collection.\<close>

definition follows :: "string \<Rightarrow> jsrc \<Rightarrow> string \<Rightarrow> char \<Rightarrow> string \<Rightarrow> bool" where
  "follows tm x w c q \<longleftrightarrow> space_only w \<and> contains_byte tm c \<and> c \<in> {CHR '','', CHR ''}'', CHR '']''} \<and>
     (is_bare x \<longrightarrow> tm = objectValueTerm \<longrightarrow> c = CHR '','' \<longrightarrow> loose q)"

lemma follows_not_quote: "follows tm x w c q \<Longrightarrow> \<not> first_byte_is (w @ c # q) (CHR 0x22)"
  by (cases w) (auto simp: follows_def space_only_def first_byte_is_def)

lemma elem_reads:
  assumes "filler f" and "wf_src nm x" and c: "c = CHR '','' \<or> c = CHR '']''"
    and v: "reads_value nm arrayValueTerm (print x @ w @ c # q) v r" "skipWS r = c # q"
    and vs: "reads_array nm (c # q) vs R"
  shows "reads_array nm (f @ print x @ w @ c # q) (v # vs) R"
proof -
  obtain b u where b: "print x = b # u" "\<not> json_space b" "b \<notin> {CHR '']'', CHR ''}'', CHR '',''}"
    by (rule print_hd[OF assms(2)])
  have "reads_array nm r vs R" by (rule reads_array_skip[OF vs]) (use v c in \<open>auto simp: skipWS_solid\<close>)
  then have "reads_array nm (print x @ w @ c # q) (v # vs) R"
    using b c v by (intro r_array_elem[of _ b "u @ w @ c # q" nm v r c q vs R]) (auto simp: skipWS_solid)
  then show ?thesis by (rule reads_array_filler[OF assms(1)])
qed

lemma key_hd:
  assumes "wf_key k"
  obtains c q where "print_key k = c # q" "\<not> json_space c" "c \<notin> {CHR ''}'', CHR '',''}"
proof (cases k)
  case (KBare t)
  with assms that show ?thesis by (cases t) (auto simp: keyBailBytes_def contains_byte_def)
qed (auto simp: dquoted_def squoted_def intro: that)

lemma field_reads:
  assumes "filler f" and "wf_key k" and "space_only w1" and "space_only w2" and c: "c = CHR '','' \<or> c = CHR ''}''"
    and v: "reads_value nm objectValueTerm (print x @ w @ c # q) v r" "skipWS r = c # q"
    and fs: "reads_object nm (c # q) fs R"
  shows "reads_object nm (f @ print_key k @ w1 @ CHR '':'' # w2 @ print x @ w @ c # q) ((mean_key k, v) # fs) R"
proof -
  obtain b u where b: "print_key k = b # u" "\<not> json_space b" "b \<notin> {CHR ''}'', CHR '',''}"
    by (rule key_hd[OF assms(2)])
  have k: "parseKey (print_key k @ w1 @ CHR '':'' # w2 @ print x @ w @ c # q) =
      (Some (mean_key k), w1 @ CHR '':'' # w2 @ print x @ w @ c # q)"
    by (rule parseKey_print[OF assms(2,3)])
  have v': "reads_value nm objectValueTerm (w2 @ print x @ w @ c # q) v r"
    by (rule reads_value_skip[OF v(1)]) (simp add: skipWS_space assms(4))
  have colon: "skipWS (w1 @ CHR '':'' # w2 @ print x @ w @ c # q) = CHR '':'' # w2 @ print x @ w @ c # q"
    using assms(3) by (simp add: skipWS_space skipWS_solid)
  have "reads_object nm r fs R" by (rule reads_object_skip[OF fs]) (use v c in \<open>auto simp: skipWS_solid\<close>)
  then have "reads_object nm (print_key k @ w1 @ CHR '':'' # w2 @ print x @ w @ c # q) ((mean_key k, v) # fs) R"
    using b c v(2) k v' colon
    by (intro r_object_field[of _ b "u @ w1 @ CHR '':'' # w2 @ print x @ w @ c # q" "mean_key k" _ _ nm v r c q fs R])
      (auto simp: skipWS_solid)
  then show ?thesis by (rule reads_object_filler[OF assms(1)])
qed

lemma print_reads:
  "wf_src nm x \<Longrightarrow> tm = objectValueTerm \<or> tm = arrayValueTerm \<Longrightarrow> follows tm x w c q \<Longrightarrow>
     \<exists>r. reads_value nm tm (print x @ w @ c # q) (mean nm x) r \<and> skipWS r = c # q"
  "wf_elems nm es \<Longrightarrow> reads_array nm (print_elems es @ R) (mean_elems nm es) R"
  "wf_fields nm fs \<Longrightarrow> reads_object nm (print_fields fs @ R) (mean_fields nm fs) R"
proof (induction x and es and fs arbitrary: tm w c q and R and R)
  case (SBare t)
  obtain b u where t: "t = b # u"
    "b \<notin> {CHR ''{'', CHR ''['', CHR 0x22, CHR 0x27, CHR 0x60, CHR ''/'', CHR ''#'', CHR '']'', CHR ''}'', CHR '',''}"
    "\<not> json_space b"
    using bare_ok_hd[of nm t] SBare.prems(1) by auto
  have c: "\<not> json_space c" using SBare.prems(3) by (auto simp: follows_def)
  have "parseUnquotedScalar nm tm (t @ w @ c # q) = (Some (the (classifyScalarMode t nm)), c # q)"
    by (rule parseUnquotedScalar_print) (use SBare.prems c in \<open>auto simp: follows_def\<close>)
  then have "reads_value nm tm (t @ w @ c # q) (the (classifyScalarMode t nm)) (c # q)"
    using t by (intro r_scalar[of _ b "u @ w @ c # q"]) (auto simp: skipWS_solid)
  then show ?case using c by (auto simp: skipWS_solid)
next
  case (SDouble t)
  have c: "\<not> json_space c" "space_only w" using SDouble.prems(3) by (auto simp: follows_def)
  have "reads_value nm tm (dquoted t @ w @ c # q) (vString t False) (w @ c # q)"
    using parseDoubleQuoted_print[OF follows_not_quote[OF SDouble.prems(3)], of t]
    by (intro r_double[of _ "tl (dquoted t @ w @ c # q)"]) (auto simp: dquoted_def skipWS_solid)
  then show ?case using c by (auto simp: skipWS_space skipWS_solid)
next
  case (SSingle t)
  have c: "\<not> json_space c" "space_only w" using SSingle.prems(3) by (auto simp: follows_def)
  have "reads_value nm tm (squoted t @ w @ c # q) (vString t False) (w @ c # q)"
    using parseSingleQuoted_print[of t "w @ c # q"] SSingle.prems(1)
    by (intro r_single[of _ "tl (squoted t @ w @ c # q)"]) (auto simp: squoted_def skipWS_solid)
  then show ?case using c by (auto simp: skipWS_space skipWS_solid)
next
  case (SArr es)
  have c: "\<not> json_space c" "space_only w" using SArr.prems(3) by (auto simp: follows_def)
  have "reads_value nm tm (print (SArr es) @ w @ c # q) (mean nm (SArr es)) (w @ c # q)"
    using SArr.IH[of "w @ c # q"] SArr.prems(1) by (auto intro!: r_array simp: skipWS_solid)
  then show ?case using c by (auto simp: skipWS_space skipWS_solid)
next
  case (SObj fs)
  have c: "\<not> json_space c" "space_only w" using SObj.prems(3) by (auto simp: follows_def)
  have "reads_value nm tm (print (SObj fs) @ w @ c # q) (mean nm (SObj fs)) (w @ c # q)"
    using SObj.IH[of "w @ c # q"] SObj.prems(1) by (auto intro!: r_object simp: skipWS_solid)
  then show ?case using c by (auto simp: skipWS_space skipWS_solid)
next
  case (EEnd f)
  then show ?case
    using reads_array_filler[of f nm "CHR '']'' # R" "[]" R] r_array_end[of "CHR '']'' # R" R nm]
    by (simp add: skipWS_solid)
next
  case (FEnd f)
  then show ?case
    using reads_object_filler[of f nm "CHR ''}'' # R" "[]" R] r_object_end[of "CHR ''}'' # R" R nm]
    by (simp add: skipWS_solid)
next
  case (ELast f x w)
  have "\<exists>r. reads_value nm arrayValueTerm (print x @ w @ CHR '']'' # R) (mean nm x) r \<and> skipWS r = CHR '']'' # R"
    by (rule ELast.IH) (use ELast.prems in \<open>auto simp: follows_def arrayValueTerm_def objectValueTerm_def contains_byte_def\<close>)
  then show ?case
    using elem_reads[of f nm x "CHR '']''" w R "mean nm x" _ "[]" R] ELast.prems
      r_array_end[of "CHR '']'' # R" R nm] by (auto simp: skipWS_solid)
next
  case (EMore f x w es)
  let ?q = "print_elems es @ R"
  have "\<exists>r. reads_value nm arrayValueTerm (print x @ w @ CHR '','' # ?q) (mean nm x) r \<and> skipWS r = CHR '','' # ?q"
    by (rule EMore.IH(1)) (use EMore.prems in \<open>auto simp: follows_def arrayValueTerm_def objectValueTerm_def contains_byte_def\<close>)
  then show ?case
    using elem_reads[of f nm x "CHR '',''" w ?q "mean nm x" _ "mean_elems nm es" R] EMore.prems
      r_array_comma[of "CHR '','' # ?q" ?q nm, OF _ EMore.IH(2)] by (auto simp: skipWS_solid)
next
  case (FLast f k w1 w2 x w)
  have "\<exists>r. reads_value nm objectValueTerm (print x @ w @ CHR ''}'' # R) (mean nm x) r \<and> skipWS r = CHR ''}'' # R"
    by (rule FLast.IH) (use FLast.prems in \<open>auto simp: follows_def objectValueTerm_def contains_byte_def\<close>)
  then show ?case
    using field_reads[of f k w1 w2 "CHR ''}''" nm x w R "mean nm x" _ "[]" R] FLast.prems
      r_object_end[of "CHR ''}'' # R" R nm] by (auto simp: skipWS_solid)
next
  case (FMore f k w1 w2 x w fs)
  let ?q = "print_fields fs @ R"
  have l: "is_bare x \<Longrightarrow> loose ?q" using FMore.prems by (cases "print_fields fs") (auto simp: loose_def)
  have "\<exists>r. reads_value nm objectValueTerm (print x @ w @ CHR '','' # ?q) (mean nm x) r \<and> skipWS r = CHR '','' # ?q"
    by (rule FMore.IH(1)) (use FMore.prems l in \<open>auto simp: follows_def objectValueTerm_def contains_byte_def\<close>)
  then show ?case
    using field_reads[of f k w1 w2 "CHR '',''" nm x w ?q "mean nm x" _ "mean_fields nm fs" R] FMore.prems
      r_object_comma[of "CHR '','' # ?q" ?q nm, OF _ FMore.IH(2)] by (auto simp: skipWS_solid)
qed

lemma source_reads:
  assumes "wf_src nm x" and "\<exists>es fs. x = SArr es \<or> x = SObj fs"
  shows "reads_value nm tm (print x @ R) (mean nm x) R"
  using assms print_reads(2,3)[of nm _ R] by (auto intro!: r_array r_object simp: skipWS_solid)

lemma fix_prints:
  assumes "wf_src nm x" and "\<exists>es fs. x = SArr es \<or> x = SObj fs" and "space_only w" and "space_only w'"
  shows "fixParseMode (w @ print x @ w') nm = Some (mean nm x)"
proof -
  obtain c q where c: "print x = c # q" "top_byte c" using assms(2) by (auto simp: top_byte_def)
  have "skipWS (w @ print x @ w') = c # q @ w'"
    using assms(3) c by (auto simp: skipWS_space skipWS_solid top_byte_def)
  moreover have "reads_value nm [] (c # q @ w') (mean nm x) w'"
    using source_reads[OF assms(1,2), of "[]" w'] c by simp
  moreover have "skipWS w' = []" using skipWS_space[OF assms(4), of "[]"] by (simp add: skipWS_skip_space)
  ultimately show ?thesis using c(2) by (auto simp: fixParseMode_iff)
qed


section \<open>The accepted repairs\<close>

text \<open>C12: (roundtrip) The final parser reads every well-formed source as the value it stands for: unquoted,
  single-quoted and double-quoted keys and strings with their escapes, bare scalars, white space, and leading,
  repeated and trailing commas, nested to any depth. Text around the source may only be white space. The comment of \<^verbatim>\<open>fixParse\<close> says that escapes
  inside double-quoted strings are declined; the code decodes them, and they are part of the sources here.\<close>

theorem fix_reads_source:
  "wf_src nm x \<Longrightarrow> x = SArr es \<or> x = SObj fs \<Longrightarrow> space_only w \<Longrightarrow> space_only w' \<Longrightarrow>
     fixParseMode (w @ print x @ w') nm = Some (mean nm x)"
  by (rule fix_prints) auto

text \<open>The source of \<^verbatim>\<open>{a: 1, , 'b':["x",]}\<close>.\<close>

definition demo_src :: jsrc where
  "demo_src = SObj (FMore [] (KBare ''a'') [] '' '' (SBare ''1'') []
     (FLast '' , '' (KSingle ''b'') [] [] (SArr (EMore [] (SDouble ''x'') [] (EEnd []))) []))"

lemma demo_src_wf: "wf_src numModeLegacy demo_src"
  by code_simp

lemma demo_src_mean:
  "mean numModeLegacy demo_src = vObject [(''a'', vNumber ''1''), (''b'', vArray [vString ''x'' False] False)] False"
  by code_simp

theorem fix_reads_source_witness:
  "wf_src numModeLegacy demo_src \<and>
   fixParse ('' '' @ print demo_src @ []) =
     Some (vObject [(''a'', vNumber ''1''), (''b'', vArray [vString ''x'' False] False)] False)"
proof -
  have s: "demo_src = SArr undefined \<or> demo_src = SObj (FMore [] (KBare ''a'') [] '' '' (SBare ''1'') []
     (FLast '' , '' (KSingle ''b'') [] [] (SArr (EMore [] (SDouble ''x'') [] (EEnd []))) []))"
    by (simp add: demo_src_def)
  have "space_only '' ''" "space_only []" by (simp_all add: space_only_def json_space_def)
  from fix_reads_source[OF demo_src_wf s this] show ?thesis
    unfolding fixParse_def demo_src_mean using demo_src_wf by (rule conjI[rotated])
qed

end
