(* ===== verification/Jsonish_Extract.thy ===== *)
theory Jsonish_Extract
  imports Jsonish_Source
begin

text \<open>
  Candidate extraction of the native output parser (\<^verbatim>\<open>src/internal/debaml/extract.go\<close>): the comment
  pre-pass, the fenced block, the first balanced span, and the order in which the final and the
  streaming extractor try them. Loops over an index read the text forwards, so they are recursions over
  the text that is left; an end index is represented by the text after it.
\<close>

section \<open>Comments\<close>

text \<open>The text after a block comment's opening, behind its close (or empty).\<close>

fun skip_block :: "string \<Rightarrow> string" where
  "skip_block [] = []"
| "skip_block (c # s) = (if c = CHR ''*'' \<and> first_byte_is s (CHR ''/'') then tl s else skip_block s)"

definition skip_line :: "string \<Rightarrow> string" where
  "skip_line s = dropWhile (\<lambda>c. c \<noteq> CHR 0x0A) s"

text \<open>A single quote opens a string only where a key, value or element can start.\<close>

definition structural_start :: "char \<Rightarrow> bool" where
  "structural_start l \<longleftrightarrow> l \<in> {CHR 0x00, CHR ''{'', CHR ''['', CHR '','', CHR '':''}"

lemma length_skip_block: "length (skip_block s) \<le> length s"
  by (induction s rule: skip_block.induct) auto

lemma length_skip_line: "length (skip_line s) \<le> length s"
  by (simp add: skip_line_def length_dropWhile_le)

text \<open>The scan: whether it is in a string, that string's quote, whether the last byte escapes the next
  one, the last significant byte outside strings, and the text that is left. The result is the output.\<close>

function strip_loop :: "bool \<Rightarrow> char \<Rightarrow> bool \<Rightarrow> char \<Rightarrow> string \<Rightarrow> string" where
  "strip_loop inStr strQuote escaped lastSig s =
     (case s of
        [] \<Rightarrow> []
      | c # r \<Rightarrow>
          if inStr then
            c # (if escaped then strip_loop True strQuote False lastSig r
                 else if c = CHR 0x5C then strip_loop True strQuote True lastSig r
                 else if c = strQuote then strip_loop False strQuote False c r
                 else strip_loop True strQuote False lastSig r)
          else if c = CHR 0x22 then c # strip_loop True (CHR 0x22) False lastSig r
          else if c = CHR 0x27 \<and> structural_start lastSig then c # strip_loop True (CHR 0x27) False lastSig r
          else if c = CHR ''/'' \<and> first_byte_is r (CHR ''*'') then
            CHR 0x20 # strip_loop False strQuote escaped lastSig (skip_block (tl r))
          else if c = CHR ''/'' \<and> first_byte_is r (CHR ''/'') then
            CHR 0x20 # strip_loop False strQuote escaped lastSig (skip_line (tl r))
          else c # strip_loop False strQuote escaped (if json_space c then lastSig else c) r)"
  by pat_completeness auto
termination
proof (relation "measure (\<lambda>(i, q, e, l, s). length s)", goal_cases)
  case (8 inStr q e l s c r)
  then show ?case using length_skip_block[of "tl r"] by simp
next
  case (9 inStr q e l s c r)
  then show ?case using length_skip_line[of "tl r"] by simp
qed auto

declare strip_loop.simps [simp del]

definition contains_str :: "string \<Rightarrow> string \<Rightarrow> bool" where
  "contains_str s t \<longleftrightarrow> list_ex (\<lambda>u. has_prefix u t) (suffixes s)"

definition stripJSONComments :: "string \<Rightarrow> string" where
  "stripJSONComments s =
     (if \<not> contains_str s ''/*'' \<and> \<not> contains_str s ''//'' then s
      else strip_loop False (CHR 0x00) False (CHR 0x00) s)"

section \<open>Fences\<close>

fun split_lines :: "string \<Rightarrow> string list" where
  "split_lines [] = [[]]"
| "split_lines (c # s) =
     (if c = CHR 0x0A then [] # split_lines s
      else (case split_lines s of [] \<Rightarrow> [[c]] | l # ls \<Rightarrow> (c # l) # ls))"

fun join_lines :: "string list \<Rightarrow> string" where
  "join_lines [] = []"
| "join_lines [l] = l"
| "join_lines (l # ls) = l @ CHR 0x0A # join_lines ls"

definition fence_line :: "string \<Rightarrow> bool" where
  "fence_line l = has_prefix (dropWhile (\<lambda>c. c = CHR 0x20 \<or> c = CHR 0x09) l) [CHR 0x60, CHR 0x60, CHR 0x60]"

text \<open>The lines behind the first fence line, if there is one.\<close>

definition after_fence :: "string list \<Rightarrow> string list option" where
  "after_fence ls = (case dropWhile (\<lambda>l. \<not> fence_line l) ls of [] \<Rightarrow> None | _ # rest \<Rightarrow> Some rest)"

definition extractFenceContent :: "string \<Rightarrow> string option" where
  "extractFenceContent raw =
     (case after_fence (split_lines raw) of
        None \<Rightarrow> None
      | Some rest \<Rightarrow>
          if list_ex fence_line rest then Some (join_lines (takeWhile (\<lambda>l. \<not> fence_line l) rest)) else None)"

definition extractFenceContentStream :: "string \<Rightarrow> string option" where
  "extractFenceContentStream raw =
     (case after_fence (split_lines raw) of
        None \<Rightarrow> None
      | Some rest \<Rightarrow> Some (join_lines (takeWhile (\<lambda>l. \<not> fence_line l) rest)))"

section \<open>Balanced spans\<close>

fun containsUnquotedBracket_loop :: "bool \<Rightarrow> bool \<Rightarrow> string \<Rightarrow> bool" where
  "containsUnquotedBracket_loop inString escaped [] = False"
| "containsUnquotedBracket_loop inString escaped (c # s) =
     (if inString then
        (if escaped then containsUnquotedBracket_loop True False s
         else if c = CHR 0x5C then containsUnquotedBracket_loop True True s
         else if c = CHR 0x22 then containsUnquotedBracket_loop False False s
         else containsUnquotedBracket_loop True False s)
      else if c = CHR 0x22 then containsUnquotedBracket_loop True escaped s
      else if c = CHR ''{'' \<or> c = CHR ''['' then True
      else containsUnquotedBracket_loop False escaped s)"

definition containsUnquotedBracket :: "string \<Rightarrow> bool" where
  "containsUnquotedBracket s = containsUnquotedBracket_loop False False s"

text \<open>The anchor of a span: its bracket type, the depth, and the text from the bracket to the cursor.\<close>

record anchor =
  open_b :: char
  close_b :: char
  depth :: nat
  span :: string

definition anchor_at :: "char \<Rightarrow> anchor option" where
  "anchor_at c =
     (if c = CHR ''{'' then Some \<lparr>open_b = c, close_b = CHR ''}'', depth = 1, span = [c]\<rparr>
      else if c = CHR ''['' then Some \<lparr>open_b = c, close_b = CHR '']'', depth = 1, span = [c]\<rparr> else None)"

definition take_byte :: "char \<Rightarrow> anchor option \<Rightarrow> anchor option" where
  "take_byte c a = map_option (\<lambda>k. k\<lparr>span := span k @ [c]\<rparr>) a"

text \<open>The scan both extractors make: \<^const>\<open>Inr\<close> is a closed span with the text behind it, \<^const>\<open>Inl\<close>
  the anchor, if any, at the end of the text.\<close>

fun span_loop :: "anchor option \<Rightarrow> bool \<Rightarrow> bool \<Rightarrow> string \<Rightarrow> anchor option + (string \<times> string)" where
  "span_loop a inString escaped [] = Inl a"
| "span_loop a inString escaped (c # s) =
     (if inString then
        span_loop (take_byte c a) (escaped \<or> c \<noteq> CHR 0x22) (\<not> escaped \<and> c = CHR 0x5C) s
      else if c = CHR 0x22 then span_loop (take_byte c a) True escaped s
      else (case a of
              None \<Rightarrow> span_loop (anchor_at c) False escaped s
            | Some k \<Rightarrow>
                if c = open_b k then span_loop (take_byte c (Some (k\<lparr>depth := depth k + 1\<rparr>))) False escaped s
                else if c = close_b k then
                  (if depth k = 1 then Inr (span k @ [c], s)
                   else span_loop (take_byte c (Some (k\<lparr>depth := depth k - 1\<rparr>))) False escaped s)
                else span_loop (take_byte c a) False escaped s))"

definition extractBalancedSpan :: "string \<Rightarrow> (string \<times> string) option" where
  "extractBalancedSpan raw = (case span_loop None False False raw of Inr x \<Rightarrow> Some x | Inl a \<Rightarrow> None)"

text \<open>The span, the text behind it, and whether it is closed.\<close>

definition extractBalancedSpanStream :: "string \<Rightarrow> (string \<times> string \<times> bool) option" where
  "extractBalancedSpanStream raw =
     (case span_loop None False False raw of
        Inr (sp, rest) \<Rightarrow> Some (sp, rest, True)
      | Inl None \<Rightarrow> None
      | Inl (Some k) \<Rightarrow> Some (span k, [], False))"

section \<open>Candidates\<close>

definition decodeSpan :: "string \<Rightarrow> numMode \<Rightarrow> jvalue option" where
  "decodeSpan sp nm = (case strictDecodeMode sp nm of Some v \<Rightarrow> Some v | None \<Rightarrow> fixParseMode sp nm)"

definition decodeSpanStream :: "string \<Rightarrow> numMode \<Rightarrow> jvalue option" where
  "decodeSpanStream sp nm = (case strictDecodeMode sp nm of Some v \<Rightarrow> Some v | None \<Rightarrow> streamFixMode sp nm)"

definition strict_whole :: "string \<Rightarrow> numMode \<Rightarrow> jvalue option" where
  "strict_whole raw nm = (let t = trim_space raw in if t \<noteq> [] then strictDecodeMode t nm else None)"

definition extractCandidateMode :: "string \<Rightarrow> numMode \<Rightarrow> jvalue option" where
  "extractCandidateMode raw nm =
     (case strict_whole raw nm of
        Some v \<Rightarrow> Some v
      | None \<Rightarrow>
          (case extractFenceContent raw of
             Some fence \<Rightarrow> decodeSpan (trim_space fence) nm
           | None \<Rightarrow>
               (case extractBalancedSpan raw of
                  Some (sp, rest) \<Rightarrow> if containsUnquotedBracket rest then None else decodeSpan sp nm
                | None \<Rightarrow> None)))"

definition extractCandidate :: "string \<Rightarrow> jvalue option" where
  "extractCandidate raw = extractCandidateMode raw numModeLegacy"

definition fence_remainder :: "string \<Rightarrow> bool" where
  "fence_remainder s = list_all (\<lambda>c. c \<in> {CHR 0x20, CHR 0x09, CHR 0x0D, CHR 0x0A, CHR 0x60}) s"

definition streamExtractCandidateMode :: "string \<Rightarrow> numMode \<Rightarrow> jvalue option" where
  "streamExtractCandidateMode raw nm =
     (case strict_whole raw nm of
        Some v \<Rightarrow> Some v
      | None \<Rightarrow>
          (case extractFenceContentStream raw of
             Some content \<Rightarrow>
               (let trimmed = trim_space content in
                case extractBalancedSpanStream trimmed of
                  Some (sp, rest, closed) \<Rightarrow>
                    if closed \<and> fence_remainder rest then decodeSpanStream sp nm
                    else decodeSpanStream trimmed nm
                | None \<Rightarrow> decodeSpanStream trimmed nm)
           | None \<Rightarrow>
               (case extractBalancedSpanStream raw of
                  Some (sp, rest, closed) \<Rightarrow>
                    if closed \<and> containsUnquotedBracket rest then None else decodeSpanStream sp nm
                | None \<Rightarrow> None)))"

definition streamExtractCandidate :: "string \<Rightarrow> jvalue option" where
  "streamExtractCandidate raw = streamExtractCandidateMode raw numModeLegacy"

section \<open>The comment pre-pass\<close>

text \<open>Without comment markers the scan copies its text, so the shortcut is exact.\<close>

lemma contains_str_Cons: "contains_str (c # s) t \<longleftrightarrow> has_prefix (c # s) t \<or> contains_str s t"
  by (auto simp: contains_str_def)

lemma strip_loop_no_marker:
  "\<not> contains_str s ''/*'' \<Longrightarrow> \<not> contains_str s ''//'' \<Longrightarrow> strip_loop i q e l s = s"
proof (induction s arbitrary: i q e l)
  case Nil
  show ?case by (simp add: strip_loop.simps)
next
  case (Cons c s)
  have "\<not> (c = CHR ''/'' \<and> (first_byte_is s (CHR ''*'') \<or> first_byte_is s (CHR ''/'')))"
    using Cons.prems by (cases s) (auto simp: contains_str_Cons has_prefix_def first_byte_is_def)
  moreover have "strip_loop i' q' e' l' s = s" for i' q' e' l'
    using Cons by (simp add: contains_str_Cons)
  ultimately show ?case by (auto simp: strip_loop.simps[of i q e l "c # s"])
qed

lemma stripJSONComments_scan: "stripJSONComments s = strip_loop False (CHR 0x00) False (CHR 0x00) s"
  by (simp add: stripJSONComments_def strip_loop_no_marker)

lemma strip_loop_Nil [simp]: "strip_loop i q e l [] = []"
  by (simp add: strip_loop.simps)

lemma strip_loop_hd:
  "c \<noteq> CHR ''/'' \<Longrightarrow> \<exists>u. strip_loop False q e l (c # s) = c # u"
  by (auto simp: strip_loop.simps[of False q e l "c # s"])

lemma strip_loop_first:
  "\<not> first_byte_is s (CHR ''*'') \<Longrightarrow> \<not> first_byte_is s (CHR ''/'') \<Longrightarrow>
     \<not> first_byte_is (strip_loop False q e l s) (CHR ''*'') \<and> \<not> first_byte_is (strip_loop False q e l s) (CHR ''/'')"
  using strip_loop_hd[of "hd s" q e l "tl s"] by (cases s) (auto simp: first_byte_is_def)

text \<open>Scanning the output again copies it: no comment marker is left outside strings.\<close>

lemma strip_loop_idem: "strip_loop i q e l (strip_loop i q e l s) = strip_loop i q e l s"
proof (induction i q e l s rule: strip_loop.induct)
  case (1 i q e l s)
  show ?case
  proof (cases s)
    case (Cons c r)
    note IH = "1.IH"[OF Cons]
    show ?thesis
    proof (cases i)
      case True
      then show ?thesis using IH Cons
        by (auto simp: strip_loop.simps[of True q e l "c # _"])
    next
      case False
      consider "c = CHR 0x22" | "c = CHR 0x27" "structural_start l"
        | "c = CHR ''/''" "first_byte_is r (CHR ''*'')" | "c = CHR ''/''" "first_byte_is r (CHR ''/'')"
        | "c \<noteq> CHR 0x22" "\<not> (c = CHR 0x27 \<and> structural_start l)"
          "\<not> (c = CHR ''/'' \<and> first_byte_is r (CHR ''*''))" "\<not> (c = CHR ''/'' \<and> first_byte_is r (CHR ''/''))"
        by blast
      then show ?thesis
      proof cases
        case 5
        have "\<not> (c = CHR ''/'' \<and> first_byte_is (strip_loop False q e (if json_space c then l else c) r) d)"
          if "d = CHR ''*'' \<or> d = CHR ''/''" for d
          using 5 strip_loop_first[of r q e "if json_space c then l else c"] that by auto
        then show ?thesis using 5 IH False Cons
          by (auto simp: strip_loop.simps[of False q e l "c # _"])
      qed (use IH False Cons in \<open>auto simp: strip_loop.simps[of False q e l "_ # _"] json_space_def\<close>)
    qed
  qed simp
qed

lemma stripJSONComments_idem: "stripJSONComments (stripJSONComments s) = stripJSONComments s"
  by (simp add: stripJSONComments_scan strip_loop_idem)

lemma strip_in_string:
  "strip_loop True q True l (c # r) = c # strip_loop True q False l r"
  "strip_loop True q False l (CHR 0x5C # r) = CHR 0x5C # strip_loop True q True l r"
  "q \<noteq> CHR 0x5C \<Longrightarrow> strip_loop True q False l (q # r) = q # strip_loop False q False q r"
  "c \<noteq> CHR 0x5C \<Longrightarrow> c \<noteq> q \<Longrightarrow> strip_loop True q False l (c # r) = c # strip_loop True q False l r"
  by (simp_all add: strip_loop.simps[of True q False l "c # r"] strip_loop.simps[of True q True l "c # r"]
      strip_loop.simps[of True q False l "q # r"] strip_loop.simps[of True q False l "CHR 0x5C # r"])

lemma strip_string_body:
  "strip_loop True (CHR 0x22) False l (esc t @ CHR 0x22 # r) =
     esc t @ CHR 0x22 # strip_loop False (CHR 0x22) False (CHR 0x22) r"
  by (induction t) (auto simp: esc_def strip_in_string)

lemma strip_string:
  "strip_loop False q e l (dquoted t @ r) = dquoted t @ strip_loop False (CHR 0x22) False (CHR 0x22) r"
  using strip_string_body[of l t r] by (simp add: dquoted_def strip_loop.simps[of False q e l "CHR 0x22 # esc t @ CHR 0x22 # r"])

lemma skip_block_close: "\<not> contains_str (b @ ''*'') ''*/'' \<Longrightarrow> skip_block (b @ ''*/'' @ r) = r"
proof (induction b)
  case Nil
  then show ?case by (simp add: first_byte_is_def)
next
  case (Cons c b)
  then have "\<not> (c = CHR ''*'' \<and> first_byte_is (b @ ''*/'' @ r) (CHR ''/''))"
    by (cases b) (auto simp: contains_str_Cons has_prefix_def first_byte_is_def)
  then show ?case using Cons by (auto simp: contains_str_Cons)
qed

lemma strip_block:
  "\<not> contains_str (b @ ''*'') ''*/'' \<Longrightarrow>
     strip_loop False q e l (''/*'' @ b @ ''*/'' @ r) = CHR 0x20 # strip_loop False q e l r"
  using skip_block_close[of b r] 
  by (simp add: strip_loop.simps[of False q e l "CHR ''/'' # _"] first_byte_is_def)

lemma strip_line:
  "\<not> contains_byte b (CHR 0x0A) \<Longrightarrow>
     strip_loop False q e l (''//'' @ b @ CHR 0x0A # r) = CHR 0x20 # CHR 0x0A # strip_loop False q e l r"
proof -
  assume b: "\<not> contains_byte b (CHR 0x0A)"
  then have "skip_line (b @ CHR 0x0A # r) = CHR 0x0A # r"
    by (induction b) (auto simp: skip_line_def contains_byte_def)
  then have "strip_loop False q e l (''//'' @ b @ CHR 0x0A # r) = CHR 0x20 # strip_loop False q e l (CHR 0x0A # r)"
    by (simp add: strip_loop.simps[of False q e l "CHR ''/'' # _"] first_byte_is_def)
  then show ?thesis by (simp add: strip_loop.simps[of False q e l "CHR 0x0A # _"] json_space_def)
qed

section \<open>The candidates\<close>

lemma decodeSpan_final: "decodeSpan sp nm = Some v \<Longrightarrow> every final_node v"
  by (auto simp: decodeSpan_def split: option.splits dest: strictDecodeMode_final fixParseMode_final)

lemma extractCandidateMode_final: "extractCandidateMode raw nm = Some v \<Longrightarrow> every final_node v"
  by (auto simp: extractCandidateMode_def strict_whole_def Let_def split: option.splits if_splits prod.splits
      dest: strictDecodeMode_final decodeSpan_final)

lemma decodeSpanStream_ok: "decodeSpanStream sp nm = Some v \<Longrightarrow> every node_ok v"
  by (auto simp: decodeSpanStream_def split: option.splits
      dest: strictDecodeMode_final[THEN final_node_ok] streamFixMode_ok)

lemma streamExtractCandidateMode_ok: "streamExtractCandidateMode raw nm = Some v \<Longrightarrow> every node_ok v"
  by (auto simp: streamExtractCandidateMode_def strict_whole_def Let_def split: option.splits if_splits prod.splits
      dest: strictDecodeMode_final[THEN final_node_ok] decodeSpanStream_ok)

lemma span_loop_closed:
  "span_loop a i e s = Inr (sp, rest) \<Longrightarrow>
     (case a of None \<Rightarrow> \<exists>p. s = p @ sp @ rest | Some k \<Rightarrow> span k @ s = sp @ rest)"
proof (induction a i e s rule: span_loop.induct)
  case (2 a i e c s)
  show ?case
  proof (cases a)
    case None
    then show ?thesis using 2
      by (auto simp: take_byte_def anchor_at_def split: if_splits)
  next
    case (Some k)
    show ?thesis
      using "2.prems" "2.IH"(1,2) "2.IH"(4-6)[OF _ _ Some] Some
      by (simp add: take_byte_def split: if_splits)
  qed
qed simp

lemma no_escaped_quote_append: "no_escaped_quote (a @ b) \<Longrightarrow> no_escaped_quote a \<and> no_escaped_quote b"
proof (induction a)
  case (Cons c a)
  then show ?case by (cases a) (auto simp: first_byte_is_def)
qed simp

lemma decodeSpan_agrees:
  "decodeSpan sp nm = Some v \<Longrightarrow> no_escaped_quote sp \<Longrightarrow> decodeSpanStream sp nm = Some v"
  by (auto simp: decodeSpan_def decodeSpanStream_def fix_stream_agree split: option.splits)

lemma after_fence_none: "extractFenceContentStream raw = None \<Longrightarrow> extractFenceContent raw = None"
  by (auto simp: extractFenceContent_def extractFenceContentStream_def split: option.splits)

text \<open>On a text without a fence the streaming extractor claims whatever the final extractor claims.\<close>

lemma extract_agrees:
  assumes v: "extractCandidateMode raw nm = Some v" and n: "no_escaped_quote raw"
    and f: "extractFenceContentStream raw = None"
  shows "streamExtractCandidateMode raw nm = Some v"
proof (cases "strict_whole raw nm")
  case None
  have ex: "(case extractBalancedSpan raw of Some (sp, rest) \<Rightarrow>
      if containsUnquotedBracket rest then None else decodeSpan sp nm | None \<Rightarrow> None) = Some v"
    using v None after_fence_none[OF f] by (simp add: extractCandidateMode_def)
  then obtain sp rest where sp: "span_loop None False False raw = Inr (sp, rest)"
    unfolding extractBalancedSpan_def by (cases "span_loop None False False raw") auto
  have d: "\<not> containsUnquotedBracket rest" "decodeSpan sp nm = Some v"
    using ex sp by (simp_all add: extractBalancedSpan_def split: if_splits)
  obtain p where "raw = p @ sp @ rest" using span_loop_closed[OF sp] by auto
  then have "no_escaped_quote sp" using n no_escaped_quote_append by blast
  then have "decodeSpanStream sp nm = Some v" by (rule decodeSpan_agrees[OF d(2)])
  then show ?thesis using None f sp d(1)
    by (simp add: streamExtractCandidateMode_def extractBalancedSpanStream_def)
qed (use v in \<open>simp add: extractCandidateMode_def streamExtractCandidateMode_def\<close>)


section \<open>Properties\<close>

text \<open>C16: (type) The values of the two extractors are well typed. A value claimed from a finished text has, at
  every node, the payload of its kind and no other, and no node is marked incomplete - whether it was decoded
  strictly or repaired. A value recovered from a text that is still arriving has the payload of its kind at
  every node.\<close>

theorem extracted_values_typed:
  "(extractCandidateMode raw nm = Some v \<longrightarrow> every (\<lambda>u. node_ok u \<and> \<not> incomplete u) v) \<and>
   (streamExtractCandidateMode raw nm = Some v \<longrightarrow> every node_ok v)"
  using extractCandidateMode_final streamExtractCandidateMode_ok
  by (auto simp: final_node_def[abs_def])

lemma extract_demo:
  "extractCandidateMode ''x [7] y'' numModeLegacy = Some (vArray [vNumber ''7''] False)"
  "streamExtractCandidateMode ''x [7'' numModeLegacy =
     Some (vArray [Value valNumber False ''7'' [] [] [] True False] True)"
  by code_simp+

theorem extracted_values_typed_witness:
  "extractCandidateMode ''x [7] y'' numModeLegacy = Some (vArray [vNumber ''7''] False) \<and>
   every (\<lambda>u. node_ok u \<and> \<not> incomplete u) (vArray [vNumber ''7''] False) \<and>
   every node_ok (vArray [Value valNumber False ''7'' [] [] [] True False] True)"
  using extracted_values_typed[of "''x [7] y''" numModeLegacy] extracted_values_typed[of "''x [7''" numModeLegacy]
    extract_demo by auto

text \<open>C13: (equivalence) On the whole answer the streaming extractor agrees with the final one: in a text with no
  fence and no escaped double quote, a candidate that the final extractor claims - strict, repaired, or cut out
  of prose - is claimed by the streaming extractor with the same value.\<close>

theorem stream_agrees_with_final:
  "extractCandidateMode raw nm = Some v \<Longrightarrow> no_escaped_quote raw \<Longrightarrow> extractFenceContentStream raw = None \<Longrightarrow>
     streamExtractCandidateMode raw nm = Some v"
  by (rule extract_agrees)

theorem stream_agrees_with_final_witness:
  "streamExtractCandidateMode ''x [7] y'' numModeLegacy = Some (vArray [vNumber ''7''] False)"
proof (rule stream_agrees_with_final[OF extract_demo(1)])
  show "no_escaped_quote ''x [7] y''" by (simp add: first_byte_is_def)
  show "extractFenceContentStream ''x [7] y'' = None" by code_simp
qed

text \<open>C18: (functional) The comment pre-pass: a double-quoted string passes through with whatever comment
  markers it contains; a block comment becomes one space, and so does a line comment, whose line feed stays;
  a second pass changes nothing. The shortcut for texts without markers is the same function.\<close>

theorem comments_stripped:
  "strip_loop False q e l (dquoted t @ r) = dquoted t @ strip_loop False (CHR 0x22) False (CHR 0x22) r \<and>
   (\<not> contains_str (b @ ''*'') ''*/'' \<longrightarrow>
      strip_loop False q e l (''/*'' @ b @ ''*/'' @ r) = CHR 0x20 # strip_loop False q e l r) \<and>
   (\<not> contains_byte b (CHR 0x0A) \<longrightarrow>
      strip_loop False q e l (''//'' @ b @ CHR 0x0A # r) = CHR 0x20 # CHR 0x0A # strip_loop False q e l r) \<and>
   stripJSONComments (stripJSONComments s) = stripJSONComments s \<and>
   stripJSONComments s = strip_loop False (CHR 0x00) False (CHR 0x00) s"
  using strip_string strip_block strip_line stripJSONComments_idem stripJSONComments_scan by blast

theorem comments_stripped_witness:
  "strip_loop False (CHR 0x00) False (CHR 0x00) (''/*'' @ ''x'' @ ''*/'' @ []) = [CHR 0x20] \<and>
   strip_loop False (CHR 0x00) False (CHR 0x00) (''//'' @ ''x'' @ [CHR 0x0A]) = [CHR 0x20, CHR 0x0A]"
  using comments_stripped[of "CHR 0x00" False "CHR 0x00" "[]" "[]" "''x''" "[]"]
  by (simp add: contains_str_def has_prefix_def contains_byte_def)


section \<open>Fenced answers\<close>

lemma split_lines_not_Nil [simp]: "split_lines s \<noteq> []"
  by (cases s) (auto split: list.splits)

lemma split_lines_line: "CHR 0x0A \<notin> set l \<Longrightarrow> split_lines l = [l]"
  by (induction l) auto

lemma split_lines_append: "CHR 0x0A \<notin> set l \<Longrightarrow> split_lines (l @ CHR 0x0A # s) = l # split_lines s"
  by (induction l) auto

lemma split_join_lines:
  "ls \<noteq> [] \<Longrightarrow> \<forall>l \<in> set ls. CHR 0x0A \<notin> set l \<Longrightarrow> split_lines (join_lines ls) = ls"
  by (induction ls rule: join_lines.induct) (auto simp: split_lines_line split_lines_append)

lemma split_lines_no_newline: "l \<in> set (split_lines s) \<Longrightarrow> CHR 0x0A \<notin> set l"
  by (induction s arbitrary: l) (auto split: list.splits if_splits)

lemma join_lines_Cons: "ls \<noteq> [] \<Longrightarrow> join_lines (l # ls) = l @ CHR 0x0A # join_lines ls"
  by (cases ls) auto

lemma join_split_lines: "join_lines (split_lines s) = s"
proof (induction s)
  case (Cons c s)
  then show ?case
    by (cases "split_lines s"; cases "tl (split_lines s)") (auto simp: join_lines_Cons)
qed simp

text \<open>\<open>fenced pre op body cl post\<close>: the body between two fence lines, with lines before and after.\<close>

definition fenced :: "string list \<Rightarrow> string \<Rightarrow> string \<Rightarrow> string \<Rightarrow> string list \<Rightarrow> string" where
  "fenced pre op body cl post = join_lines (pre @ op # split_lines body @ cl # post)"

definition fence_ok :: "string list \<Rightarrow> string \<Rightarrow> string \<Rightarrow> string \<Rightarrow> string list \<Rightarrow> bool" where
  "fence_ok pre op body cl post \<longleftrightarrow>
     list_all (\<lambda>l. \<not> contains_byte l (CHR 0x0A)) (op # cl # pre @ post) \<and>
     list_all (\<lambda>l. \<not> fence_line l) (pre @ split_lines body) \<and> fence_line op \<and> fence_line cl"

lemma extract_fenced:
  assumes "fence_ok pre op body cl post"
  shows "extractFenceContent (fenced pre op body cl post) = Some body"
proof -
  let ?ls = "pre @ op # split_lines body @ cl # post"
  have "\<forall>l \<in> set ?ls. CHR 0x0A \<notin> set l"
    using assms split_lines_no_newline by (auto simp: fence_ok_def list_all_iff contains_byte_def)
  then have "split_lines (fenced pre op body cl post) = ?ls"
    unfolding fenced_def by (intro split_join_lines) auto
  moreover have "after_fence ?ls = Some (split_lines body @ cl # post)"
    using assms by (auto simp: after_fence_def fence_ok_def list_all_iff dropWhile_append2)
  moreover have "takeWhile (\<lambda>l. \<not> fence_line l) (split_lines body @ cl # post) = split_lines body"
    using assms by (auto simp: fence_ok_def list_all_iff takeWhile_append2)
  ultimately show ?thesis
    using assms by (simp add: extractFenceContent_def join_split_lines fence_ok_def)
qed


lemma print_last:
  "print_elems es \<noteq> [] \<and> last (print_elems es) = CHR '']''" "print_fields fs \<noteq> [] \<and> last (print_fields fs) = CHR ''}''"
  by (induction es and fs rule: jelems.induct jfields.induct) auto

lemma trim_print: "x = SArr es \<or> x = SObj fs \<Longrightarrow> trim_space (print x) = print x"
  using print_last(1)[of es] print_last(2)[of fs]
  by (intro trim_space_solid) (auto simp: solid_byte_def space_encodings_def)

text \<open>C17: (functional) An answer in a Markdown fence: where neither the whole text nor the fenced text is strict
  JSON, the candidate is the fenced text with its repairs, whatever lines of prose stand before and after the
  fence and whatever the fence's info string is.\<close>

theorem fenced_answer_repaired:
  assumes "wf_src nm x" and "x = SArr es \<or> x = SObj fs" and "fence_ok pre op (print x) cl post"
    and "strict_whole (fenced pre op (print x) cl post) nm = None" and "strictDecodeMode (print x) nm = None"
  shows "extractCandidateMode (fenced pre op (print x) cl post) nm = Some (mean nm x)"
proof -
  have "fixParseMode (print x) nm = Some (mean nm x)"
    using fix_prints[OF assms(1), of "[]" "[]"] assms(2) by (auto simp: space_only_def)
  then show ?thesis
    using assms(4,5) extract_fenced[OF assms(3)] trim_print[OF assms(2)]
    by (simp add: extractCandidateMode_def decodeSpan_def)
qed

definition demo_fence :: string where
  "demo_fence = [CHR 0x60, CHR 0x60, CHR 0x60]"

definition demo_list :: jelems where
  "demo_list = EMore [] (SBare ''1'') [] (EEnd [])"

lemma demo_fenced:
  "wf_src numModeLegacy (SArr demo_list)"
  "fence_ok [''a''] demo_fence (print (SArr demo_list)) demo_fence []"
  "strict_whole (fenced [''a''] demo_fence (print (SArr demo_list)) demo_fence []) numModeLegacy = None"
  "strictDecodeMode (print (SArr demo_list)) numModeLegacy = None"
  "mean numModeLegacy (SArr demo_list) = vArray [vNumber ''1''] False"
  by code_simp+

theorem fenced_answer_repaired_witness:
  "extractCandidate (fenced [''a''] demo_fence ''[1,]'' demo_fence []) = Some (vArray [vNumber ''1''] False)"
  using fenced_answer_repaired[OF demo_fenced(1) disjI1[OF refl] demo_fenced(2-4)] demo_fenced(5)
  by (simp add: extractCandidate_def demo_list_def)

end
