(* ===== verification/Jsonish_Complete.thy ===== *)
theory Jsonish_Complete
  imports Go_Json "HOL-Library.While_Combinator"
begin

text \<open>
  Completion of an unclosed final text (\<^verbatim>\<open>src/internal/debaml/complete_final.go\<close>). The scanning loop is
  a \<open>while_option\<close> over a record of the function's local variables, so that its termination is a
  theorem: a round that meets an unquoted token relies on the token having at least one byte. The index
  into the input is represented by the text that is left; the frames are a stack, innermost first.
\<close>

section \<open>The scan\<close>

record frame =
  arr :: bool
  safeLen :: nat
  expectValue :: bool
  pendingKey :: bool

record completion =
  rest :: string
  out :: string
  fr :: "frame list"
  inStr :: bool
  esc_byte :: bool
  strIsKey :: bool
  strQuote :: char
  trailTokStart :: "nat option"

definition upd_top :: "(frame \<Rightarrow> frame) \<Rightarrow> frame list \<Rightarrow> frame list" where
  "upd_top f fs = (case fs of [] \<Rightarrow> [] | t # ts \<Rightarrow> f t # ts)"

definition commit :: "completion \<Rightarrow> completion" where
  "commit st = st\<lparr>fr := upd_top (\<lambda>t. t\<lparr>safeLen := length (out st)\<rparr>) (fr st)\<rparr>"

definition key_pos :: "completion \<Rightarrow> bool" where
  "key_pos st = (case fr st of [] \<Rightarrow> False | t # _ \<Rightarrow> \<not> arr t \<and> \<not> expectValue t)"

text \<open>One byte is copied to the output.\<close>

definition eat :: "completion \<Rightarrow> completion" where
  "eat st = st\<lparr>rest := tl (rest st), out := out st @ [hd (rest st)]\<rparr>"

definition string_step :: "char \<Rightarrow> completion \<Rightarrow> completion" where
  "string_step c st0 =
     (let st = eat st0 in
      if esc_byte st0 then st\<lparr>esc_byte := False\<rparr>
      else if c = CHR 0x5C then st\<lparr>esc_byte := True\<rparr>
      else if c = strQuote st0 then
        (let st' = st\<lparr>inStr := False\<rparr> in
         if fr st = [] then st'
         else if strIsKey st then st'\<lparr>fr := upd_top (\<lambda>t. t\<lparr>pendingKey := True\<rparr>) (fr st)\<rparr>
         else commit st')
      else st)"

definition quote_step :: "char \<Rightarrow> completion \<Rightarrow> completion" where
  "quote_step c st =
     eat (st\<lparr>inStr := True, esc_byte := False, strQuote := c, strIsKey := key_pos st,
             fr := upd_top (\<lambda>t. if arr t then t else t\<lparr>expectValue := False\<rparr>) (fr st)\<rparr>)"

definition open_step :: "char \<Rightarrow> completion \<Rightarrow> completion" where
  "open_step c st =
     eat (st\<lparr>fr := \<lparr>arr = (c = CHR ''[''), safeLen = length (out st) + 1,
                       expectValue = False, pendingKey = False\<rparr> # fr st\<rparr>)"

definition close_step :: "completion \<Rightarrow> completion" where
  "close_step st = commit ((eat st)\<lparr>fr := tl (fr st)\<rparr>)"

definition separator_step :: "bool \<Rightarrow> completion \<Rightarrow> completion" where
  "separator_step colon st =
     eat (st\<lparr>fr := upd_top (\<lambda>t. t\<lparr>expectValue := colon, pendingKey := False\<rparr>) (fr st)\<rparr>)"

definition token_stop :: "bool \<Rightarrow> char \<Rightarrow> bool" where
  "token_stop inKeyPos d \<longleftrightarrow>
     d = CHR '','' \<or> d = CHR ''}'' \<or> d = CHR '']'' \<or> json_space d \<or> inKeyPos \<and> d = CHR '':''"

text \<open>The token \<open>tok\<close> has been read and \<open>r\<close> follows it.\<close>

definition token_end :: "completion \<Rightarrow> string \<Rightarrow> string \<Rightarrow> completion" where
  "token_end st tok r =
     (let st' = st\<lparr>rest := r, out := out st @ tok\<rparr> in
      if key_pos st then st'\<lparr>fr := upd_top (\<lambda>t. t\<lparr>pendingKey := True\<rparr>) (fr st)\<rparr>
      else (let st2 = st'\<lparr>fr := upd_top (\<lambda>t. t\<lparr>expectValue := False\<rparr>) (fr st)\<rparr> in
            if r = [] then st2\<lparr>trailTokStart := Some (length (out st))\<rparr>
            else if fr st \<noteq> [] then commit st2 else st2))"

definition token_step :: "completion \<Rightarrow> completion" where
  "token_step st = token_end st (takeWhile (\<lambda>d. \<not> token_stop (key_pos st) d) (rest st))
     (dropWhile (\<lambda>d. \<not> token_stop (key_pos st) d) (rest st))"

definition scan_step :: "completion \<Rightarrow> completion" where
  "scan_step st =
     (case rest st of
        [] \<Rightarrow> st
      | c # _ \<Rightarrow>
          if inStr st then string_step c st
          else if c = CHR 0x22 \<or> c = CHR 0x27 then quote_step c st
          else if c = CHR ''{'' \<or> c = CHR ''['' then open_step c st
          else if c = CHR ''}'' \<or> c = CHR '']'' then close_step st
          else if c = CHR '':'' then separator_step True st
          else if c = CHR '','' then separator_step False st
          else if json_space c then eat st
          else token_step st)"

definition scan_start :: "string \<Rightarrow> completion" where
  "scan_start s = \<lparr>rest = s, out = [], fr = [], inStr = False, esc_byte = False, strIsKey = False,
     strQuote = CHR 0x00, trailTokStart = None\<rparr>"

section \<open>The end of the text\<close>

definition incomplete_number_byte :: "char \<Rightarrow> bool" where
  "incomplete_number_byte b \<longleftrightarrow> b \<in> {CHR ''.'', CHR ''e'', CHR ''E'', CHR ''+'', CHR ''-''}"

definition trim_number :: "string \<Rightarrow> string" where
  "trim_number tok = rev (dropWhile incomplete_number_byte (rev tok))"

definition closers :: "frame list \<Rightarrow> string" where
  "closers fs = map (\<lambda>t. if arr t then CHR '']'' else CHR ''}'') fs"

text \<open>The output before the closers: the trailing string is closed, the trailing token trimmed, and a
  field without a value is dropped by returning to the innermost frame's last safe length.\<close>

definition settled_out :: "completion \<Rightarrow> string" where
  "settled_out st =
     (let t = hd (fr st); safe = take (safeLen t) (out st) in
      if inStr st then
        (if strIsKey st then safe
         else out st @ (if esc_byte st then [CHR 0x5C] else []) @ [strQuote st])
      else (case trailTokStart st of
              Some k \<Rightarrow>
                (let tok = drop k (out st) in
                 if list_ex digit tok then take k (out st) @ trim_number tok
                 else if list_all incomplete_number_byte tok then safe
                 else out st)
            | None \<Rightarrow> if \<not> arr t \<and> (expectValue t \<or> pendingKey t) then safe else out st))"

definition complete_finish :: "string \<Rightarrow> completion \<Rightarrow> string \<times> bool" where
  "complete_finish s st = (if fr st = [] then (s, False) else (settled_out st @ closers (fr st), True))"

text \<open>\<^const>\<open>None\<close> is a scan that does not end.\<close>

definition completeUnclosedFinal :: "string \<Rightarrow> (string \<times> bool) option" where
  "completeUnclosedFinal s =
     map_option (complete_finish s) (while_option (\<lambda>st. rest st \<noteq> []) scan_step (scan_start s))"

section \<open>The scan ends\<close>

lemmas step_defs = string_step_def quote_step_def open_step_def close_step_def separator_step_def
  eat_def commit_def Let_def

text \<open>A round takes a non-empty piece of the text and copies it.\<close>

lemma token_step_text:
  "rest (token_step st) = dropWhile (\<lambda>d. \<not> token_stop (key_pos st) d) (rest st)"
  "out (token_step st) = out st @ takeWhile (\<lambda>d. \<not> token_stop (key_pos st) d) (rest st)"
  by (simp_all add: token_step_def token_end_def commit_def Let_def)

definition token_byte :: "char \<Rightarrow> bool" where
  "token_byte c \<longleftrightarrow>
     c \<notin> {CHR 0x22, CHR 0x27, CHR ''{'', CHR ''['', CHR ''}'', CHR '']'', CHR '':'', CHR '',''} \<and> \<not> json_space c"

lemma token_byte_stop: "token_byte c \<Longrightarrow> \<not> token_stop k c"
  by (auto simp: token_byte_def token_stop_def)

lemma scan_step_token:
  "rest st = c # r \<Longrightarrow> \<not> inStr st \<Longrightarrow> token_byte c \<Longrightarrow> scan_step st = token_step st"
  by (simp add: scan_step_def token_byte_def)

lemma step_text:
  "rest (string_step c st) = tl (rest st)" "out (string_step c st) = out st @ [hd (rest st)]"
  "rest (quote_step c st) = tl (rest st)" "out (quote_step c st) = out st @ [hd (rest st)]"
  "rest (open_step c st) = tl (rest st)" "out (open_step c st) = out st @ [hd (rest st)]"
  "rest (close_step st) = tl (rest st)" "out (close_step st) = out st @ [hd (rest st)]"
  "rest (separator_step b st) = tl (rest st)" "out (separator_step b st) = out st @ [hd (rest st)]"
  "rest (eat st) = tl (rest st)" "out (eat st) = out st @ [hd (rest st)]"
  by (simp_all add: step_defs)

lemma scan_step_cases:
  assumes "rest st = c # r"
  obtains (string) "inStr st" "scan_step st = string_step c st"
    | (quote) "\<not> inStr st" "c = CHR 0x22 \<or> c = CHR 0x27" "scan_step st = quote_step c st"
    | (open_b) "\<not> inStr st" "c = CHR ''{'' \<or> c = CHR ''[''" "scan_step st = open_step c st"
    | (close_b) "\<not> inStr st" "c = CHR ''}'' \<or> c = CHR '']''" "scan_step st = close_step st"
    | (separator) b where "\<not> inStr st" "c = (if b then CHR '':'' else CHR '','')" "scan_step st = separator_step b st"
    | (space) "\<not> inStr st" "json_space c" "scan_step st = eat st"
    | (token) "\<not> inStr st" "token_byte c" "scan_step st = token_step st"
proof (cases "inStr st")
  case True
  then show thesis using assms string by (simp add: scan_step_def)
next
  case False
  consider "c = CHR 0x22 \<or> c = CHR 0x27" | "c = CHR ''{'' \<or> c = CHR ''[''"
    | "c = CHR ''}'' \<or> c = CHR '']''" | "c = CHR '':''" | "c = CHR '',''" | "json_space c" | "token_byte c"
    by (auto simp: token_byte_def)
  then show thesis
  proof cases
    case 4
    then show thesis using assms False separator[of True] by (simp add: scan_step_def)
  next
    case 5
    then show thesis using assms False separator[of False] by (simp add: scan_step_def)
  next
    case 6
    then show thesis using assms False space by (auto simp: scan_step_def json_space_def)
  next
    case 7
    then show thesis using assms False token scan_step_token by blast
  qed (use assms False quote open_b close_b in \<open>auto simp: scan_step_def\<close>)
qed

lemma scan_step_byte:
  assumes "rest st = c # r" and "inStr st \<or> \<not> token_byte c"
  shows "rest (scan_step st) = r \<and> out (scan_step st) = out st @ [c]"
  using assms by (cases rule: scan_step_cases[OF assms(1)]) (simp_all add: step_text)

lemma step_trail:
  "trailTokStart (string_step c st) = trailTokStart st" "trailTokStart (quote_step c st) = trailTokStart st"
  "trailTokStart (open_step c st) = trailTokStart st" "trailTokStart (close_step st) = trailTokStart st"
  "trailTokStart (separator_step b st) = trailTokStart st" "trailTokStart (eat st) = trailTokStart st"
  "trailTokStart (token_step st) =
     (if \<not> key_pos st \<and> rest (token_step st) = [] then Some (length (out st)) else trailTokStart st)"
  by (simp_all add: step_defs token_step_text) (simp_all add: token_step_def token_end_def commit_def Let_def)

lemma scan_step_piece:
  assumes "rest st \<noteq> []"
  shows "\<exists>p. p \<noteq> [] \<and> rest st = p @ rest (scan_step st) \<and> out (scan_step st) = out st @ p"
proof -
  obtain c r where c: "rest st = c # r" using assms by (cases "rest st") auto
  show ?thesis
  proof (cases "inStr st \<or> \<not> token_byte c")
    case True
    then show ?thesis using scan_step_byte[OF c] c by (intro exI[of _ "[c]"]) simp
  next
    case False
    then show ?thesis using scan_step_token[OF c] token_byte_stop[of c] c
      by (intro exI[of _ "takeWhile (\<lambda>d. \<not> token_stop (key_pos st) d) (rest st)"])
        (simp add: token_step_text)
  qed
qed

lemma scan_step_shorter: "rest st \<noteq> [] \<Longrightarrow> length (rest (scan_step st)) < length (rest st)"
  by (drule scan_step_piece) auto

lemma scan_ends: "\<exists>st. while_option (\<lambda>st. rest st \<noteq> []) scan_step st0 = Some st"
  by (rule measure_while_option_Some[where P = "\<lambda>_. True" and f = "\<lambda>st. length (rest st)"])
    (simp_all add: scan_step_shorter)

lemma completeUnclosedFinal_ends: "\<exists>t b. completeUnclosedFinal s = Some (t, b)"
  using scan_ends[of "scan_start s"] by (force simp: completeUnclosedFinal_def)

section \<open>Rounds\<close>

inductive rounds :: "completion \<Rightarrow> completion \<Rightarrow> bool" where
  rounds_refl: "rounds st st"
| rounds_step: "rounds st st1 \<Longrightarrow> rest st1 \<noteq> [] \<Longrightarrow> rounds st (scan_step st1)"

lemma rounds_while:
  "rounds st st1 \<Longrightarrow>
     while_option (\<lambda>st. rest st \<noteq> []) scan_step st = while_option (\<lambda>st. rest st \<noteq> []) scan_step st1"
proof (induction rule: rounds.induct)
  case (rounds_step st st1)
  then show ?case
    using while_option_unfold[of "\<lambda>st. rest st \<noteq> []" scan_step st1] by simp
qed simp

lemma while_rounds:
  assumes "while_option (\<lambda>st. rest st \<noteq> []) scan_step st = Some t"
  shows "rounds st t \<and> rest t = []"
  using while_option_rule[where P = "rounds st", OF _ assms] while_option_stop[OF assms]
  by (auto intro: rounds.intros)

lemma rounds_trans: "rounds b c \<Longrightarrow> rounds a b \<Longrightarrow> rounds a c"
  by (induction rule: rounds.induct) (auto intro: rounds_step)

lemma scan_step_trail:
  assumes "rest st = c # r" and "trailTokStart st = None"
  shows "trailTokStart (scan_step st) \<noteq> None \<longleftrightarrow>
    \<not> inStr st \<and> token_byte c \<and> \<not> key_pos st \<and> rest (token_step st) = []"
  using assms(2)
  by (cases rule: scan_step_cases[OF assms(1)]) (auto simp: step_trail token_byte_def json_space_def)

lemma rounds_trail: "rounds (scan_start s) st \<Longrightarrow> rest st \<noteq> [] \<Longrightarrow> trailTokStart st = None"
proof (induction "scan_start s" st rule: rounds.induct)
  case rounds_refl
  show ?case by (simp add: scan_start_def)
next
  case (rounds_step st1)
  then obtain c r where c: "rest st1 = c # r" by (cases "rest st1") auto
  then show ?case using rounds_step scan_step_trail[OF c] scan_step_token[OF c] by auto
qed

lemma rounds_complete:
  assumes "rounds (scan_start s) st" and "rest st = []"
  shows "completeUnclosedFinal s = Some (complete_finish s st)"
  using rounds_while[OF assms(1)] assms(2) 
    while_option_unfold[of "\<lambda>st. rest st \<noteq> []" scan_step st] by (simp add: completeUnclosedFinal_def)

section \<open>Scanning a changed continuation\<close>

text \<open>
  A prefix that has been scanned is scanned in the same way when another text follows it, as long as
  a token that ended there still ends there: the new text starts with the same byte or with a closer.
\<close>

definition closer :: "char \<Rightarrow> bool" where
  "closer c \<longleftrightarrow> c = CHR ''}'' \<or> c = CHR '']''"

definition starts_closed :: "string \<Rightarrow> bool" where
  "starts_closed x \<longleftrightarrow> (case x of [] \<Rightarrow> False | c # _ \<Rightarrow> closer c)"

definition compat :: "string \<Rightarrow> string \<Rightarrow> bool" where
  "compat y x \<longleftrightarrow> starts_closed x \<or> (y \<noteq> [] \<and> x \<noteq> [] \<and> hd y = hd x)"

lemma step_rest:
  "rest st = c # r \<Longrightarrow> string_step c (st\<lparr>rest := c # x\<rparr>) = (string_step c st)\<lparr>rest := x\<rparr>"
  "rest st = c # r \<Longrightarrow> quote_step c (st\<lparr>rest := c # x\<rparr>) = (quote_step c st)\<lparr>rest := x\<rparr>"
  "rest st = c # r \<Longrightarrow> open_step c (st\<lparr>rest := c # x\<rparr>) = (open_step c st)\<lparr>rest := x\<rparr>"
  "rest st = c # r \<Longrightarrow> close_step (st\<lparr>rest := c # x\<rparr>) = (close_step st)\<lparr>rest := x\<rparr>"
  "rest st = c # r \<Longrightarrow> separator_step b (st\<lparr>rest := c # x\<rparr>) = (separator_step b st)\<lparr>rest := x\<rparr>"
  "rest st = c # r \<Longrightarrow> eat (st\<lparr>rest := c # x\<rparr>) = (eat st)\<lparr>rest := x\<rparr>"
  by (simp_all add: step_defs key_pos_def)

lemma scan_step_rest:
  assumes "rest st = c # r" and "inStr st \<or> \<not> token_byte c"
  shows "scan_step (st\<lparr>rest := c # x\<rparr>) = (scan_step st)\<lparr>rest := x\<rparr>"
  using assms(1)
proof (cases rule: scan_step_cases)
  case (separator b)
  then show ?thesis using assms step_rest by (cases b) (simp_all add: scan_step_def)
qed (use assms in \<open>auto simp: scan_step_def step_rest json_space_def\<close>)

lemma token_run_append:
  assumes "\<forall>d \<in> set tok. \<not> P d" and "x \<noteq> []" and "P (hd x)"
  shows "takeWhile (\<lambda>d. \<not> P d) (tok @ x) = tok" "dropWhile (\<lambda>d. \<not> P d) (tok @ x) = x"
  using assms by (cases x; simp)+

lemma compat_stops:
  assumes "compat (dropWhile (\<lambda>d. \<not> token_stop k d) s) x"
  shows "x \<noteq> [] \<and> token_stop k (hd x)"
proof -
  have "token_stop k (hd (dropWhile (\<lambda>d. \<not> token_stop k d) s))"
    if "dropWhile (\<lambda>d. \<not> token_stop k d) s \<noteq> []"
    using hd_dropWhile[OF that] by simp
  then show ?thesis using assms
    by (cases x) (auto simp: compat_def starts_closed_def closer_def token_stop_def)
qed

lemma token_end_rest:
  "x \<noteq> [] \<Longrightarrow> key_pos st \<or> r \<noteq> [] \<Longrightarrow> token_end (st\<lparr>rest := y\<rparr>) tok x = (token_end st tok r)\<lparr>rest := x\<rparr>"
  by (auto simp: token_end_def Let_def commit_def key_pos_def)

lemma token_step_rest:
  assumes "compat (rest (token_step st)) x" and "key_pos st \<or> rest (token_step st) \<noteq> []"
  shows "token_step (st\<lparr>rest := takeWhile (\<lambda>d. \<not> token_stop (key_pos st) d) (rest st) @ x\<rparr>) =
    (token_step st)\<lparr>rest := x\<rparr>"
proof -
  let ?P = "token_stop (key_pos st)"
  have x: "x \<noteq> []" "?P (hd x)" using compat_stops[of "key_pos st"] assms(1) by (auto simp: token_step_text)
  have "\<forall>d \<in> set (takeWhile (\<lambda>d. \<not> ?P d) (rest st)). \<not> ?P d" by (auto dest: set_takeWhileD)
  note run = token_run_append[OF this x]
  have k: "key_pos (st\<lparr>rest := y\<rparr>) = key_pos st" for y by (simp add: key_pos_def)
  show ?thesis
    using assms(2) run token_end_rest[OF x(1)] unfolding token_step_text
    by (simp add: token_step_def k del: takeWhile_append dropWhile_append)
qed

lemma replay_step:
  assumes "rest st \<noteq> []" and "trailTokStart (scan_step st) = None"
    and "inStr (scan_step st) \<or> compat (rest (scan_step st)) x"
    and p: "rest st = p @ rest (scan_step st)"
  shows "scan_step (st\<lparr>rest := p @ x\<rparr>) = (scan_step st)\<lparr>rest := x\<rparr>"
proof -
  obtain c r where c: "rest st = c # r" using assms(1) by (cases "rest st") auto
  show ?thesis
  proof (cases "inStr st \<or> \<not> token_byte c")
    case True
    have "p = [c]" using scan_step_byte[OF c True] p c by simp
    then show ?thesis using scan_step_rest[OF c True] by simp
  next
    case False
    then have t: "scan_step st = token_step st" using scan_step_token[OF c] by simp
    have tw: "p = takeWhile (\<lambda>d. \<not> token_stop (key_pos st) d) (rest st)"
      using p[unfolded t token_step_text] by (metis append_same_eq takeWhile_dropWhile_id)
    have "key_pos st \<or> rest (token_step st) \<noteq> []" using assms(2) t by (auto simp: step_trail)
    moreover have "\<not> inStr (token_step st)" using False by (simp add: token_step_def token_end_def Let_def commit_def)
    ultimately have "token_step (st\<lparr>rest := p @ x\<rparr>) = (token_step st)\<lparr>rest := x\<rparr>"
      using token_step_rest assms(3) t tw by simp
    moreover obtain p' where "p = c # p'" using tw c False token_byte_stop by simp
    ultimately show ?thesis using t False scan_step_token[of "st\<lparr>rest := p @ x\<rparr>" c] by simp
  qed
qed

lemma replay:
  "rounds (scan_start s) st \<Longrightarrow> trailTokStart st = None \<Longrightarrow> inStr st \<or> compat (rest st) x \<Longrightarrow>
     rounds (scan_start (out st @ x)) (st\<lparr>rest := x\<rparr>)"
proof (induction "scan_start s" st arbitrary: x rule: rounds.induct)
  case rounds_refl
  have "(scan_start s)\<lparr>rest := x\<rparr> = scan_start (out (scan_start s) @ x)" by (simp add: scan_start_def)
  then show ?case by (simp add: rounds.rounds_refl)
next
  case (rounds_step st)
  obtain p where p: "p \<noteq> []" "rest st = p @ rest (scan_step st)" "out (scan_step st) = out st @ p"
    using scan_step_piece[OF rounds_step.hyps(3)] by blast
  have "compat (rest st) (p @ x)" using p by (auto simp: compat_def)
  then have "rounds (scan_start (out st @ p @ x)) (st\<lparr>rest := p @ x\<rparr>)"
    using rounds_step.hyps(2) rounds_trail[OF rounds_step.hyps(1,3)] by blast
  then have "rounds (scan_start (out st @ p @ x)) (scan_step (st\<lparr>rest := p @ x\<rparr>))"
    using p(1) by (auto intro: rounds.rounds_step)
  then show ?case
    using replay_step[OF rounds_step.hyps(3) rounds_step.prems p(2)] p(3) by simp
qed

section \<open>Closing the frames\<close>

lemma closers_arr: "closers fs = map (\<lambda>b. if b then CHR '']'' else CHR ''}'') (map arr fs)"
  by (simp add: closers_def)

lemma close_frames:
  "\<not> inStr st \<Longrightarrow> rest st = closers (fr st) \<Longrightarrow> \<exists>t. rounds st t \<and> rest t = [] \<and> fr t = []"
proof (induction "length (fr st)" arbitrary: st)
  case 0
  then show ?case by (auto simp: closers_def intro: rounds_refl)
next
  case (Suc n)
  then obtain f fs where f: "fr st = f # fs" by (cases "fr st") auto
  let ?st = "scan_step st"
  have st: "?st = close_step st" using Suc.prems f by (simp add: closers_def scan_step_def)
  have m: "map arr (fr ?st) = map arr fs"
    using f by (cases fs) (simp_all add: st close_step_def commit_def eat_def upd_top_def)
  have "closers (fr ?st) = closers fs" unfolding closers_arr m ..
  moreover have "length (fr ?st) = length fs" using m by (rule map_eq_imp_length_eq)
  moreover have "rest ?st = closers fs" "\<not> inStr ?st"
    using Suc.prems f by (simp_all add: st closers_def close_step_def commit_def eat_def)
  ultimately obtain t where "rounds ?st t" "rest t = []" "fr t = []"
    using Suc.hyps(1)[of ?st] Suc.hyps(2) f by auto
  moreover have "rounds st ?st" using Suc.prems f by (auto simp: closers_def intro: rounds_step rounds_refl)
  ultimately show ?case using rounds_trans by blast
qed

lemma closers_start: "fs \<noteq> [] \<Longrightarrow> starts_closed (closers fs)"
  by (cases fs) (simp_all add: closers_def starts_closed_def closer_def)

text \<open>A text whose scan ends without a frame is not changed.\<close>

lemma scanned_closed:
  assumes "rounds (scan_start t) st" and "\<not> inStr st" and "rest st = closers (fr st)"
  shows "completeUnclosedFinal t = Some (t, False)"
proof -
  obtain u where "rounds st u" "rest u = []" "fr u = []" using close_frames[OF assms(2,3)] by blast
  then show ?thesis using rounds_complete[of t u] rounds_trans assms(1) by (simp add: complete_finish_def)
qed

section \<open>Safe lengths\<close>

text \<open>
  \<open>resumes p fs\<close>: when the prefix \<open>p\<close> is followed by a closer, the scan reaches that closer outside
  strings with frames of the kinds of \<open>fs\<close>. The output up to a frame's safe length is such a prefix.
\<close>

definition resumes :: "string \<Rightarrow> frame list \<Rightarrow> bool" where
  "resumes p fs \<longleftrightarrow> (\<forall>x. starts_closed x \<longrightarrow>
     (\<exists>st. rounds (scan_start (p @ x)) st \<and> rest st = x \<and> \<not> inStr st \<and> map arr (fr st) = map arr fs))"

primrec safe_frames :: "string \<Rightarrow> frame list \<Rightarrow> bool" where
  "safe_frames w [] = True"
| "safe_frames w (f # fs) \<longleftrightarrow>
     safeLen f \<le> length w \<and> resumes (take (safeLen f) w) (f # fs) \<and> safe_frames w fs"

lemma resumes_arr: "resumes p fs \<Longrightarrow> map arr gs = map arr fs \<Longrightarrow> resumes p gs"
  by (simp add: resumes_def)

lemma safe_frames_append: "safe_frames w fs \<Longrightarrow> safe_frames (w @ p) fs"
  by (induction fs) auto

lemma safe_frames_tl: "safe_frames w fs \<Longrightarrow> safe_frames w (tl fs)"
  by (cases fs) auto

lemma resumes_here:
  assumes "rounds (scan_start s) st" and "\<not> inStr st" and "trailTokStart st = None"
  shows "resumes (out st) (fr st)"
  unfolding resumes_def
proof (intro allI impI)
  fix x assume "starts_closed x"
  then have "rounds (scan_start (out st @ x)) (st\<lparr>rest := x\<rparr>)"
    using replay[OF assms(1,3)] by (simp add: compat_def)
  then show "\<exists>st'. rounds (scan_start (out st @ x)) st' \<and> rest st' = x \<and> \<not> inStr st' \<and>
      map arr (fr st') = map arr (fr st)"
    using assms(2) by (intro exI[of _ "st\<lparr>rest := x\<rparr>"]) simp
qed

lemma safe_frames_upd:
  assumes "safe_frames w fs" and "\<And>t. arr (g t) = arr t" and "\<And>t. safeLen (g t) = safeLen t"
  shows "safe_frames w (upd_top g fs)"
  using assms by (cases fs) (auto simp: upd_top_def intro: resumes_arr)

lemma safe_frames_here:
  assumes "rounds (scan_start s) st" and "\<not> inStr st" and "trailTokStart st = None"
    and "safe_frames (out st) (tl (fr st))" and "fr st \<noteq> [] \<Longrightarrow> safeLen (hd (fr st)) = length (out st)"
  shows "safe_frames (out st) (fr st)"
  using assms(4,5) resumes_here[OF assms(1-3)] by (cases "fr st") auto

lemma commit_frames:
  "fr (commit st) \<noteq> [] \<Longrightarrow> safeLen (hd (fr (commit st))) = length (out (commit st))"
  "tl (fr (commit st)) = tl (fr st)" "inStr (commit st) = inStr st" "out (commit st) = out st"
  "trailTokStart (commit st) = trailTokStart st"
  by (cases "fr st"; simp add: commit_def upd_top_def)+

lemma string_step_frames:
  "fr (string_step c st) = fr st \<or> fr (string_step c st) = upd_top (\<lambda>t. t\<lparr>pendingKey := True\<rparr>) (fr st) \<or>
     string_step c st = commit ((eat st)\<lparr>inStr := False\<rparr>)"
  by (simp add: string_step_def Let_def eat_def)

lemma token_end_frames:
  "fr (token_end st tok r) = upd_top (\<lambda>t. t\<lparr>pendingKey := True\<rparr>) (fr st) \<or>
   fr (token_end st tok r) = upd_top (\<lambda>t. t\<lparr>expectValue := False\<rparr>) (fr st) \<or>
   (\<exists>st'. token_end st tok r = commit st' \<and> tl (fr st') = tl (fr st) \<and> inStr st' = inStr st \<and>
      trailTokStart st' = trailTokStart st)"
proof (cases "key_pos st \<or> r = [] \<or> fr st = []")
  case False
  let ?st = "st\<lparr>rest := r, out := out st @ tok, fr := upd_top (\<lambda>t. t\<lparr>expectValue := False\<rparr>) (fr st)\<rparr>"
  have "token_end st tok r = commit ?st" using False by (simp add: token_end_def Let_def)
  moreover have "tl (fr ?st) = tl (fr st)" by (cases "fr st") (simp_all add: upd_top_def)
  ultimately show ?thesis by (intro disjI2 exI[of _ ?st]) simp
qed (auto simp: token_end_def Let_def)

lemma rounds_safe: "rounds (scan_start s) st \<Longrightarrow> safe_frames (out st) (fr st)"
proof (induction "scan_start s" st rule: rounds.induct)
  case rounds_refl
  show ?case by (simp add: scan_start_def)
next
  case (rounds_step st)
  obtain c r where c: "rest st = c # r" using rounds_step.hyps(3) by (cases "rest st") auto
  obtain p where p: "out (scan_step st) = out st @ p" using scan_step_piece[OF rounds_step.hyps(3)] by blast
  have old: "safe_frames (out (scan_step st)) (fr st)"
    using safe_frames_append[OF rounds_step.hyps(2)] p by simp
  have r1: "rounds (scan_start s) (scan_step st)" using rounds_step.hyps(1,3) by (rule rounds.rounds_step)
  have tr: "trailTokStart st = None" by (rule rounds_trail[OF rounds_step.hyps(1,3)])
  note here = safe_frames_here[OF r1]
  note upd = safe_frames_upd[OF old]
  from c show ?case
  proof (cases rule: scan_step_cases)
    case string
    consider "fr (scan_step st) = fr st" | "fr (scan_step st) = upd_top (\<lambda>t. t\<lparr>pendingKey := True\<rparr>) (fr st)"
      | "scan_step st = commit ((eat st)\<lparr>inStr := False\<rparr>)"
      using string_step_frames[of c st] unfolding string(2) by blast
    then show ?thesis
    proof cases
      case 3
      then show ?thesis using here old tr safe_frames_tl[OF old] by (simp add: commit_frames eat_def)
    qed (use old upd in auto)
  next
    case quote
    then show ?thesis using upd by (simp add: quote_step_def eat_def)
  next
    case open_b
    then show ?thesis using here old tr by (simp add: open_step_def eat_def)
  next
    case close_b
    then show ?thesis using here old tr safe_frames_tl[OF safe_frames_tl[OF old]]
      by (simp add: close_step_def commit_frames eat_def)
  next
    case (separator b)
    then show ?thesis using upd by (simp add: separator_step_def eat_def)
  next
    case space
    then show ?thesis using old by (simp add: eat_def)
  next
    case token
    consider "fr (scan_step st) = upd_top (\<lambda>t. t\<lparr>pendingKey := True\<rparr>) (fr st)"
      | "fr (scan_step st) = upd_top (\<lambda>t. t\<lparr>expectValue := False\<rparr>) (fr st)"
      | st' where "scan_step st = commit st'" "tl (fr st') = tl (fr st)" "inStr st' = inStr st"
        "trailTokStart st' = trailTokStart st"
      unfolding token(3) token_step_def using token_end_frames by blast
    then show ?thesis
    proof cases
      case 3
      then show ?thesis using here old tr safe_frames_tl[OF old] token(1) by (simp add: commit_frames)
    qed (use upd in simp_all)
  qed
qed

section \<open>The completed text is closed\<close>

lemma resumes_closed: "resumes p fs \<Longrightarrow> fs \<noteq> [] \<Longrightarrow> completeUnclosedFinal (p @ closers fs) = Some (p @ closers fs, False)"
proof -
  assume r: "resumes p fs" and "fs \<noteq> []"
  then obtain st where "rounds (scan_start (p @ closers fs)) st" "rest st = closers fs" "\<not> inStr st"
      and m: "map arr (fr st) = map arr fs"
    using closers_start[of fs] unfolding resumes_def by blast
  moreover have "closers (fr st) = closers fs" unfolding closers_arr m ..
  ultimately show ?thesis by (metis scanned_closed)
qed

lemma safe_closed:
  assumes "rounds (scan_start s) st" and "fr st \<noteq> []"
  shows "let t = take (safeLen (hd (fr st))) (out st) @ closers (fr st) in completeUnclosedFinal t = Some (t, False)"
  using rounds_safe[OF assms(1)] assms(2) by (cases "fr st") (auto simp: Let_def intro!: resumes_closed)

lemma rounds_quote:
  "rounds (scan_start s) st \<Longrightarrow> inStr st \<Longrightarrow> strQuote st = CHR 0x22 \<or> strQuote st = CHR 0x27"
proof (induction "scan_start s" st rule: rounds.induct)
  case (rounds_step st)
  obtain c r where c: "rest st = c # r" using rounds_step.hyps(3) by (cases "rest st") auto
  then show ?case using rounds_step
    by (cases rule: scan_step_cases)
      (auto simp: string_step_def quote_step_def open_step_def close_step_def separator_step_def eat_def
        commit_def Let_def token_step_def token_end_def split: if_splits)
qed (simp add: scan_start_def)

text \<open>Closing the trailing string.\<close>

lemma string_closed:
  assumes "rounds (scan_start s) st" and "inStr st" and "\<not> strIsKey st" and "trailTokStart st = None"
    and "fr st \<noteq> []"
  shows "let t = out st @ (if esc_byte st then [CHR 0x5C] else []) @ strQuote st # closers (fr st)
    in completeUnclosedFinal t = Some (t, False)"
proof -
  let ?cl = "strQuote st # closers (fr st)"
  let ?x = "(if esc_byte st then [CHR 0x5C] else []) @ ?cl"
  let ?st = "st\<lparr>esc_byte := False, out := out st @ (if esc_byte st then [CHR 0x5C] else []), rest := ?cl\<rparr>"
  have r: "rounds (scan_start (out st @ ?x)) (st\<lparr>rest := ?x\<rparr>)" by (rule replay[OF assms(1,4)]) (simp add: assms(2))
  have "rounds (scan_start (out st @ ?x)) ?st"
  proof (cases "esc_byte st")
    case True
    then have "scan_step (st\<lparr>rest := ?x\<rparr>) = ?st"
      using assms(2) by (simp add: scan_step_def string_step_def eat_def Let_def)
    then show ?thesis using rounds_step[OF r] True by simp
  next
    case False
    then have "?st = st\<lparr>rest := ?x\<rparr>" by (cases st) simp
    then show ?thesis using r by simp
  qed
  from rounds_step[OF this] have r2: "rounds (scan_start (out st @ ?x)) (scan_step ?st)" by simp
  have q: "strQuote st \<noteq> CHR 0x5C" using rounds_quote[OF assms(1,2)] by auto
  have st2: "scan_step ?st = commit ((eat ?st)\<lparr>inStr := False\<rparr>)"
    using assms(2,3,5) q by (simp add: scan_step_def string_step_def Let_def eat_def)
  have "\<not> inStr (scan_step ?st)" "rest (scan_step ?st) = closers (fr st)"
    unfolding st2 by (simp_all add: commit_def eat_def)
  moreover have "map arr (fr (scan_step ?st)) = map arr (fr st)"
    unfolding st2 by (cases "fr st") (simp_all add: commit_def eat_def upd_top_def)
  then have "closers (fr (scan_step ?st)) = closers (fr st)" unfolding closers_arr by simp
  ultimately show ?thesis using scanned_closed[OF r2] by (simp add: Let_def)
qed

text \<open>A trailing token and its non-empty prefixes.\<close>

lemma trail_origin:
  assumes "rounds (scan_start s) st" and "trailTokStart st = Some k"
  obtains st0 c r where "rounds (scan_start s) st0" "rest st0 = c # r" "\<not> inStr st0" "token_byte c"
    "\<not> key_pos st0" "rest (token_step st0) = []" "st = token_step st0"
  using assms
proof (cases rule: rounds.cases)
  case (rounds_step st0)
  then obtain c r where c: "rest st0 = c # r" by (cases "rest st0") auto
  have "trailTokStart st0 = None" using rounds_trail rounds_step(2,3) by blast
  from scan_step_trail[OF c this] have "\<not> inStr st0" "token_byte c" "\<not> key_pos st0" "rest (token_step st0) = []"
    using assms(2) rounds_step(1) by auto
  then show thesis using that[OF rounds_step(2) c] scan_step_token[OF c] rounds_step(1) by simp
qed (use assms in \<open>simp add: scan_start_def\<close>)

lemma token_closed:
  assumes r0: "rounds (scan_start s) st0" and c: "rest st0 = c # r" and t: "\<not> inStr st0" "token_byte c" "\<not> key_pos st0"
    and all: "rest (token_step st0) = []" and tok: "rest st0 = tok @ q" "tok \<noteq> []" and fr: "fr st0 \<noteq> []"
  shows "let t = out st0 @ tok @ closers (fr st0) in completeUnclosedFinal t = Some (t, False)"
proof -
  let ?x = "tok @ closers (fr st0)"
  let ?st = "st0\<lparr>rest := ?x\<rparr>"
  have tr: "trailTokStart st0 = None" using rounds_trail[OF r0] c by simp
  obtain u where hd: "tok = c # u" using tok c by (cases tok) auto
  have "compat (rest st0) ?x" using hd c by (auto simp: compat_def)
  then have "rounds (scan_start (out st0 @ ?x)) ?st" using replay[OF r0 tr] by blast
  then have r1: "rounds (scan_start (out st0 @ ?x)) (scan_step ?st)"
    using tok(2) by (intro rounds_step) simp_all
  have k: "key_pos ?st = False" using t(3) by (simp add: key_pos_def)
  have stop: "closers (fr st0) \<noteq> []" "token_stop False (hd (closers (fr st0)))"
    using fr by (cases "fr st0"; simp add: closers_def token_stop_def)+
  have "\<forall>d \<in> set tok. \<not> token_stop False d"
    using all tok(1) t(3) by (simp add: token_step_text)
  note run = token_run_append[OF this stop]
  have "scan_step ?st = token_step ?st"
    using scan_step_token[of ?st c "u @ closers (fr st0)"] t(1,2) hd by simp
  also have "\<dots> = token_end ?st tok (closers (fr st0))"
    unfolding token_step_def k using run by simp
  finally have step: "scan_step ?st = token_end ?st tok (closers (fr st0))" .
  have "token_end ?st tok (closers (fr st0)) =
      commit (?st\<lparr>rest := closers (fr st0), out := out st0 @ tok,
                  fr := upd_top (\<lambda>t. t\<lparr>expectValue := False\<rparr>) (fr st0)\<rparr>)"
    using k fr stop(1) by (simp add: token_end_def Let_def)
  note st = step[unfolded this]
  have "\<not> inStr (scan_step ?st)" "rest (scan_step ?st) = closers (fr st0)"
    unfolding st using t(1) by (simp_all add: commit_def)
  moreover have "map arr (fr (scan_step ?st)) = map arr (fr st0)"
    unfolding st by (cases "fr st0") (simp_all add: commit_def upd_top_def)
  then have "closers (fr (scan_step ?st)) = closers (fr st0)" unfolding closers_arr by simp
  ultimately show ?thesis using scanned_closed[OF r1] by (simp add: Let_def)
qed

lemma digit_not_incomplete: "digit d \<Longrightarrow> \<not> incomplete_number_byte d"
  by (auto simp: incomplete_number_byte_def digit_def)

lemma trim_number_prefix:
  assumes "list_ex digit tok"
  shows "trim_number tok \<noteq> []" "\<exists>q. tok = trim_number tok @ q"
proof -
  have "\<not> (\<forall>x \<in> set (rev tok). incomplete_number_byte x)"
    using assms digit_not_incomplete by (auto simp: list_ex_iff)
  then show "trim_number tok \<noteq> []" unfolding trim_number_def by simp
  have "rev tok = takeWhile incomplete_number_byte (rev tok) @ dropWhile incomplete_number_byte (rev tok)" by simp
  then have "tok = trim_number tok @ rev (takeWhile incomplete_number_byte (rev tok))"
    unfolding trim_number_def by (metis rev_append rev_rev_ident)
  then show "\<exists>q. tok = trim_number tok @ q" by blast
qed

lemma completed_closed:
  assumes "completeUnclosedFinal s = Some (t, True)"
  shows "completeUnclosedFinal t = Some (t, False)"
proof -
  obtain st where "while_option (\<lambda>st. rest st \<noteq> []) scan_step (scan_start s) = Some st"
    and fin: "complete_finish s st = (t, True)"
    using assms by (auto simp: completeUnclosedFinal_def)
  then have r: "rounds (scan_start s) st" "rest st = []" using while_rounds by blast+
  have fr: "fr st \<noteq> []" and t: "t = settled_out st @ closers (fr st)"
    using fin by (auto simp: complete_finish_def split: if_splits)
  note safe = safe_closed[OF r(1) fr, unfolded Let_def]
  show ?thesis
  proof (cases "trailTokStart st")
    case None
    then show ?thesis
      using t safe string_closed[OF r(1) _ _ None fr] resumes_closed[OF resumes_here[OF r(1) _ None] fr]
      by (auto simp: settled_out_def Let_def split: if_splits)
  next
    case (Some k)
    obtain st0 c q where o: "rounds (scan_start s) st0" "rest st0 = c # q" "\<not> inStr st0" "token_byte c"
      "\<not> key_pos st0" "rest (token_step st0) = []" "st = token_step st0"
      using trail_origin[OF r(1) Some] by metis
    have st: "out st = out st0 @ rest st0" "k = length (out st0)" "\<not> inStr st"
      using o Some by (auto simp: token_step_text step_trail)
        (auto simp: token_step_def token_end_def Let_def commit_def)
    have arr: "map arr (fr st) = map arr (fr st0)"
      unfolding o(7) using o(5)
      by (cases "fr st0") (auto simp: token_step_def token_end_def Let_def commit_def upd_top_def)
    then have fr0: "fr st0 \<noteq> []" "closers (fr st) = closers (fr st0)" using fr by (auto simp: closers_arr)
    have tok: "completeUnclosedFinal (out st0 @ u @ closers (fr st0)) = Some (out st0 @ u @ closers (fr st0), False)"
      if "rest st0 = u @ v" "u \<noteq> []" for u v
      using token_closed[OF o(1-6) that fr0(1)] by (simp add: Let_def)
    show ?thesis
      using t safe Some st fr0 tok[of "rest st0" "[]"] tok[of "trim_number (rest st0)"]
        trim_number_prefix[of "rest st0"] o(2)
      by (auto simp: settled_out_def Let_def split: if_splits)
  qed
qed


section \<open>Properties\<close>

lemma rounds_count:
  "\<exists>k \<le> length (rest st). rest ((scan_step ^^ k) st) = [] \<and> rounds st ((scan_step ^^ k) st)"
proof (induction "length (rest st)" arbitrary: st rule: less_induct)
  case less
  show ?case
  proof (cases "rest st = []")
    case True
    then show ?thesis by (intro exI[of _ 0]) (simp add: rounds_refl)
  next
    case False
    obtain k where k: "k \<le> length (rest (scan_step st))" "rest ((scan_step ^^ k) (scan_step st)) = []"
        "rounds (scan_step st) ((scan_step ^^ k) (scan_step st))"
      using less[OF scan_step_shorter[OF False]] by blast
    have "rounds st (scan_step st)" by (rule rounds_step[OF rounds_refl False])
    then show ?thesis using k rounds_trans scan_step_shorter[OF False]
      by (intro exI[of _ "Suc k"]) (auto simp: funpow_swap1)
  qed
qed

text \<open>C14: (termination) The scan of an unclosed final text ends on every input, after at most one round per
  byte, although a round that meets an unquoted token advances only by the length of that token; the result
  is what the end of the text makes of the state of that round.\<close>

theorem complete_terminates:
  "\<exists>k. k \<le> length s \<and> completeUnclosedFinal s = Some (complete_finish s ((scan_step ^^ k) (scan_start s)))"
proof -
  have "rest (scan_start s) = s" by (simp add: scan_start_def)
  then show ?thesis using rounds_count[of "scan_start s"] rounds_complete by metis
qed

text \<open>C15: (functional) A completed text is closed: when the pass changes a text, it finds nothing left to
  complete in the result, whatever the text ended in - a string, an escape, a key without a value, a
  partial number, or mismatched brackets.\<close>

theorem completed_text_closed:
  "completeUnclosedFinal s = Some (t, True) \<Longrightarrow> completeUnclosedFinal t = Some (t, False)"
  by (rule completed_closed)

lemma unclosed_demo: "completeUnclosedFinal ''[1,2.'' = Some (''[1,2]'', True)"
  by (simp add: completeUnclosedFinal_def while_option_unfold scan_start_def scan_step_def token_step_def
      token_end_def token_stop_def separator_step_def open_step_def eat_def commit_def upd_top_def key_pos_def
      json_space_def complete_finish_def settled_out_def closers_def trim_number_def incomplete_number_byte_def digit_def Let_def)

theorem completed_text_closed_witness:
  "completeUnclosedFinal ''[1,2.'' = Some (''[1,2]'', True) \<and> completeUnclosedFinal ''[1,2]'' = Some (''[1,2]'', False)"
  using completed_text_closed[OF unclosed_demo] unclosed_demo by simp

end
