(* ===== verification/Spec2Isabelle.thy ===== *)
theory Spec2Isabelle
  imports Shared_State_Concurrent Stream_Orchestrator Response_Extract Borrowed_Response Jsonish_Extract Jsonish_Complete
begin

text \<open>
  Verification of the request engine of baml-rest, a server that exposes BAML functions over HTTP.
  The repository is a set of Go modules under \<^verbatim>\<open>src/\<close>. A request names a method and may carry a runtime
  client registry; the engine decides which client serves it (through round-robin and fallback
  strategies), tells the consumer what it planned, builds and sends the provider's HTTP request, reads
  the answer as one body or as a stream of events, extracts the text, parses the text into the
  method's result, and retries or falls back on failure. What is modelled here is that path.

  \<^bold>\<open>Conventions.\<close> Go strings and byte slices are byte strings (lists of \<^typ>\<open>char\<close>); a nil slice or pointer is
  \<^const>\<open>None\<close> where the code tells it from an empty one. Go maps are association lists in some order, and
  where the code ranges over one the theorems hold for every order. A fallible function returns a sum
  whose left side is the error; a panic is a result of its own. Counters are \<open>64 word\<close> values, and the
  \<^verbatim>\<open>int\<close> of the retry loop is an \<^typ>\<open>int\<close> with its overflow written out. Code that lives outside the
  repository (the gjson library, the HTTP transport, generated request builders and parsers, the BAML
  runtime, math.Pow, random numbers, clocks and contexts) is an argument of the definitions
  that call it. Effects thread an explicit state: \<open>'w\<close> is whatever the outside world remembers, and
  sends on the result channel are appended to a list of events.

  \<^bold>\<open>Planning.\<close>
  \<^item> \<open>Baml_Prelude\<close>: association lists, traversals with failure, and the parts of the \<^verbatim>\<open>strings\<close> package.
  \<^item> \<open>Client_Registry\<close> (\<^verbatim>\<open>bamlutils/interfaces.go\<close>): the registry a request carries, its validation, the
    round-robin info and the classification of strategy parents.
  \<^item> \<open>Strategy_Parse\<close> (\<^verbatim>\<open>bamlutils/strategyparse\<close>): the override syntax; with the property
    \<open>strategy_override_roundtrip\<close> below.
  \<^item> \<open>Round_Robin\<close> (\<^verbatim>\<open>buildrequest/roundrobin\<close>): the coordinator's counters and \<open>Resolve\<close>. The locale
    \<open>rr_advancer\<close> is the contract of an advancer (an index in range, an invariant kept), \<open>total_advancer\<close>
    of one that does not fail, \<open>replay_advancer\<close> of one that repeats its answers. \<open>Resolve\<close> returns a reachable leaf, its cycle errors name real cycles, and the coordinator gives
    consecutive tickets modulo the child count across the wrap-around.
  \<^item> \<open>Client_Resolution\<close> (\<^verbatim>\<open>client_resolution.go\<close>, \<^verbatim>\<open>retry_policy.go\<close>): client, provider and retry policy
    of a request, and the order of the policy's sources.
  \<^item> \<open>Strategy_Graph\<close> (\<^verbatim>\<open>legacy_child_registry.go\<close>): the reachability walks. The locale \<open>graph_walk\<close> proves a
    walk with a stack of pending nodes exact once, for both walks of the file; the override
    preflight is exact, and a registry it accepts is resolved without an override error.
  \<^item> \<open>Fallback_Plan\<close> (\<^verbatim>\<open>fallback_resolve.go\<close>) and \<open>Metadata_Plan\<close> (\<^verbatim>\<open>metadata.go\<close>): the resolution of a fallback
    chain into a plan, and the metadata announced for it.

  \<^bold>\<open>Shared round-robin state.\<close>
  \<^item> \<open>Shared_State\<close> (\<^verbatim>\<open>workerplugin/sharedstate.go\<close>, \<^verbatim>\<open>remote_advancer.go\<close>, \<^verbatim>\<open>worker/sharedstate.go\<close>, the seeds of
    \<^verbatim>\<open>pool/pool.go\<close>): the store with its idempotence entries and scopes as sequential operations. It
    refines the coordinator, repeats the answer of a repeated request, and a drop or a sweep releases
    exactly what it should.
  \<^item> \<open>Shared_State_Concurrent\<close>: the same operations as threads whose steps, between two accesses to shared
    memory, interleave freely. The locale \<open>exclusive\<close> is the discipline of a lock or a once. Under every
    schedule some thread can always move, and an operation id that is not dropped and that no sweep finds idle
    beyond the TTL adds once; the orphaned entry of the findings is
    a schedule found by this model.

  \<^bold>\<open>Execution.\<close>
  \<^item> \<open>Go_Errors\<close> (\<^verbatim>\<open>errors.go\<close>, \<^verbatim>\<open>raw_error.go\<close>), \<open>Retry_Execute\<close> (\<^verbatim>\<open>retry/retry.go\<close>): error chains, delays and the
    retry loop with its trace of attempts. \<open>attempt_begins\<close> says in which state a run comes to make an attempt;
    the orchestrators say by it who served a run and when one is over.
  \<^item> \<open>Call_Orchestrator\<close> (\<^verbatim>\<open>call_orchestrator.go\<close>, \<^verbatim>\<open>native_callback.go\<close>): \<open>RunCallOrchestration\<close>. Every run
    has one of a few shapes of events, and its final and its outcome metadata are those of the child that served
    it; a native claim excludes a second send; and the one way to panic is the overflow of the attempt count. The
    native callback is a parameter that is given the request builder, as in the code. The provider tables are those
    of the release build, without the debug filter of \<^verbatim>\<open>call_support_debug.go\<close>.
  \<^item> \<open>Response_Extract\<close> (\<^verbatim>\<open>response_extract.go\<close>, \<^verbatim>\<open>response_extract_borrowed.go\<close>): the text of a unary body. The
    locale \<open>lawful_joiner\<close> is the contract of \<^verbatim>\<open>parseableJoiner\<close>, interpreted on both joiners; the
    extractors join the blocks of a response, whichever lane it came on, and keep reasoning out of its text.
  \<^item> \<open>Borrowed_Response\<close> (\<^verbatim>\<open>Response\<close> in \<^verbatim>\<open>llmhttp.go\<close>): the attempt again, on a memory in which strings are
    windows into buffers and released buffers may be overwritten. It refines the attempt on strings: nothing that
    leaves it is a window into released storage.
  \<^item> \<open>Sse_Client\<close> (\<^verbatim>\<open>sseclient.go\<close>), \<open>Sse_Extract\<close> (\<^verbatim>\<open>sse/extract.go\<close>), \<open>Bedrock_Stream\<close> (\<^verbatim>\<open>awsstream.go\<close>,
    \<^verbatim>\<open>bedrock_stream_extract.go\<close>), \<open>Llm_Http\<close>: the event parser, the text of an event, the second transport,
    and how a failed read is reported.
  \<^item> \<open>Stream_Cadence\<close> (\<^verbatim>\<open>stream_cadence.go\<close>): when a delta is parsed and sent. The locale \<open>event_sink\<close> is
    the contract of the function that sends a partial, \<open>window_invariant\<close> that of a property of the events
    kept by it; both are interpreted on the sink of the orchestrator.
  \<^item> \<open>Stream_Orchestrator\<close> (\<^verbatim>\<open>orchestrator.go\<close>, \<^verbatim>\<open>native_stream_callback.go\<close>): \<open>RunStreamOrchestration\<close> on both
    transports and both native seams. Every run has one shape of events, resets only what it sent,
    and the partials after the last reset join to the final text. A failure after a native claim ends the run in
    whichever attempt and at whichever child it happens (\<open>contacts\<close>, \<open>chain_reaches\<close>).

  \<^bold>\<open>Output parser.\<close> The native parser of \<^verbatim>\<open>src/internal/debaml\<close>, which turns the text of a model into an
  ordered value.
  \<^item> \<open>Go_Json\<close>: the token stream of encoding/json, \<^verbatim>\<open>json.Valid\<close> and the number readers of strconv.
  \<^item> \<open>Jsonish_Value\<close> (\<^verbatim>\<open>value.go\<close>, the token classes of \<^verbatim>\<open>alias_number.go\<close>): values with the fields of the Go
    struct, and strict decoding.
  \<^item> \<open>Jsonish_Fix\<close> (\<^verbatim>\<open>fix.go\<close>): the fixing parsers for finished and for streaming texts, as readers that
    return what they read and the rest of the text.
  \<^item> \<open>Jsonish_Grammar\<close>: the finished parser as an inductive relation, and the comparison of the two.
    \<open>Jsonish_Source\<close>: source trees with every repair that the parser accepts, and that it reads them back.
  \<^item> \<open>Jsonish_Extract\<close> (\<^verbatim>\<open>extract.go\<close>): comments, fences, candidates in prose, for both kinds of text.
  \<^item> \<open>Jsonish_Complete\<close> (\<^verbatim>\<open>complete_final.go\<close>): the closing of an unclosed text.

  \<^bold>\<open>Bounds and termination.\<close> Recursions that follow the text or a list are total functions with a
  termination proof; where a nested call returns the rest of the text the proof first bounds that rest. The
  walks over a registry and the round-robin loop end because they visit a name once. The retry loop is bounded by the attempt count. The scan of
  \<open>Jsonish_Complete\<close> is a \<open>while_option\<close>, and that it ends within one round per byte is
  a theorem. The comment stripper is given the length of the text as its bound, and each of its rounds consumes
  a byte. The interleaving model has no bound: its theorems are about every reachable state.

  \<^bold>\<open>Not modelled.\<close>
  \<^item> Code generation and its output (\<^verbatim>\<open>adapters\<close>, \<^verbatim>\<open>introspected\<close>, \<^verbatim>\<open>dynclient\<close>, \<^verbatim>\<open>internal/codegenspine\<close>, most of \<^verbatim>\<open>cmd\<close>): it
    prints Go source from BAML projects, and its meaning is that of the printed program.
  \<^item> Process and network plumbing (\<^verbatim>\<open>cmd/serve\<close>, \<^verbatim>\<open>cmd/worker\<close>, the rest of \<^verbatim>\<open>pool\<close>, \<^verbatim>\<open>worker\<close> and \<^verbatim>\<open>workerplugin\<close>,
    the transports of \<^verbatim>\<open>llmhttp\<close>): HTTP, gRPC, plugin processes, timers.
  \<^item> Coercion of a value to a schema and constraint evaluation (the rest of \<^verbatim>\<open>internal/debaml\<close>), and the
    schema, prompt and body builders (\<^verbatim>\<open>internal/schema\<close>, \<^verbatim>\<open>nativeschema\<close>, \<^verbatim>\<open>nativeprompt\<close>, \<^verbatim>\<open>nativebody\<close>,
    \<^verbatim>\<open>nativespine\<close>, \<^verbatim>\<open>nativeserve\<close>): they work on schema bundles that the generated descriptors supply,
    and format floats and Unicode text through library tables.
  \<^item> The debug build's filter of call-supported providers (\<^verbatim>\<open>call_support_debug.go\<close>, \<^verbatim>\<open>call_support_parse.go\<close>), which
    reads an environment variable.
  \<^item> JSON marshalling of the request and response types (\<^verbatim>\<open>dynamic*.go\<close>, \<^verbatim>\<open>orderedmap.go\<close>, \<^verbatim>\<open>media.go\<close>), which
    goes through the sonic library.
\<close>

text \<open>C40: (roundtrip) Printing a non-empty list of plain client names as a bracketed strategy
  override, with or without the \<^verbatim>\<open>strategy\<close> prefix and with or without quotes, and parsing it gives the
  list back, and so do the two list shapes of the override.\<close>

theorem strategy_override_roundtrip:
  assumes "ns \<noteq> []" "list_all plain_name ns"
  shows "ParseStrategyOption (VStr (print_strategy prefixed quoted ns)) = Some ns \<and>
    ParseStrategyOption (VStrs ns) = Some ns \<and>
    ParseStrategyOption (VAnys (map VStr ns)) = Some ns"
  using assms
  by (simp add: ParseStrategyOption_def nilIfEmpty_def parse_print_strategy
      normalize_all_plain normalize_anys_VStr)

theorem strategy_override_roundtrip_witness:
  "ParseStrategyOption (VStr ''strategy [\"ClientA\", \"ClientB\"]'') = Some [''ClientA'', ''ClientB'']"
  using strategy_override_roundtrip[of "[''ClientA'', ''ClientB'']" True True]
  by (simp add: plain_name_def plain_byte_def strategy_sep_def solid_byte_def space_encodings_def
      print_strategy_def quote_name_def)

end
